(* ===== verification/Prelude.thy ===== *)
theory Prelude
  imports Main "HOL-Library.Word"
begin

text \<open>
  Shared vocabulary of the development: machine integers and byte strings, the ways a Rust
  call can end (it returns, or it panics), big-endian byte encodings, and the generic lemmas
  on slices and lists that the component theories use.
\<close>

unbundle bit_operations_syntax

section \<open>Lemma collections\<close>

named_theorems codec_simps \<open>lengths and round trips of the byte encodings\<close>
named_theorems consts_defs \<open>numeric constants of the sources\<close>

section \<open>Machine integers and buffers\<close>

type_synonym u8 = "8 word"
type_synonym u16 = "16 word"
type_synonym u32 = "32 word"
type_synonym u64 = "64 word"
type_synonym bytes = "u8 list"

text \<open>
  A call either returns or panics (a slice out of range, an \<open>expect\<close> on an error). A panic
  unwinds the task, so it is kept apart from the error values a function returns.
\<close>

datatype 'a exec = Panicked | Done 'a

definition exec_bind :: "'a exec \<Rightarrow> ('a \<Rightarrow> 'b exec) \<Rightarrow> 'b exec" where
  "exec_bind m f = (case m of Panicked \<Rightarrow> Panicked | Done x \<Rightarrow> f x)"

lemma exec_bind_simps [simp]:
  "exec_bind Panicked f = Panicked"
  "exec_bind (Done x) f = f x"
  by (simp_all add: exec_bind_def)

text \<open>\<open>&data[from..]\<close> and \<open>&data[from..to]\<close>: the bounds are checked at run time.\<close>

definition slice_from :: "'a list \<Rightarrow> nat \<Rightarrow> 'a list exec" where
  "slice_from xs i = (if i \<le> length xs then Done (drop i xs) else Panicked)"

definition slice :: "'a list \<Rightarrow> nat \<Rightarrow> nat \<Rightarrow> 'a list exec" where
  "slice xs i j = (if i \<le> j \<and> j \<le> length xs then Done (take (j - i) (drop i xs)) else Panicked)"

lemma slice_from_Done [simp]: "i \<le> length xs \<Longrightarrow> slice_from xs i = Done (drop i xs)"
  by (simp add: slice_from_def)

lemma slice_from_Panicked_iff: "slice_from xs i = Panicked \<longleftrightarrow> length xs < i"
  by (auto simp: slice_from_def)

lemma slice_Done [simp]:
  "i \<le> j \<Longrightarrow> j \<le> length xs \<Longrightarrow> slice xs i j = Done (take (j - i) (drop i xs))"
  by (simp add: slice_def)

section \<open>Big-endian encodings\<close>

definition u16_to_be_bytes :: "u16 \<Rightarrow> bytes" where
  "u16_to_be_bytes w = [ucast (drop_bit 8 w), ucast w]"

fun u16_from_be_bytes :: "bytes \<Rightarrow> u16" where
  "u16_from_be_bytes [a, b] = push_bit 8 (ucast a) OR ucast b"
| "u16_from_be_bytes _ = 0"

definition u32_to_be_bytes :: "u32 \<Rightarrow> bytes" where
  "u32_to_be_bytes w =
     [ucast (drop_bit 24 w), ucast (drop_bit 16 w), ucast (drop_bit 8 w), ucast w]"

fun u32_from_be_bytes :: "bytes \<Rightarrow> u32" where
  "u32_from_be_bytes [a, b, c, d] =
     push_bit 24 (ucast a) OR push_bit 16 (ucast b) OR push_bit 8 (ucast c) OR ucast d"
| "u32_from_be_bytes _ = 0"

lemma length_u16_to_be_bytes [simp, codec_simps]: "length (u16_to_be_bytes w) = 2"
  by (simp add: u16_to_be_bytes_def)

lemma length_u32_to_be_bytes [simp, codec_simps]: "length (u32_to_be_bytes w) = 4"
  by (simp add: u32_to_be_bytes_def)

lemma u16_be_roundtrip [simp, codec_simps]: "u16_from_be_bytes (u16_to_be_bytes w) = w"
  by (rule bit_word_eqI) (auto simp: u16_to_be_bytes_def bit_simps)

lemma u32_be_roundtrip [simp, codec_simps]: "u32_from_be_bytes (u32_to_be_bytes w) = w"
proof (rule bit_word_eqI)
  fix n assume "n < LENGTH(32)"
  then consider "n < 8" | "8 \<le> n \<and> n < 16" | "16 \<le> n \<and> n < 24" | "24 \<le> n \<and> n < 32"
    by force
  then show "bit (u32_from_be_bytes (u32_to_be_bytes w)) n = bit w n"
    by cases (auto simp: u32_to_be_bytes_def bit_simps)
qed

lemma u32_to_be_bytes_inject [simp]: "u32_to_be_bytes v = u32_to_be_bytes w \<longleftrightarrow> v = w"
  by (metis u32_be_roundtrip)

lemma bit_u8_out_of_range [simp]: "8 \<le> n \<Longrightarrow> \<not> bit (w :: u8) n"
  using bit_imp_le_length [of w n] by auto

lemma list4_cases: "length xs = 4 \<Longrightarrow> \<exists>a b c d. xs = [a, b, c, d]"
  by (auto simp: length_Suc_conv numeral_eq_Suc)

lemma u32_be_roundtrip_bytes: "length xs = 4 \<Longrightarrow> u32_to_be_bytes (u32_from_be_bytes xs) = xs"
proof -
  assume "length xs = 4"
  then obtain a b c d where "xs = [a, b, c, d]" using list4_cases by blast
  then show ?thesis
    by (auto simp: u32_to_be_bytes_def intro!: bit_word_eqI simp: bit_simps)
qed

end
