(* ===== verification/Rust_Str.thy ===== *)
theory Rust_Str
  imports Prelude
begin

text \<open>
  The string operations of the Rust standard library that the program uses. A Rust \<open>str\<close>
  is the list of its UTF-8 bytes, here a \<open>string\<close> (a list of 8-bit characters), so
  \<open>length\<close> is \<open>str::len\<close> and slicing is by byte index.
\<close>

section \<open>ASCII case\<close>

definition is_ascii_upper :: "char \<Rightarrow> bool" where
  "is_ascii_upper c \<longleftrightarrow> 65 \<le> (of_char c :: nat) \<and> (of_char c :: nat) \<le> 90"

definition is_ascii_lower :: "char \<Rightarrow> bool" where
  "is_ascii_lower c \<longleftrightarrow> 97 \<le> (of_char c :: nat) \<and> (of_char c :: nat) \<le> 122"

definition is_ascii_digit :: "char \<Rightarrow> bool" where
  "is_ascii_digit c \<longleftrightarrow> 48 \<le> (of_char c :: nat) \<and> (of_char c :: nat) \<le> 57"

definition is_ascii_alphanumeric :: "char \<Rightarrow> bool" where
  "is_ascii_alphanumeric c \<longleftrightarrow> is_ascii_upper c \<or> is_ascii_lower c \<or> is_ascii_digit c"

definition char_upper :: "char \<Rightarrow> char" where
  "char_upper c = (if is_ascii_lower c then char_of ((of_char c :: nat) - 32) else c)"

definition char_lower :: "char \<Rightarrow> char" where
  "char_lower c = (if is_ascii_upper c then char_of ((of_char c :: nat) + 32) else c)"

definition to_ascii_uppercase :: "string \<Rightarrow> string" where
  "to_ascii_uppercase s = map char_upper s"

definition to_ascii_lowercase :: "string \<Rightarrow> string" where
  "to_ascii_lowercase s = map char_lower s"

definition eq_ignore_ascii_case :: "string \<Rightarrow> string \<Rightarrow> bool" where
  "eq_ignore_ascii_case s t \<longleftrightarrow> to_ascii_lowercase s = to_ascii_lowercase t"

lemma eq_ignore_ascii_case_refl [simp]: "eq_ignore_ascii_case s s"
  by (simp add: eq_ignore_ascii_case_def)

lemma eq_ignore_ascii_case_sym: "eq_ignore_ascii_case s t \<Longrightarrow> eq_ignore_ascii_case t s"
  by (simp add: eq_ignore_ascii_case_def)

lemma eq_ignore_ascii_case_trans [trans]:
  "eq_ignore_ascii_case s t \<Longrightarrow> eq_ignore_ascii_case t u \<Longrightarrow> eq_ignore_ascii_case s u"
  by (simp add: eq_ignore_ascii_case_def)

lemma of_char_lt [simp]: "(of_char c :: nat) < 256"
  by simp

lemma char_lower_upper [simp]: "char_lower (char_upper c) = char_lower c"
  by (auto simp: char_lower_def char_upper_def is_ascii_upper_def is_ascii_lower_def)

lemma char_upper_upper [simp]: "char_upper (char_upper c) = char_upper c"
  by (auto simp: char_upper_def is_ascii_lower_def)

lemma uppercase_eq_ignore_case [simp]: "eq_ignore_ascii_case (to_ascii_uppercase s) s"
  by (simp add: eq_ignore_ascii_case_def to_ascii_lowercase_def to_ascii_uppercase_def)

lemma length_ascii_case [simp]:
  "length (to_ascii_uppercase s) = length s"
  "length (to_ascii_lowercase s) = length s"
  by (simp_all add: to_ascii_uppercase_def to_ascii_lowercase_def)

section \<open>Prefixes, splitting, trimming\<close>

definition starts_with :: "'a list \<Rightarrow> 'a list \<Rightarrow> bool" where
  "starts_with s p \<longleftrightarrow> take (length p) s = p"

definition ends_with :: "'a list \<Rightarrow> 'a list \<Rightarrow> bool" where
  "ends_with s p \<longleftrightarrow> length p \<le> length s \<and> drop (length s - length p) s = p"

definition strip_prefix :: "string \<Rightarrow> string \<Rightarrow> string option" where
  "strip_prefix s p = (if starts_with s p then Some (drop (length p) s) else None)"

lemma starts_with_append [simp]: "starts_with (p @ s) p"
  by (simp add: starts_with_def)

lemma starts_withE: "starts_with s p \<Longrightarrow> (\<And>t. s = p @ t \<Longrightarrow> P) \<Longrightarrow> P"
  unfolding starts_with_def by (metis append_take_drop_id)

lemma strip_prefix_append [simp]: "strip_prefix (p @ s) p = Some s"
  by (simp add: strip_prefix_def)

lemma strip_prefix_Some: "strip_prefix s p = Some t \<longleftrightarrow> s = p @ t"
  by (auto simp: strip_prefix_def elim: starts_withE)

text \<open>\<open>str::split(c)\<close>: one piece more than there are separators.\<close>

fun split_on :: "char \<Rightarrow> string \<Rightarrow> string list" where
  "split_on c [] = [[]]"
| "split_on c (x # xs) =
     (if x = c then [] # split_on c xs
      else case split_on c xs of [] \<Rightarrow> [[x]] | p # ps \<Rightarrow> (x # p) # ps)"

text \<open>\<open>str::find(c)\<close>, \<open>split_once\<close> and \<open>rsplit_once\<close>.\<close>

fun find_char :: "char \<Rightarrow> string \<Rightarrow> nat option" where
  "find_char c [] = None"
| "find_char c (x # xs) = (if x = c then Some 0 else map_option Suc (find_char c xs))"

definition split_once :: "char \<Rightarrow> string \<Rightarrow> (string \<times> string) option" where
  "split_once c s = map_option (\<lambda>i. (take i s, drop (Suc i) s)) (find_char c s)"

definition rsplit_once :: "char \<Rightarrow> string \<Rightarrow> (string \<times> string) option" where
  "rsplit_once c s = map_option (\<lambda>(a, b). (rev b, rev a)) (split_once c (rev s))"

lemma find_char_None_iff: "find_char c s = None \<longleftrightarrow> c \<notin> set s"
  by (induction s) auto

lemma find_char_append [simp]: "c \<notin> set s \<Longrightarrow> find_char c (s @ c # t) = Some (length s)"
  by (induction s) auto

lemma find_char_Some:
  "find_char c s = Some i \<Longrightarrow> i < length s \<and> s ! i = c \<and> c \<notin> set (take i s)"
  by (induction s arbitrary: i) (auto split: if_splits)

lemma split_once_append [simp]: "c \<notin> set s \<Longrightarrow> split_once c (s @ c # t) = Some (s, t)"
  by (simp add: split_once_def)

lemma split_once_None_iff: "split_once c s = None \<longleftrightarrow> c \<notin> set s"
  by (simp add: split_once_def find_char_None_iff)

lemma split_once_Some: "split_once c s = Some (a, b) \<longleftrightarrow> s = a @ c # b \<and> c \<notin> set a"
proof
  assume "split_once c s = Some (a, b)"
  then obtain i where i: "find_char c s = Some i" "a = take i s" "b = drop (Suc i) s"
    by (auto simp: split_once_def)
  from find_char_Some [OF i(1)] i(2,3) show "s = a @ c # b \<and> c \<notin> set a"
    using id_take_nth_drop [of i s] by simp
qed auto

lemma rsplit_once_append [simp]: "c \<notin> set t \<Longrightarrow> rsplit_once c (s @ c # t) = Some (s, t)"
  by (simp add: rsplit_once_def)

lemma rsplit_once_Some: "rsplit_once c s = Some (a, b) \<longleftrightarrow> s = a @ c # b \<and> c \<notin> set b"
proof
  assume "rsplit_once c s = Some (a, b)"
  then have "split_once c (rev s) = Some (rev b, rev a)" by (auto simp: rsplit_once_def)
  then have "rev s = rev b @ c # rev a \<and> c \<notin> set b" by (simp add: split_once_Some)
  then show "s = a @ c # b \<and> c \<notin> set b" by (metis append.assoc append_Cons append_Nil rev.simps(2) rev_append rev_rev_ident)
qed simp

lemma rsplit_once_None_iff: "rsplit_once c s = None \<longleftrightarrow> c \<notin> set s"
  by (simp add: rsplit_once_def split_once_None_iff)

lemma split_on_nonempty [simp]: "split_on c s \<noteq> []"
  by (induction s) (auto split: list.splits)

lemma split_on_no_sep: "c \<notin> set s \<Longrightarrow> split_on c s = [s]"
  by (induction s) auto

lemma split_on_append_sep: "c \<notin> set s \<Longrightarrow> split_on c (s @ c # t) = s # split_on c t"
  by (induction s) auto

lemma split_on_pieces: "p \<in> set (split_on c s) \<Longrightarrow> c \<notin> set p"
  by (induction s arbitrary: p) (fastforce split: if_splits list.splits)+

lemma hd_split_on: "hd (split_on c s) = takeWhile (\<lambda>x. x \<noteq> c) s"
  by (induction s) (auto split: list.splits)

text \<open>
  The encodings of the characters with the Unicode property \<open>White_Space\<close>, which is what
  \<open>str::trim\<close> and \<open>split_whitespace\<close> test.
\<close>

definition whitespace :: "string list" where
  "whitespace =
     map (\<lambda>n. [char_of (n::nat)]) [9, 10, 11, 12, 13, 32] @
     map (map (char_of :: nat \<Rightarrow> char))
       ([[0xC2, 0x85], [0xC2, 0xA0], [0xE1, 0x9A, 0x80], [0xE2, 0x80, 0xA8], [0xE2, 0x80, 0xA9],
         [0xE2, 0x80, 0xAF], [0xE2, 0x81, 0x9F], [0xE3, 0x80, 0x80]] @
        map (\<lambda>n. [0xE2, 0x80, n]) [0x80 ..< 0x8B])"

definition leading_ws :: "string \<Rightarrow> nat" where
  "leading_ws s = (case find (\<lambda>w. starts_with s w) whitespace of None \<Rightarrow> 0 | Some w \<Rightarrow> length w)"

definition trailing_ws :: "string \<Rightarrow> nat" where
  "trailing_ws s = (case find (\<lambda>w. ends_with s w) whitespace of None \<Rightarrow> 0 | Some w \<Rightarrow> length w)"

lemma whitespace_nonempty: "w \<in> set whitespace \<Longrightarrow> w \<noteq> []"
  by (auto simp: whitespace_def)

lemma leading_ws_le: "leading_ws s \<le> length s"
  by (auto simp: leading_ws_def starts_with_def find_Some_iff split: option.splits)
    (metis length_take min.cobounded1)

lemma trailing_ws_le: "trailing_ws s \<le> length s"
  by (auto simp: trailing_ws_def ends_with_def find_Some_iff split: option.splits)

function trim_start :: "string \<Rightarrow> string" where
  "trim_start s = (if leading_ws s = 0 then s else trim_start (drop (leading_ws s) s))"
  by pat_completeness auto
termination
proof (relation "measure length")
  fix s assume "leading_ws s \<noteq> 0"
  then show "(drop (leading_ws s) s, s) \<in> measure length"
    using leading_ws_le [of s] by (cases s) auto
qed simp

function trim_end :: "string \<Rightarrow> string" where
  "trim_end s = (if trailing_ws s = 0 then s else trim_end (take (length s - trailing_ws s) s))"
  by pat_completeness auto
termination
proof (relation "measure length")
  fix s assume "trailing_ws s \<noteq> 0"
  then show "(take (length s - trailing_ws s) s, s) \<in> measure length"
    using trailing_ws_le [of s] by (cases s) auto
qed simp

declare trim_start.simps [simp del] trim_end.simps [simp del]

definition trim :: "string \<Rightarrow> string" where
  "trim s = trim_end (trim_start s)"

text \<open>
  \<open>split_whitespace\<close>: the non-empty pieces between runs of white space. The first argument
  holds the current piece in reverse.
\<close>

function split_ws_raw :: "string \<Rightarrow> string \<Rightarrow> string list" where
  "split_ws_raw acc s =
     (if s = [] then [rev acc]
      else if leading_ws s = 0 then split_ws_raw (hd s # acc) (tl s)
      else rev acc # split_ws_raw [] (drop (leading_ws s) s))"
  by pat_completeness auto
termination
  by (relation "measure (length \<circ> snd)") auto

declare split_ws_raw.simps [simp del]

definition split_whitespace :: "string \<Rightarrow> string list" where
  "split_whitespace s = filter (\<lambda>p. p \<noteq> []) (split_ws_raw [] s)"

definition trim_start_matches :: "(char \<Rightarrow> bool) \<Rightarrow> string \<Rightarrow> string" where
  "trim_start_matches p s = dropWhile p s"

definition trim_matches :: "(char \<Rightarrow> bool) \<Rightarrow> string \<Rightarrow> string" where
  "trim_matches p s = rev (dropWhile p (rev (dropWhile p s)))"

lemma trim_id: "leading_ws s = 0 \<Longrightarrow> trailing_ws s = 0 \<Longrightarrow> trim s = s"
  by (simp add: trim_def trim_start.simps [of s] trim_end.simps [of s])

text \<open>A printable ASCII character other than the space neither starts nor ends white space.\<close>

definition graphic :: "char \<Rightarrow> bool" where
  "graphic c \<longleftrightarrow> 33 \<le> (of_char c :: nat) \<and> (of_char c :: nat) \<le> 126"

lemma whitespace_not_graphic: "w \<in> set whitespace \<Longrightarrow> \<not> graphic (hd w) \<and> \<not> graphic (last w)"
  by (auto simp: whitespace_def graphic_def)

lemma leading_ws_graphic [simp]: "graphic c \<Longrightarrow> leading_ws (c # s) = 0"
  using whitespace_not_graphic whitespace_nonempty
  by (fastforce simp: leading_ws_def starts_with_def find_Some_iff neq_Nil_conv in_set_conv_nth split: option.splits)

lemma leading_ws_Nil [simp]: "leading_ws [] = 0"
  using leading_ws_le [of "[]"] by simp

lemma trailing_ws_graphic [simp]: "graphic c \<Longrightarrow> trailing_ws (s @ [c]) = 0"
proof (rule ccontr)
  assume c: "graphic c" and "trailing_ws (s @ [c]) \<noteq> 0"
  then obtain w where w: "w \<in> set whitespace" "ends_with (s @ [c]) w"
    by (force simp: trailing_ws_def find_Some_iff split: option.splits)
  then have "last w = c"
    using whitespace_nonempty [OF w(1)] by (metis ends_with_def last_drop last_snoc diff_less
        length_greater_0_conv append_is_Nil_conv list.distinct(1))
  then show False using whitespace_not_graphic [OF w(1)] c by simp
qed

lemma leading_ws_space [simp]: "leading_ws (CHR '' '' # s) = 1"
  by (simp add: leading_ws_def whitespace_def starts_with_def char_of_def bit_Suc_0_iff)

lemma trim_graphic: "s \<noteq> [] \<Longrightarrow> graphic (hd s) \<Longrightarrow> graphic (last s) \<Longrightarrow> trim s = s"
  by (metis append_butlast_last_id hd_Cons_tl leading_ws_graphic trailing_ws_graphic trim_id)

lemma split_ws_raw_graphic:
  "list_all graphic s \<Longrightarrow> split_ws_raw acc s = [rev acc @ s]"
proof (induction s arbitrary: acc)
  case (Cons c s)
  then show ?case by (subst split_ws_raw.simps) simp
qed (simp add: split_ws_raw.simps)

lemma split_ws_raw_space:
  "list_all graphic s \<Longrightarrow> split_ws_raw acc (s @ CHR '' '' # t) = (rev acc @ s) # split_ws_raw [] t"
proof (induction s arbitrary: acc)
  case (Cons c s)
  then show ?case by (subst split_ws_raw.simps) simp
qed (subst split_ws_raw.simps, simp)

lemma split_whitespace_two:
  assumes "list_all graphic s" "list_all graphic t" "s \<noteq> []" "t \<noteq> []"
  shows "split_whitespace (s @ CHR '' '' # t) = [s, t]"
  using assms by (simp add: split_whitespace_def split_ws_raw_space split_ws_raw_graphic)

lemma graphic_digit: "is_ascii_digit c \<Longrightarrow> graphic c"
  by (auto simp: is_ascii_digit_def graphic_def)

lemma trim_matches_none: "\<forall>c \<in> set s. \<not> p c \<Longrightarrow> trim_matches p s = s"
proof -
  assume a: "\<forall>c \<in> set s. \<not> p c"
  have id: "dropWhile p xs = xs" if "\<forall>c \<in> set xs. \<not> p c" for xs
    using that by (metis dropWhile_eq_self_iff hd_in_set)
  have "dropWhile p s = s" "dropWhile p (rev s) = rev s"
    using a by (intro id; simp)+
  then show ?thesis by (simp add: trim_matches_def)
qed

section \<open>Numbers\<close>

text \<open>
  \<open>str::parse\<close> at an unsigned type: an optional plus sign, then at least one decimal digit
  and nothing else, and a value that fits.
\<close>

fun digits_value :: "nat \<Rightarrow> string \<Rightarrow> nat option" where
  "digits_value n [] = Some n"
| "digits_value n (c # cs) =
     (if is_ascii_digit c then digits_value (10 * n + (of_char c - 48)) cs else None)"

definition parse_unsigned :: "nat \<Rightarrow> string \<Rightarrow> nat option" where
  "parse_unsigned mx s =
     (let ds = (case s of [] \<Rightarrow> [] | c # cs \<Rightarrow> if c = CHR ''+'' then cs else s) in
      if ds = [] then None
      else case digits_value 0 ds of None \<Rightarrow> None | Some n \<Rightarrow> if n \<le> mx then Some n else None)"

definition parse_u16 :: "string \<Rightarrow> u16 option" where
  "parse_u16 s = map_option of_nat (parse_unsigned (2 ^ 16 - 1) s)"

definition parse_u32 :: "string \<Rightarrow> u32 option" where
  "parse_u32 s = map_option of_nat (parse_unsigned (2 ^ 32 - 1) s)"

text \<open>\<open>ToString\<close> of an unsigned number.\<close>

fun show_nat :: "nat \<Rightarrow> string" where
  "show_nat n = (if n < 10 then [char_of (48 + n)] else show_nat (n div 10) @ [char_of (48 + n mod 10)])"

declare show_nat.simps [simp del]

lemma digit_char [simp]: "d < 10 \<Longrightarrow> is_ascii_digit (char_of (48 + d :: nat))"
  by (simp add: is_ascii_digit_def)

lemma digits_value_append:
  "digits_value n (xs @ ys) = Option.bind (digits_value n xs) (\<lambda>m. digits_value m ys)"
  by (induction xs arbitrary: n) auto

lemma show_nat_digits: "c \<in> set (show_nat n) \<Longrightarrow> is_ascii_digit c"
  by (induction n rule: show_nat.induct) (subst (asm) show_nat.simps, auto split: if_splits)

lemma show_nat_nonempty [simp]: "show_nat n \<noteq> []"
  by (subst show_nat.simps) simp

lemma digits_value_show: "digits_value 0 (show_nat n) = Some n"
proof (induction n rule: show_nat.induct)
  case (1 n)
  show ?case
  proof (cases "n < 10")
    case True
    then show ?thesis by (subst show_nat.simps) simp
  next
    case False
    then have "digits_value 0 (show_nat (n div 10)) = Some (n div 10)" by (rule "1.IH")
    with False show ?thesis by (subst show_nat.simps) (simp add: digits_value_append)
  qed
qed

lemma parse_unsigned_show: "n \<le> mx \<Longrightarrow> parse_unsigned mx (show_nat n) = Some n"
proof -
  assume n: "n \<le> mx"
  obtain c cs where s: "show_nat n = c # cs"
    using show_nat_nonempty by (meson list.exhaust)
  then have "is_ascii_digit c" using show_nat_digits [of c n] by simp
  then have "c \<noteq> CHR ''+''" by (auto simp: is_ascii_digit_def)
  then show ?thesis using n digits_value_show [of n] by (simp add: parse_unsigned_def s)
qed

lemma parse_u16_show [simp]: "parse_u16 (show_nat (unat (w :: u16))) = Some w"
proof -
  have "unat w \<le> 2 ^ 16 - 1" using unsigned_less [of w, where 'a = nat] by simp
  then show ?thesis by (simp add: parse_u16_def parse_unsigned_show)
qed

lemma parse_u32_show [simp]: "parse_u32 (show_nat (unat (w :: u32))) = Some w"
proof -
  have "unat w \<le> 2 ^ 32 - 1" using unsigned_less [of w, where 'a = nat] by simp
  then show ?thesis by (simp add: parse_u32_def parse_unsigned_show)
qed

lemma show_nat_graphic: "list_all graphic (show_nat n)"
  by (auto simp: list_all_iff graphic_digit dest: show_nat_digits)

end
