(* ===== verification/Ovpn_Config.thy ===== *)
theory Ovpn_Config
  imports Utf8
begin

text \<open>
  Algorithms, errors and connection profiles of the OpenVPN client
  (\<open>src/openvpn/config.rs\<close>, \<open>src/openvpn/error.rs\<close>), and the length-prefixed framing of
  the TCP transport (\<open>src/openvpn/framing.rs\<close>).
\<close>

datatype ovpn_error =
  EAccount string | ETls string | EControl string | EData string | ETimeout | EAuth |
  ETransport string | EIo string

section \<open>Algorithms\<close>

datatype ovpn_protocol = Udp | Tcp

datatype auth = Sha1 | Sha256 | Sha512

definition auth_parse :: "string \<Rightarrow> auth option" where
  "auth_parse name =
     (let s = to_ascii_uppercase (trim name) in
      if s = ''SHA1'' then Some Sha1
      else if s = ''SHA256'' then Some Sha256
      else if s = ''SHA512'' then Some Sha512
      else None)"

fun auth_size :: "auth \<Rightarrow> nat" where
  "auth_size Sha1 = 20"
| "auth_size Sha256 = 32"
| "auth_size Sha512 = 64"

fun auth_as_str :: "auth \<Rightarrow> string" where
  "auth_as_str Sha1 = ''SHA1''"
| "auth_as_str Sha256 = ''SHA256''"
| "auth_as_str Sha512 = ''SHA512''"

datatype cipher = Aes256Gcm | Aes128Gcm | Aes256Cbc | Aes128Cbc

definition cipher_parse :: "string \<Rightarrow> cipher option" where
  "cipher_parse name =
     (let s = to_ascii_uppercase (trim name) in
      if s = ''AES-256-GCM'' then Some Aes256Gcm
      else if s = ''AES-128-GCM'' then Some Aes128Gcm
      else if s = ''AES-256-CBC'' then Some Aes256Cbc
      else if s = ''AES-128-CBC'' then Some Aes128Cbc
      else None)"

definition is_aead :: "cipher \<Rightarrow> bool" where
  "is_aead c \<longleftrightarrow> c = Aes256Gcm \<or> c = Aes128Gcm"

fun key_len :: "cipher \<Rightarrow> nat" where
  "key_len Aes256Gcm = 32"
| "key_len Aes256Cbc = 32"
| "key_len Aes128Gcm = 16"
| "key_len Aes128Cbc = 16"

definition iv_len :: "cipher \<Rightarrow> nat" where
  "iv_len c = (if is_aead c then 12 else 16)"

fun cipher_fmt :: "cipher \<Rightarrow> string" where
  "cipher_fmt Aes256Gcm = ''AES-256-GCM''"
| "cipher_fmt Aes128Gcm = ''AES-128-GCM''"
| "cipher_fmt Aes256Cbc = ''AES-256-CBC''"
| "cipher_fmt Aes128Cbc = ''AES-128-CBC''"

lemma is_aead_simps [simp]:
  "is_aead Aes256Gcm" "is_aead Aes128Gcm" "\<not> is_aead Aes256Cbc" "\<not> is_aead Aes128Cbc"
  by (simp_all add: is_aead_def)

section \<open>Profiles\<close>

record server =
  srv_host :: string
  srv_port :: u16
  srv_protocol :: ovpn_protocol

record credentials =
  cred_ca :: string
  cred_cert :: string
  cred_key :: string

record profile =
  prof_servers :: "server list"
  prof_cipher :: cipher
  prof_auth :: auth
  prof_credentials :: credentials

section \<open>Framing\<close>

definition MAX_PACKET :: nat where "MAX_PACKET = 65535"

text \<open>
  \<open>read_packet\<close> on the bytes the peer has sent before it closed or stalled: the packet and
  the bytes left, or the error. \<open>read_exact\<close> fails with an end-of-file error when too few
  bytes come.
\<close>

definition read_exact :: "nat \<Rightarrow> bytes \<Rightarrow> ovpn_error + bytes \<times> bytes" where
  "read_exact n s =
     (if n \<le> length s then Inr (take n s, drop n s) else Inl (EIo ''failed to fill whole buffer''))"

definition read_packet :: "bytes \<Rightarrow> ovpn_error + bytes \<times> bytes" where
  "read_packet s =
     (case read_exact 2 s of
        Inl e \<Rightarrow> Inl e
      | Inr (len, s) \<Rightarrow>
          let size = unat (u16_from_be_bytes len) in
          if size = 0 then Inl (ETransport ''empty frame'')
          else read_exact size s)"

text \<open>The bytes that \<open>write_packet\<close> puts on the stream.\<close>

definition write_packet :: "bytes \<Rightarrow> ovpn_error + bytes" where
  "write_packet payload =
     (if MAX_PACKET < length payload then Inl (ETransport ''packet too large'')
      else Inr (u16_to_be_bytes (of_nat (length payload)) @ payload))"

text \<open>Writing a sequence of packets, and reading until the stream is empty or fails.\<close>

fun write_packets :: "bytes list \<Rightarrow> ovpn_error + bytes" where
  "write_packets [] = Inr []"
| "write_packets (p # ps) =
     (case write_packet p of
        Inl e \<Rightarrow> Inl e
      | Inr b \<Rightarrow> (case write_packets ps of Inl e \<Rightarrow> Inl e | Inr bs \<Rightarrow> Inr (b @ bs)))"

fun read_packets :: "nat \<Rightarrow> bytes \<Rightarrow> bytes list \<times> bytes" where
  "read_packets 0 s = ([], s)"
| "read_packets (Suc k) s =
     (case read_packet s of
        Inl e \<Rightarrow> ([], s)
      | Inr (p, rest) \<Rightarrow> (let (ps, s') = read_packets k rest in (p # ps, s')))"

lemma read_write_packet:
  assumes "write_packet p = Inr b" and "p \<noteq> []"
  shows "read_packet (b @ s) = Inr (p, s)"
proof -
  have len: "length p \<le> 65535" and b: "b = u16_to_be_bytes (of_nat (length p)) @ p"
    using assms(1) by (auto simp: write_packet_def MAX_PACKET_def split: if_splits)
  have "unat (of_nat (length p) :: u16) = length p"
    using len by (simp add: unat_of_nat)
  then show ?thesis
    using assms(2) by (simp add: b read_packet_def read_exact_def)
qed

text \<open>
  The TCP framing is lossless and self-delimiting: any sequence of non-empty packets
  that the writer accepts is read back as the same sequence, whatever follows on the stream.
\<close>

theorem framing_roundtrip:
  assumes "write_packets ps = Inr b" and "[] \<notin> set ps"
  shows "read_packets (length ps) (b @ s) = (ps, s)"
  using assms
proof (induction ps arbitrary: b)
  case (Cons p ps)
  then obtain b1 b2 where b: "write_packet p = Inr b1" "write_packets ps = Inr b2" "b = b1 @ b2"
    by (auto split: sum.splits)
  have "read_packet (b1 @ (b2 @ s)) = Inr (p, b2 @ s)"
    using read_write_packet [OF b(1)] Cons.prems(2) by auto
  moreover have "read_packets (length ps) (b2 @ s) = (ps, s)"
    using Cons.IH [OF b(2)] Cons.prems(2) by simp
  ultimately show ?case by (simp add: b(3))
qed simp

theorem framing_roundtrip_witness:
  "read_packets 2 ([0, 1, 7, 0, 2, 8, 9] @ [0]) = ([[7], [8, 9]], [0])"
proof -
  have "write_packets [[7], [8, 9]] = Inr [0, 1, 7, 0, 2, 8, 9]"
    by (simp add: write_packet_def MAX_PACKET_def u16_to_be_bytes_def)
  from framing_roundtrip [OF this, of "[0]"] show ?thesis by (simp add: numeral_2_eq_2)
qed

section \<open>Reading under a timeout\<close>

text \<open>
  \<open>recv_packet\<close> and \<open>await_reset\<close> run \<open>read_packet\<close> inside \<open>tokio::time::timeout\<close>.
  \<open>read_exact\<close> takes bytes off the stream as they arrive into a buffer of the pending call,
  so when the timeout fires first the call is dropped together with the bytes it took.
  \<open>read_packet_within s\<close> is the outcome when exactly the bytes \<open>s\<close> arrive before the
  timeout, with the bytes still unread afterwards.
\<close>

definition read_packet_within :: "bytes \<Rightarrow> (ovpn_error + bytes) option \<times> bytes" where
  "read_packet_within s =
     (if length s < 2 then (None, [])
      else
        let size = unat (u16_from_be_bytes (take 2 s)); rest = drop 2 s in
        if size = 0 then (Some (Inl (ETransport ''empty frame'')), rest)
        else if length rest < size then (None, [])
        else (Some (Inr (take size rest)), drop size rest))"

lemma read_packet_within_whole:
  "write_packet p = Inr b \<Longrightarrow> p \<noteq> [] \<Longrightarrow> read_packet_within (b @ s) = (Some (Inr p), s)"
  using read_write_packet [of p b s]
  by (auto simp: read_packet_within_def read_packet_def read_exact_def Let_def split: if_splits)

text \<open>
  A frame that is only partly there when the timeout fires is lost: the bytes already
  read are dropped, so the next read starts in the middle of the frame instead of at its
  length prefix.
\<close>

theorem framing_timeout_drops_prefix:
  assumes "write_packet p = Inr b" and "p \<noteq> []" and "k < length b"
  shows "read_packet_within (take k b) = (None, [])"
proof -
  have len: "length p \<le> 65535" and b: "b = u16_to_be_bytes (of_nat (length p)) @ p"
    using assms(1) by (auto simp: write_packet_def MAX_PACKET_def split: if_splits)
  have u: "unat (of_nat (length p) :: u16) = length p" using len by (simp add: unat_of_nat)
  show ?thesis
  proof (cases "k < 2")
    case True
    then have "length (take k b) < 2" by simp
    then show ?thesis unfolding read_packet_within_def by (simp only: if_True)
  next
    case False
    then have "take 2 (take k b) = u16_to_be_bytes (of_nat (length p))" by (simp add: b min_def)
    then show ?thesis using False assms(2,3) u by (simp add: read_packet_within_def b Let_def)
  qed
qed

theorem framing_timeout_drops_prefix_witness:
  "read_packet_within (take 2 [0, 5, 0, 1, 9, 0, 1]) = (None, []) \<and>
   read_packet_within [0, 1, 9, 0, 1] = (Some (Inr [9]), [0, 1])"
proof -
  have "write_packet [0, 1, 9, 0, 1] = Inr [0, 5, 0, 1, 9, 0, 1]"
    by (simp add: write_packet_def MAX_PACKET_def u16_to_be_bytes_def)
  from framing_timeout_drops_prefix [OF this, of 2] show ?thesis
    by (simp add: read_packet_within_def)
qed

end
