(* ===== verification/Ovpn_Packet.thy ===== *)
theory Ovpn_Packet
  imports Ovpn_Config Utf8
begin

text \<open>
  The packet formats of the OpenVPN control channel (the free functions and \<open>Packet\<close> of
  \<open>src/openvpn/control.rs\<close>): control, acknowledgement, reset and data packets, and the
  length-prefixed strings and the reader of the key exchange. \<open>Packet::parse\<close> indexes its
  input, so it returns in \<open>exec\<close>: a slice out of range panics.
\<close>

section \<open>Constants\<close>

definition P_CONTROL_HARD_RESET_CLIENT_V2 :: u8 where [consts_defs]: "P_CONTROL_HARD_RESET_CLIENT_V2 = 7"
definition P_CONTROL_HARD_RESET_SERVER_V2 :: u8 where [consts_defs]: "P_CONTROL_HARD_RESET_SERVER_V2 = 8"
definition P_CONTROL_V1 :: u8 where [consts_defs]: "P_CONTROL_V1 = 4"
definition P_ACK_V1 :: u8 where [consts_defs]: "P_ACK_V1 = 5"
definition P_DATA_V1 :: u8 where [consts_defs]: "P_DATA_V1 = 6"
definition P_DATA_V2 :: u8 where [consts_defs]: "P_DATA_V2 = 9"
definition SID_SIZE :: nat where [consts_defs]: "SID_SIZE = 8"
definition MAX_ACKS :: nat where [consts_defs]: "MAX_ACKS = 4"
definition MAX_CONTROL_PAYLOAD :: nat where [consts_defs]: "MAX_CONTROL_PAYLOAD = 1184"
definition KEY_SOURCE_CLIENT_LEN :: nat where [consts_defs]: "KEY_SOURCE_CLIENT_LEN = 48 + 32 + 32"
definition KEY_SOURCE_SERVER_LEN :: nat where [consts_defs]: "KEY_SOURCE_SERVER_LEN = 32 + 32"

section \<open>Packets\<close>

type_synonym peer_id = u32

record packet =
  pk_opcode :: u8
  pk_session_id :: bytes
  pk_packet_id :: u32
  pk_header :: bytes
  pk_payload :: bytes

definition reset_packet :: "bytes \<Rightarrow> bytes" where
  "reset_packet session_id =
     push_bit 3 P_CONTROL_HARD_RESET_CLIENT_V2 # session_id @ [0] @ u32_to_be_bytes 0"

definition packet_parse :: "bytes \<Rightarrow> packet option exec" where
  "packet_parse raw =
     (if raw = [] then Done None
      else
        let byte = hd raw; opcode = drop_bit 3 byte in
        if opcode = P_DATA_V1 \<or> opcode = P_DATA_V2 then
          let header_len = (if opcode = P_DATA_V2 then 4 else 1) in
          if length raw < header_len + 4 then Done None
          else Done (Some \<lparr>pk_opcode = opcode, pk_session_id = [], pk_packet_id = 0,
                           pk_header = take (header_len + 4) raw,
                           pk_payload = drop (header_len + 4) raw\<rparr>)
        else if length raw < 1 + SID_SIZE + 1 then Done None
        else
          let session_id = take SID_SIZE (drop 1 raw);
              count = unat (raw ! (1 + SID_SIZE));
              offset = 1 + SID_SIZE + 1 in
          if length raw < offset + count * 4 then Done None
          else
            let offset = offset + count * 4;
                offset = (if 0 < count then offset + SID_SIZE else offset) in
            if opcode = P_ACK_V1 then
              exec_bind (slice_from raw offset) (\<lambda>payload.
                Done (Some \<lparr>pk_opcode = opcode, pk_session_id = session_id, pk_packet_id = 0,
                            pk_header = [], pk_payload = payload\<rparr>))
            else if length raw < offset + 4 then Done None
            else
              exec_bind (slice raw offset (offset + 4)) (\<lambda>b.
              exec_bind (slice_from raw (offset + 4)) (\<lambda>payload.
                Done (Some \<lparr>pk_opcode = opcode, pk_session_id = session_id,
                            pk_packet_id = u32_from_be_bytes b,
                            pk_header = [], pk_payload = payload\<rparr>))))"

definition data_header :: "cipher \<Rightarrow> u8 \<Rightarrow> peer_id \<Rightarrow> bytes" where
  "data_header cipher key_id peer_id =
     (if is_aead cipher
      then (push_bit 3 P_DATA_V2 OR (key_id AND 7)) # take 3 (drop 1 (u32_to_be_bytes peer_id))
      else [push_bit 3 P_DATA_V1 OR (key_id AND 7)])"

definition encode_acks :: "u32 list \<Rightarrow> bytes \<Rightarrow> bytes" where
  "encode_acks packet_ids remote_session_id =
     (let count = min (length packet_ids) MAX_ACKS in
      of_nat count # concat (map u32_to_be_bytes (take count packet_ids)) @
      (if 0 < count then remote_session_id else []))"

text \<open>
  The buffers \<open>send_control\<close>, \<open>retransmit_control\<close> and \<open>send_ack\<close> put together.
\<close>

definition control_packet :: "bytes \<Rightarrow> bytes \<Rightarrow> u32 \<Rightarrow> bytes \<Rightarrow> bytes" where
  "control_packet session_id acks packet_id payload =
     push_bit 3 P_CONTROL_V1 # session_id @ acks @ u32_to_be_bytes packet_id @ payload"

definition ack_packet :: "bytes \<Rightarrow> bytes \<Rightarrow> bytes" where
  "ack_packet session_id acks = push_bit 3 P_ACK_V1 # session_id @ acks"

section \<open>Strings and the reader\<close>

definition write_string :: "bytes \<Rightarrow> string \<Rightarrow> ovpn_error + bytes" where
  "write_string out value =
     (if 65535 < length value then Inl (EControl ''string too long'')
      else Inr (out @ u16_to_be_bytes (of_nat (length value)) @ as_bytes value))"

record reader =
  rd_data :: bytes
  rd_offset :: nat

definition reader_new :: "bytes \<Rightarrow> reader" where
  "reader_new data = \<lparr>rd_data = data, rd_offset = 0\<rparr>"

definition reader_u8 :: "reader \<Rightarrow> u8 \<times> reader" where
  "reader_u8 r =
     ((if rd_offset r < length (rd_data r) then rd_data r ! rd_offset r else 0),
      r\<lparr>rd_offset := rd_offset r + 1\<rparr>)"

definition reader_u32 :: "reader \<Rightarrow> u32 \<times> reader" where
  "reader_u32 r =
     (if length (rd_data r) < rd_offset r + 4 then (0, r)
      else (u32_from_be_bytes (take 4 (drop (rd_offset r) (rd_data r))),
            r\<lparr>rd_offset := rd_offset r + 4\<rparr>))"

definition reader_take :: "reader \<Rightarrow> nat \<Rightarrow> bytes option \<times> reader" where
  "reader_take r len =
     (if length (rd_data r) < rd_offset r + len then (None, r)
      else (Some (take len (drop (rd_offset r) (rd_data r))),
            r\<lparr>rd_offset := rd_offset r + len\<rparr>))"

section \<open>What the codec guarantees\<close>

lemma opcode_of_byte [simp]:
  "drop_bit 3 (push_bit 3 P_CONTROL_V1) = P_CONTROL_V1"
  "drop_bit 3 (push_bit 3 P_ACK_V1) = P_ACK_V1"
  "drop_bit 3 (push_bit 3 P_CONTROL_HARD_RESET_CLIENT_V2) = P_CONTROL_HARD_RESET_CLIENT_V2"
  "drop_bit 3 (push_bit 3 P_DATA_V1) = P_DATA_V1" "drop_bit 3 (push_bit 3 P_DATA_V2) = P_DATA_V2"
  by (simp_all add: consts_defs)

lemma drop3_and7 [simp]: "drop_bit 3 (k AND 7 :: u8) = 0"
proof (rule bit_word_eqI)
  fix n assume "n < LENGTH(8)"
  have "\<not> bit (7 :: u8) (3 + n)"
    using bit_mask_iff [of 3 "3 + n", where 'a = "8 word"] by (simp add: mask_eq_exp_minus_1)
  then show "bit (drop_bit 3 (k AND 7 :: u8)) n = bit (0 :: u8) n" by (simp add: bit_simps)
qed

lemma opcode_of_data_byte [simp]:
  "drop_bit 3 (push_bit 3 P_DATA_V2 OR (k AND 7)) = P_DATA_V2"
  "drop_bit 3 (push_bit 3 P_DATA_V1 OR (k AND 7)) = P_DATA_V1"
  by (simp_all add: drop_bit_or consts_defs)

lemma opcodes_distinct [simp]:
  "P_CONTROL_V1 \<noteq> P_DATA_V1" "P_CONTROL_V1 \<noteq> P_DATA_V2" "P_CONTROL_V1 \<noteq> P_ACK_V1"
  "P_ACK_V1 \<noteq> P_DATA_V1" "P_ACK_V1 \<noteq> P_DATA_V2" "P_DATA_V1 \<noteq> P_DATA_V2"
  "P_CONTROL_HARD_RESET_SERVER_V2 \<noteq> P_DATA_V1" "P_CONTROL_HARD_RESET_SERVER_V2 \<noteq> P_DATA_V2"
  "P_CONTROL_HARD_RESET_SERVER_V2 \<noteq> P_ACK_V1" "P_CONTROL_HARD_RESET_SERVER_V2 \<noteq> P_CONTROL_V1"
  by (simp_all add: consts_defs)

lemmas opcodes_distinct_sym [simp] = opcodes_distinct [symmetric]

lemma length_concat_u32 [simp]: "length (concat (map u32_to_be_bytes ids)) = 4 * length ids"
  by (induction ids) simp_all

text \<open>The number of bytes the acknowledgement array takes behind its count byte.\<close>

definition acks_len :: "nat \<Rightarrow> nat" where
  "acks_len n = n * 4 + (if 0 < n then SID_SIZE else 0)"

lemma packet_parse_reliable:
  assumes "length sid = SID_SIZE" "length acks = acks_len (unat c)"
    "drop_bit 3 b \<noteq> P_DATA_V1" "drop_bit 3 b \<noteq> P_DATA_V2"
  shows "packet_parse (b # sid @ [c] @ acks @ body) =
    (if drop_bit 3 b = P_ACK_V1
     then Done (Some \<lparr>pk_opcode = P_ACK_V1, pk_session_id = sid, pk_packet_id = 0,
                      pk_header = [], pk_payload = body\<rparr>)
     else if length body < 4 then Done None
     else Done (Some \<lparr>pk_opcode = drop_bit 3 b, pk_session_id = sid,
                      pk_packet_id = u32_from_be_bytes (take 4 body),
                      pk_header = [], pk_payload = drop 4 body\<rparr>))"
proof -
  define raw where "raw = b # sid @ [c] @ acks @ body"
  define off where "off = 1 + SID_SIZE + 1 + acks_len (unat c)"
  have len: "length raw = off + length body" by (simp add: raw_def off_def assms)
  have drp: "drop off raw = body"
    using assms by (simp add: raw_def off_def)
  then have drp4: "drop (off + 4) raw = drop 4 body" by (metis add.commute drop_drop)
  have cnt: "raw ! (1 + SID_SIZE) = c" "hd raw = b" "take SID_SIZE (drop 1 raw) = sid" "raw \<noteq> []"
    using assms(1) by (simp_all add: raw_def nth_append)
  have off': "(if 0 < unat c then 1 + SID_SIZE + 1 + unat c * 4 + SID_SIZE
      else 1 + SID_SIZE + 1 + unat c * 4) = off"
    by (simp add: off_def acks_len_def)
  have ge: "\<not> length raw < 1 + SID_SIZE + 1" "\<not> length raw < 1 + SID_SIZE + 1 + unat c * 4"
    using len by (simp_all add: off_def acks_len_def)
  have "packet_parse raw =
    (if drop_bit 3 b = P_ACK_V1
     then Done (Some \<lparr>pk_opcode = P_ACK_V1, pk_session_id = sid, pk_packet_id = 0,
                      pk_header = [], pk_payload = body\<rparr>)
     else if length body < 4 then Done None
     else Done (Some \<lparr>pk_opcode = drop_bit 3 b, pk_session_id = sid,
                      pk_packet_id = u32_from_be_bytes (take 4 body),
                      pk_header = [], pk_payload = drop 4 body\<rparr>))"
    unfolding packet_parse_def Let_def cnt off' using assms(3,4) ge cnt(4)
    by (simp add: len drp drp4)
  then show ?thesis by (simp add: raw_def)
qed

lemma unat_ack_count: "unat (of_nat (min n MAX_ACKS) :: u8) = min n MAX_ACKS"
proof -
  have "min n MAX_ACKS < 256" by (simp add: MAX_ACKS_def)
  then show ?thesis by (simp add: unat_of_nat)
qed

text \<open>An encoded acknowledgement array is a count byte and the array it announces.\<close>

lemma encode_acks_split:
  assumes "length remote = SID_SIZE"
  obtains c acks where "encode_acks ids remote = [c] @ acks" "length acks = acks_len (unat c)"
    "unat c = min (length ids) MAX_ACKS"
proof
  let ?n = "min (length ids) MAX_ACKS"
  show "encode_acks ids remote = [of_nat ?n] @
      (concat (map u32_to_be_bytes (take ?n ids)) @ (if 0 < ?n then remote else []))"
    by (simp add: encode_acks_def Let_def)
  show "length (concat (map u32_to_be_bytes (take ?n ids)) @ (if 0 < ?n then remote else [])) =
      acks_len (unat (of_nat ?n :: u8))"
    unfolding unat_ack_count using assms by (simp add: acks_len_def)
  show "unat (of_nat ?n :: u8) = ?n" by (rule unat_ack_count)
qed

text \<open>
  C31: a control packet as the client sends it, with any acknowledgements piggybacked, is
  parsed back to its session id, packet id and payload, and likewise a bare acknowledgement.
\<close>

theorem control_packet_roundtrip:
  assumes sid: "length sid = SID_SIZE" and remote: "length remote = SID_SIZE"
  shows "packet_parse (control_packet sid (encode_acks ids remote) packet_id payload) =
      Done (Some \<lparr>pk_opcode = P_CONTROL_V1, pk_session_id = sid, pk_packet_id = packet_id,
                  pk_header = [], pk_payload = payload\<rparr>) \<and>
    packet_parse (ack_packet sid (encode_acks ids remote)) =
      Done (Some \<lparr>pk_opcode = P_ACK_V1, pk_session_id = sid, pk_packet_id = 0,
                  pk_header = [], pk_payload = []\<rparr>)"
proof -
  obtain c acks where a: "encode_acks ids remote = [c] @ acks" "length acks = acks_len (unat c)"
    using encode_acks_split [OF remote] .
  show ?thesis
    using packet_parse_reliable [OF sid a(2), of "push_bit 3 P_CONTROL_V1" "u32_to_be_bytes packet_id @ payload"]
      packet_parse_reliable [OF sid a(2), of "push_bit 3 P_ACK_V1" "[]"]
    by (simp add: control_packet_def ack_packet_def a(1))
qed

theorem control_packet_roundtrip_witness:
  "packet_parse (control_packet (replicate 8 1) (encode_acks [7, 6] (replicate 8 2)) 9 [3, 4]) =
    Done (Some \<lparr>pk_opcode = P_CONTROL_V1, pk_session_id = replicate 8 1, pk_packet_id = 9,
                pk_header = [], pk_payload = [3, 4]\<rparr>)"
  using control_packet_roundtrip [of "replicate 8 1" "replicate 8 2" "[7, 6]" 9 "[3, 4]"]
  by (simp add: SID_SIZE_def)

lemma data_packet_parse:
  "\<exists>p. packet_parse (data_header ci key_id peer @ u32_to_be_bytes counter @ body) = Done (Some p) \<and>
     pk_header p = data_header ci key_id peer @ u32_to_be_bytes counter \<and> pk_payload p = body \<and>
     (pk_opcode p = P_DATA_V1 \<or> pk_opcode p = P_DATA_V2)"
  by (simp add: packet_parse_def data_header_def Let_def)

text \<open>
  A data packet is split behind its header and the four-byte counter, for both data
  opcodes and every key id: the header the receiver authenticates is the one the sender wrote.
\<close>

theorem data_packet_roundtrip:
  "packet_parse (data_header ci key_id peer @ u32_to_be_bytes counter @ body) =
     Done (Some \<lparr>pk_opcode = (if is_aead ci then P_DATA_V2 else P_DATA_V1), pk_session_id = [],
                 pk_packet_id = 0, pk_header = data_header ci key_id peer @ u32_to_be_bytes counter,
                 pk_payload = body\<rparr>)"
  by (simp add: packet_parse_def data_header_def Let_def)

text \<open>
  C34: \<open>Packet::parse\<close> panics exactly on an acknowledgement packet that announces at least
  one id, holds the announced ids and ends inside the remote session id behind them: every
  length but that one is checked before the input is indexed.
\<close>

theorem packet_parse_panics_iff:
  "packet_parse raw = Panicked \<longleftrightarrow>
     10 \<le> length raw \<and> drop_bit 3 (hd raw) = P_ACK_V1 \<and> 0 < unat (raw ! 9) \<and>
     10 + 4 * unat (raw ! 9) \<le> length raw \<and> length raw < 18 + 4 * unat (raw ! 9)"
proof (cases "raw = []")
  case False
  then show ?thesis
    by (auto simp: packet_parse_def Let_def SID_SIZE_def slice_from_def slice_def numeral_eq_Suc
        split: if_splits)
qed (simp add: packet_parse_def)

end
