(* ===== verification/Ovpn_Crypto.thy ===== *)
theory Ovpn_Crypto
  imports Ovpn_Packet
begin

text \<open>
  Key derivation and the data channel cipher (\<open>src/openvpn/crypto/keys.rs\<close> and \<open>aes.rs\<close>).
  The primitives come from other packages (\<open>hmac\<close>, \<open>btls\<close>, \<open>aes_gcm\<close>, \<open>cbc\<close>), so they are
  the fields of a record \<open>crypto\<close> that the operations take as an argument; \<open>crypto_laws\<close> is
  what their documentation promises.
\<close>

section \<open>Primitives\<close>

record crypto =
  cr_hmac_md5 :: "bytes \<Rightarrow> bytes \<Rightarrow> bytes"
  cr_hmac_sha1 :: "bytes \<Rightarrow> bytes \<Rightarrow> bytes"
  cr_hmac_init :: "auth \<Rightarrow> bytes \<Rightarrow> bool"
  cr_hmac :: "auth \<Rightarrow> bytes \<Rightarrow> bytes \<Rightarrow> bytes option"
  cr_gcm_key :: "nat \<Rightarrow> bytes \<Rightarrow> bool"
  cr_gcm_seal :: "nat \<Rightarrow> bytes \<Rightarrow> bytes \<Rightarrow> bytes \<Rightarrow> bytes \<Rightarrow> bytes option"
  cr_gcm_open :: "nat \<Rightarrow> bytes \<Rightarrow> bytes \<Rightarrow> bytes \<Rightarrow> bytes \<Rightarrow> bytes option"
  cr_cbc_key :: "nat \<Rightarrow> bytes \<Rightarrow> bytes \<Rightarrow> bool"
  cr_cbc_encrypt :: "nat \<Rightarrow> bytes \<Rightarrow> bytes \<Rightarrow> bytes \<Rightarrow> bytes"
  cr_cbc_decrypt :: "nat \<Rightarrow> bytes \<Rightarrow> bytes \<Rightarrow> bytes \<Rightarrow> bytes option"

text \<open>
  The keyed constructors accept exactly keys (and IVs) of the algorithm's size; HMAC has the
  digest's output size; sealing appends a 16-byte tag and opening undoes it with the same key,
  nonce and associated data; CBC with PKCS#7 padding fills at least one block and is undone
  by decryption.
\<close>

definition crypto_laws :: "crypto \<Rightarrow> bool" where
  "crypto_laws C \<longleftrightarrow>
     (\<forall>k d. length (cr_hmac_md5 C k d) = 16) \<and> (\<forall>k d. length (cr_hmac_sha1 C k d) = 20) \<and>
     (\<forall>a k. cr_hmac_init C a k) \<and>
     (\<forall>a k d. \<exists>t. cr_hmac C a k d = Some t \<and> length t = auth_size a) \<and>
     (\<forall>n k. cr_gcm_key C n k \<longleftrightarrow> length k = n) \<and>
     (\<forall>n k iv aad m c. cr_gcm_seal C n k iv aad m = Some c \<longrightarrow>
        length c = length m + 16 \<and> cr_gcm_open C n k iv aad c = Some m) \<and>
     (\<forall>n k iv. cr_cbc_key C n k iv \<longleftrightarrow> length k = n \<and> length iv = 16) \<and>
     (\<forall>n k iv m. 16 \<le> length (cr_cbc_encrypt C n k iv m)) \<and>
     (\<forall>n k iv m. cr_cbc_decrypt C n k iv (cr_cbc_encrypt C n k iv m) = Some m)"

section \<open>Key derivation\<close>

definition MASTER_LEN :: nat where [consts_defs]: "MASTER_LEN = 48"
definition KEY_LEN :: nat where [consts_defs]: "KEY_LEN = 64"
definition KEY2_LEN :: nat where [consts_defs]: "KEY2_LEN = 4 * KEY_LEN"

text \<open>The loop of \<open>p_hash\<close>. Not returning is \<open>None\<close>.\<close>

partial_function (option) p_hash_loop ::
  "(bytes \<Rightarrow> bytes \<Rightarrow> bytes) \<Rightarrow> bytes \<Rightarrow> bytes \<Rightarrow> nat \<Rightarrow> bytes \<Rightarrow> bytes \<Rightarrow> bytes option" where
  "p_hash_loop hmac secret seed len out a =
     (if length out < len
      then p_hash_loop hmac secret seed len (out @ hmac secret (a @ seed)) (hmac secret a)
      else Some out)"

definition p_hash :: "(bytes \<Rightarrow> bytes \<Rightarrow> bytes) \<Rightarrow> bytes \<Rightarrow> bytes \<Rightarrow> nat \<Rightarrow> bytes option" where
  "p_hash hmac secret seed len =
     map_option (take len) (p_hash_loop hmac secret seed len [] (hmac secret seed))"

definition div_ceil :: "nat \<Rightarrow> nat \<Rightarrow> nat" where
  "div_ceil n d = n div d + (if 0 < n mod d then 1 else 0)"

definition openvpn_prf :: "crypto \<Rightarrow> bytes \<Rightarrow> string \<Rightarrow> bytes list \<Rightarrow> nat \<Rightarrow> bytes option" where
  "openvpn_prf C secret label seed len =
     (let label_seed = as_bytes label @ concat seed;
          half = div_ceil (length secret) 2 in
      case p_hash (cr_hmac_md5 C) (take half secret) label_seed len of
        None \<Rightarrow> None
      | Some md5 \<Rightarrow>
          (case p_hash (cr_hmac_sha1 C) (drop (length secret - half) secret) label_seed len of
             None \<Rightarrow> None
           | Some sha1 \<Rightarrow> Some (map (\<lambda>(a, b). a XOR b) (zip md5 sha1))))"

record seed_data =
  sd_pre_master :: bytes
  sd_client_random1 :: bytes
  sd_server_random1 :: bytes
  sd_client_random2 :: bytes
  sd_server_random2 :: bytes
  sd_client_sid :: bytes
  sd_server_sid :: bytes

record key_material =
  km_encrypt :: bytes
  km_decrypt :: bytes
  km_mac_encrypt :: bytes
  km_mac_decrypt :: bytes

definition derive :: "crypto \<Rightarrow> seed_data \<Rightarrow> cipher \<Rightarrow> nat \<Rightarrow> key_material exec option" where
  "derive C seed cipher mac_len =
     (case openvpn_prf C (sd_pre_master seed) ''OpenVPN master secret''
             [sd_client_random1 seed, sd_server_random1 seed] MASTER_LEN of
        None \<Rightarrow> None
      | Some master \<Rightarrow>
          (case openvpn_prf C master ''OpenVPN key expansion''
                  [sd_client_random2 seed, sd_server_random2 seed, sd_client_sid seed, sd_server_sid seed]
                  KEY2_LEN of
             None \<Rightarrow> None
           | Some expanded \<Rightarrow> Some (
               exec_bind (slice expanded 0 (key_len cipher)) (\<lambda>encrypt.
               exec_bind (slice expanded KEY_LEN (KEY_LEN + mac_len)) (\<lambda>mac_encrypt.
               exec_bind (slice expanded (KEY_LEN + KEY_LEN) (KEY_LEN + KEY_LEN + key_len cipher)) (\<lambda>decrypt.
               exec_bind (slice expanded (KEY_LEN + KEY_LEN + KEY_LEN)
                            (KEY_LEN + KEY_LEN + KEY_LEN + mac_len)) (\<lambda>mac_decrypt.
                 Done \<lparr>km_encrypt = encrypt, km_decrypt = decrypt, km_mac_encrypt = mac_encrypt,
                       km_mac_decrypt = mac_decrypt\<rparr>)))))))"

section \<open>The data cipher\<close>

definition TAG_LEN :: nat where [consts_defs]: "TAG_LEN = 16"

text \<open>\<open>digest\<close> of \<open>keys.rs\<close> maps every \<open>Auth\<close> to its algorithm, so the digest is the \<open>auth\<close> field.\<close>

record data_cipher =
  dc_cipher :: cipher
  dc_auth :: auth
  dc_key :: bytes
  dc_mac :: bytes
  dc_implicit_iv :: bytes

definition data_cipher_new :: "cipher \<Rightarrow> auth \<Rightarrow> bytes \<Rightarrow> bytes \<Rightarrow> ovpn_error + data_cipher" where
  "data_cipher_new cipher auth key mac =
     (if length key < key_len cipher then Inl (EData ''short key'')
      else if \<not> is_aead cipher \<and> length mac < auth_size auth then Inl (EData ''short mac key'')
      else
        let implicit_iv =
          (if is_aead cipher
           then let n = iv_len cipher - 4; k = min n (length mac) in take k mac @ replicate (n - k) 0
           else []) in
        Inr \<lparr>dc_cipher = cipher, dc_auth = auth, dc_key = take (key_len cipher) key,
             dc_mac = mac, dc_implicit_iv = implicit_iv\<rparr>)"

definition aead_nonce :: "bytes \<Rightarrow> u32 \<Rightarrow> bytes" where
  "aead_nonce implicit_iv packet_id =
     (let k = min (length implicit_iv) 8 in
      u32_to_be_bytes packet_id @ take k implicit_iv @ replicate (8 - k) 0)"

text \<open>\<open>sealed.len() - tag_len\<close> panics when it would be negative.\<close>

definition tag_first :: "bytes \<Rightarrow> nat \<Rightarrow> bytes exec" where
  "tag_first sealed tag_len =
     (if length sealed < tag_len then Panicked
      else let split = length sealed - tag_len in Done (drop split sealed @ take split sealed))"

definition tag_last :: "bytes \<Rightarrow> bytes exec" where
  "tag_last body = (if length body < TAG_LEN then Panicked else Done (drop TAG_LEN body @ take TAG_LEN body))"

fun diff_bytes :: "u8 \<Rightarrow> (u8 \<times> u8) list \<Rightarrow> u8" where
  "diff_bytes diff [] = diff"
| "diff_bytes diff ((x, y) # ps) = diff_bytes (diff OR (x XOR y)) ps"

definition constant_time_eq :: "bytes \<Rightarrow> bytes \<Rightarrow> bool" where
  "constant_time_eq a b \<longleftrightarrow> (if length a \<noteq> length b then False else diff_bytes 0 (zip a b) = 0)"

text \<open>\<open>aead\<close> builds the keyed GCM instance: its size in bytes, or why there is none.\<close>

definition aead_kind :: "crypto \<Rightarrow> data_cipher \<Rightarrow> ovpn_error + nat" where
  "aead_kind C d =
     (case dc_cipher d of
        Aes256Gcm \<Rightarrow> if cr_gcm_key C 32 (dc_key d) then Inr 32 else Inl (EData ''gcm key'')
      | Aes128Gcm \<Rightarrow> if cr_gcm_key C 16 (dc_key d) then Inr 16 else Inl (EData ''gcm key'')
      | _ \<Rightarrow> Inl (EData ''not an aead cipher''))"

definition encrypt_aead :: "crypto \<Rightarrow> data_cipher \<Rightarrow> bytes \<Rightarrow> u32 \<Rightarrow> bytes \<Rightarrow> (ovpn_error + bytes) exec" where
  "encrypt_aead C d header packet_id plaintext =
     (case aead_kind C d of
        Inl e \<Rightarrow> Done (Inl e)
      | Inr n \<Rightarrow>
          (case cr_gcm_seal C n (dc_key d) (aead_nonce (dc_implicit_iv d) packet_id) header plaintext of
             None \<Rightarrow> Done (Inl (EData ''gcm encrypt''))
           | Some sealed \<Rightarrow> exec_bind (tag_first sealed TAG_LEN) (\<lambda>out. Done (Inr out))))"

definition decrypt_aead :: "crypto \<Rightarrow> data_cipher \<Rightarrow> bytes \<Rightarrow> bytes \<Rightarrow> (ovpn_error + u32 \<times> bytes) exec" where
  "decrypt_aead C d header body =
     (if length body < TAG_LEN then Done (Inl (EData ''short gcm packet''))
      else if length header < 4 then Panicked
      else
        let packet_id = u32_from_be_bytes (drop (length header - 4) header) in
        exec_bind (tag_last body) (\<lambda>sealed.
          case aead_kind C d of
            Inl e \<Rightarrow> Done (Inl e)
          | Inr n \<Rightarrow>
              (case cr_gcm_open C n (dc_key d) (aead_nonce (dc_implicit_iv d) packet_id) header sealed of
                 None \<Rightarrow> Done (Inl (EData ''gcm decrypt''))
               | Some plaintext \<Rightarrow> Done (Inr (packet_id, plaintext)))))"

text \<open>The key size of the CBC cipher: everything that is not AES-256-CBC takes the second arm.\<close>

definition cbc_size :: "data_cipher \<Rightarrow> nat" where
  "cbc_size d = (if dc_cipher d = Aes256Cbc then 32 else 16)"

text \<open>\<open>iv\<close> is what \<open>rand::fill\<close> put into the buffer.\<close>

definition encrypt_cbc :: "crypto \<Rightarrow> data_cipher \<Rightarrow> bytes \<Rightarrow> u32 \<Rightarrow> bytes \<Rightarrow> (ovpn_error + bytes) exec" where
  "encrypt_cbc C d iv packet_id plaintext =
     (let input = u32_to_be_bytes packet_id @ plaintext in
      if \<not> cr_cbc_key C (cbc_size d) (dc_key d) iv then Done (Inl (EData ''cbc key''))
      else
        let ciphertext = cr_cbc_encrypt C (cbc_size d) (dc_key d) iv input in
        exec_bind (slice (dc_mac d) 0 (auth_size (dc_auth d))) (\<lambda>mac_key.
          if \<not> cr_hmac_init C (dc_auth d) mac_key then Done (Inl (EData ''hmac init'')) else
          case cr_hmac C (dc_auth d) mac_key (iv @ ciphertext) of
            None \<Rightarrow> Done (Inl (EData ''hmac''))
          | Some tag \<Rightarrow> Done (Inr (tag @ iv @ ciphertext))))"

definition decrypt_cbc :: "crypto \<Rightarrow> data_cipher \<Rightarrow> bytes \<Rightarrow> (ovpn_error + u32 \<times> bytes) exec" where
  "decrypt_cbc C d body =
     (let mac_len = auth_size (dc_auth d) in
      if length body < mac_len + 16 + 16 then Done (Inl (EData ''short cbc packet''))
      else
        let tag = take mac_len body; rest = drop mac_len body;
            iv = take 16 rest; ciphertext = drop 16 rest in
        exec_bind (slice (dc_mac d) 0 mac_len) (\<lambda>mac_key.
          if \<not> cr_hmac_init C (dc_auth d) mac_key then Done (Inl (EData ''hmac init'')) else
          case cr_hmac C (dc_auth d) mac_key (iv @ ciphertext) of
            None \<Rightarrow> Done (Inl (EData ''hmac''))
          | Some expected \<Rightarrow>
              if \<not> constant_time_eq expected tag then Done (Inl (EData ''hmac mismatch''))
              else if \<not> cr_cbc_key C (cbc_size d) (dc_key d) iv then Done (Inl (EData ''cbc key''))
              else
                (case cr_cbc_decrypt C (cbc_size d) (dc_key d) iv ciphertext of
                   None \<Rightarrow> Done (Inl (EData ''cbc padding''))
                 | Some plaintext \<Rightarrow>
                     if length plaintext < 4 then Done (Inl (EData ''short cbc payload''))
                     else Done (Inr (u32_from_be_bytes (take 4 plaintext), drop 4 plaintext)))))"

definition encrypt :: "crypto \<Rightarrow> data_cipher \<Rightarrow> bytes \<Rightarrow> bytes \<Rightarrow> u32 \<Rightarrow> bytes \<Rightarrow> (ovpn_error + bytes) exec" where
  "encrypt C d iv nonce packet_id plaintext =
     (if is_aead (dc_cipher d) then encrypt_aead C d nonce packet_id plaintext
      else encrypt_cbc C d iv packet_id plaintext)"

definition decrypt :: "crypto \<Rightarrow> data_cipher \<Rightarrow> bytes \<Rightarrow> bytes \<Rightarrow> (ovpn_error + u32 \<times> bytes) exec" where
  "decrypt C d header body =
     (if is_aead (dc_cipher d) then decrypt_aead C d header body else decrypt_cbc C d body)"

section \<open>The comparison of tags\<close>

lemma xor_zero_iff [simp]: "x XOR y = 0 \<longleftrightarrow> x = (y :: 'a :: len word)"
  by (auto simp: bit_eq_iff bit_simps)

lemma diff_bytes_zero: "diff_bytes d ps = 0 \<longleftrightarrow> d = 0 \<and> (\<forall>(x, y) \<in> set ps. x = y)"
  by (induction d ps rule: diff_bytes.induct) (auto simp: or_eq_0_iff)

lemma constant_time_eq_iff [simp]: "constant_time_eq a b \<longleftrightarrow> a = b"
proof (cases "length a = length b")
  case True
  then show ?thesis
    by (induction a b rule: list_induct2) (auto simp: constant_time_eq_def diff_bytes_zero)
qed (auto simp: constant_time_eq_def)

section \<open>Nonces and tags\<close>

lemma aead_nonce_inject [simp]: "aead_nonce iv a = aead_nonce iv b \<longleftrightarrow> a = b"
  by (auto simp: aead_nonce_def Let_def)

lemma length_aead_nonce: "length (aead_nonce iv n) = 12"
  by (simp add: aead_nonce_def Let_def)

lemma tag_first_last:
  assumes "16 \<le> length s"
  obtains t where "tag_first s TAG_LEN = Done t" "length t = length s" "tag_last t = Done s"
  using assms by (auto simp: tag_first_def tag_last_def Let_def TAG_LEN_def)

section \<open>Key derivation returns keys of the right size\<close>

lemma p_hash_loop_returns:
  assumes "\<And>k d. 0 < length (hmac k d)"
  shows "\<exists>r. p_hash_loop hmac secret seed len out a = Some r \<and> len \<le> length r"
proof (induction "len - length out" arbitrary: out a rule: less_induct)
  case less
  show ?case
  proof (cases "length out < len")
    case True
    have "len - length (out @ hmac secret (a @ seed)) < len - length out"
      unfolding length_append using assms [of secret "a @ seed"] True by linarith
    from less.hyps [OF this, of "hmac secret a"] True show ?thesis
      by (subst p_hash_loop.simps) simp
  next
    case False
    then show ?thesis by (subst p_hash_loop.simps) simp
  qed
qed

lemma p_hash_returns:
  assumes "\<And>k d. 0 < length (hmac k d)"
  shows "\<exists>r. p_hash hmac secret seed len = Some r \<and> length r = len"
  using p_hash_loop_returns [of hmac secret seed len "[]" "hmac secret seed"] assms
  by (auto simp: p_hash_def)

lemma prf_returns:
  assumes "crypto_laws C"
  shows "\<exists>r. openvpn_prf C secret label seed len = Some r \<and> length r = len"
proof -
  have pos: "0 < length (cr_hmac_md5 C k d)" "0 < length (cr_hmac_sha1 C k d)" for k d
    using assms by (auto simp: crypto_laws_def simp flip: length_greater_0_conv)
  let ?s = "as_bytes label @ concat seed" and ?h = "div_ceil (length secret) 2"
  from p_hash_returns [of "cr_hmac_md5 C" "take ?h secret" ?s len, OF pos(1)]
    p_hash_returns [of "cr_hmac_sha1 C" "drop (length secret - ?h) secret" ?s len, OF pos(2)]
  show ?thesis by (auto simp: openvpn_prf_def Let_def)
qed

lemma key_len_le: "key_len c \<le> 32"
  by (cases c) simp_all

text \<open>
  C15: key derivation terminates without a panic for every cipher and digest, gives keys of
  the cipher's and MAC keys of the digest's size, and takes the four keys from four disjoint
  64-byte slots of one expansion.
\<close>

theorem derive_keys:
  assumes "crypto_laws C" and "mac_len \<le> 64"
  shows "\<exists>km e1 e2 e3 e4. derive C seed ci mac_len = Some (Done km) \<and>
    length e1 = 64 \<and> length e2 = 64 \<and> length e3 = 64 \<and> length e4 = 64 \<and>
    (\<exists>master. openvpn_prf C (sd_pre_master seed) ''OpenVPN master secret''
       [sd_client_random1 seed, sd_server_random1 seed] 48 = Some master \<and>
     openvpn_prf C master ''OpenVPN key expansion''
       [sd_client_random2 seed, sd_server_random2 seed, sd_client_sid seed, sd_server_sid seed] 256 =
       Some (e1 @ e2 @ e3 @ e4)) \<and>
    km_encrypt km = take (key_len ci) e1 \<and> km_mac_encrypt km = take mac_len e2 \<and>
    km_decrypt km = take (key_len ci) e3 \<and> km_mac_decrypt km = take mac_len e4"
proof -
  obtain master where m: "openvpn_prf C (sd_pre_master seed) ''OpenVPN master secret''
      [sd_client_random1 seed, sd_server_random1 seed] MASTER_LEN = Some master"
    using prf_returns [OF assms(1)] by blast
  obtain e where e: "openvpn_prf C master ''OpenVPN key expansion''
      [sd_client_random2 seed, sd_server_random2 seed, sd_client_sid seed, sd_server_sid seed] KEY2_LEN =
      Some e" "length e = KEY2_LEN"
    using prf_returns [OF assms(1)] by blast
  define e1 e2 e3 e4 where es: "e1 = take 64 e" "e2 = take 64 (drop 64 e)"
    "e3 = take 64 (drop 128 e)" "e4 = drop 192 e"
  have split: "e = e1 @ e2 @ e3 @ e4"
    using append_take_drop_id [of 64 e] append_take_drop_id [of 64 "drop 64 e"]
      append_take_drop_id [of 64 "drop 128 e"] by (simp add: es)
  have len: "length e1 = 64" "length e2 = 64" "length e3 = 64" "length e4 = 64"
    using e(2) by (simp_all add: es consts_defs)
  define km where "km = \<lparr>km_encrypt = take (key_len ci) e1, km_decrypt = take (key_len ci) e3,
       km_mac_encrypt = take mac_len e2, km_mac_decrypt = take mac_len e4\<rparr>"
  have "derive C seed ci mac_len = Some (Done km)"
    using m e(1) key_len_le [of ci] assms(2) len
    by (simp add: derive_def split KEY_LEN_def km_def)
  moreover have "openvpn_prf C master ''OpenVPN key expansion''
      [sd_client_random2 seed, sd_server_random2 seed, sd_client_sid seed, sd_server_sid seed] 256 =
      Some (e1 @ e2 @ e3 @ e4)"
    using e(1) by (simp add: split consts_defs)
  moreover have "openvpn_prf C (sd_pre_master seed) ''OpenVPN master secret''
      [sd_client_random1 seed, sd_server_random1 seed] 48 = Some master"
    using m by (simp add: consts_defs)
  ultimately show ?thesis using len
    by (intro exI [of _ km] exI [of _ e1] exI [of _ e2] exI [of _ e3] exI [of _ e4])
      (auto simp: km_def)
qed

text \<open>A concrete instance of the primitives, to evaluate the operations on.\<close>

definition demo_crypto :: crypto where
  "demo_crypto =
     \<lparr>cr_hmac_md5 = (\<lambda>k d. replicate 16 (of_nat (length d))),
      cr_hmac_sha1 = (\<lambda>k d. replicate 20 (of_nat (length k))),
      cr_hmac_init = (\<lambda>a k. True),
      cr_hmac = (\<lambda>a k d. Some (replicate (auth_size a) (of_nat (length d)))),
      cr_gcm_key = (\<lambda>n k. length k = n),
      cr_gcm_seal = (\<lambda>n k iv aad m. Some (m @ replicate 16 (of_nat (length aad)))),
      cr_gcm_open = (\<lambda>n k iv aad c.
        if 16 \<le> length c \<and> drop (length c - 16) c = replicate 16 (of_nat (length aad))
        then Some (take (length c - 16) c) else None),
      cr_cbc_key = (\<lambda>n k iv. length k = n \<and> length iv = 16),
      cr_cbc_encrypt = (\<lambda>n k iv m. m @ replicate 16 0),
      cr_cbc_decrypt = (\<lambda>n k iv c. Some (take (length c - 16) c))\<rparr>"

lemma demo_crypto_laws: "crypto_laws demo_crypto"
  by (simp add: crypto_laws_def demo_crypto_def)

definition demo_seed :: seed_data where
  "demo_seed =
     \<lparr>sd_pre_master = replicate 48 1, sd_client_random1 = replicate 32 2,
      sd_server_random1 = replicate 32 3, sd_client_random2 = replicate 32 4,
      sd_server_random2 = replicate 32 5, sd_client_sid = replicate 8 6, sd_server_sid = replicate 8 7\<rparr>"

theorem derive_keys_witness:
  "\<exists>km. derive demo_crypto demo_seed Aes128Cbc 20 = Some (Done km) \<and> length (km_encrypt km) = 16 \<and>
     length (km_mac_decrypt km) = 20"
  using derive_keys [OF demo_crypto_laws, of 20 demo_seed Aes128Cbc] by auto

section \<open>Encryption and decryption\<close>

lemma data_cipher_new_Inr:
  assumes "data_cipher_new ci au key mac = Inr d"
  shows "dc_cipher d = ci" "dc_auth d = au" "length (dc_key d) = key_len ci"
    "\<not> is_aead ci \<Longrightarrow> auth_size au \<le> length (dc_mac d)"
  using assms by (auto simp: data_cipher_new_def Let_def split: if_splits)

lemma aead_kind_new:
  assumes "crypto_laws C" "data_cipher_new ci au key mac = Inr d" "is_aead ci"
  shows "aead_kind C d = Inr (key_len ci)"
  using data_cipher_new_Inr [OF assms(2)] assms(1,3)
  by (auto simp: aead_kind_def is_aead_def crypto_laws_def)

lemma encrypt_decrypt_aead:
  assumes C: "crypto_laws C" and d: "data_cipher_new ci au key mac = Inr d" and a: "is_aead ci"
    and seal: "cr_gcm_seal C (key_len ci) (dc_key d) (aead_nonce (dc_implicit_iv d) n)
      (h @ u32_to_be_bytes n) pt = Some s"
  shows "\<exists>body. encrypt_aead C d (h @ u32_to_be_bytes n) n pt = Done (Inr body) \<and>
    decrypt_aead C d (h @ u32_to_be_bytes n) body = Done (Inr (n, pt))"
proof -
  have s: "length s = length pt + 16"
    "cr_gcm_open C (key_len ci) (dc_key d) (aead_nonce (dc_implicit_iv d) n) (h @ u32_to_be_bytes n) s = Some pt"
    using C seal by (auto simp: crypto_laws_def)
  obtain t where t: "tag_first s TAG_LEN = Done t" "length t = length s" "tag_last t = Done s"
    using tag_first_last [of s] s(1) by auto
  have "encrypt_aead C d (h @ u32_to_be_bytes n) n pt = Done (Inr t)"
    by (simp add: encrypt_aead_def aead_kind_new [OF C d a] seal t(1))
  moreover have "decrypt_aead C d (h @ u32_to_be_bytes n) t = Done (Inr (n, pt))"
    using s t by (simp add: decrypt_aead_def aead_kind_new [OF C d a] TAG_LEN_def)
  ultimately show ?thesis by (intro exI [of _ t] conjI)
qed

lemma hmac_returns:
  "crypto_laws C \<Longrightarrow> \<exists>t. cr_hmac C a k m = Some t \<and> length t = auth_size a"
  by (simp add: crypto_laws_def)

lemma cbc_size_new:
  "data_cipher_new ci au key mac = Inr d \<Longrightarrow> \<not> is_aead ci \<Longrightarrow> cbc_size d = key_len ci"
  using data_cipher_new_Inr [of ci au key mac d] by (cases ci) (auto simp: cbc_size_def)

lemma encrypt_decrypt_cbc:
  assumes C: "crypto_laws C" and d: "data_cipher_new ci au key mac = Inr d" and a: "\<not> is_aead ci"
    and iv: "length iv = 16"
  shows "\<exists>body. encrypt_cbc C d iv n pt = Done (Inr body) \<and> decrypt_cbc C d body = Done (Inr (n, pt))"
proof -
  note new = data_cipher_new_Inr [OF d]
  define ct where "ct = cr_cbc_encrypt C (key_len ci) (dc_key d) iv (u32_to_be_bytes n @ pt)"
  obtain tag where tag: "cr_hmac C au (take (auth_size au) (dc_mac d)) (iv @ ct) = Some tag"
    "length tag = auth_size au" using hmac_returns [OF C] by blast
  have ct: "16 \<le> length ct" "cr_cbc_decrypt C (key_len ci) (dc_key d) iv ct = Some (u32_to_be_bytes n @ pt)"
    using C by (simp_all add: crypto_laws_def ct_def)
  have key: "cr_cbc_key C (key_len ci) (dc_key d) iv" "cr_hmac_init C au k" for k
    using C new(3) iv by (simp_all add: crypto_laws_def)
  have "encrypt_cbc C d iv n pt = Done (Inr (tag @ iv @ ct))"
    using key new(1,2) new(4) [OF a] tag(1)
    by (simp add: encrypt_cbc_def cbc_size_new [OF d a] ct_def)
  moreover have "decrypt_cbc C d (tag @ iv @ ct) = Done (Inr (n, pt))"
    using key new(1,2) new(4) [OF a] tag ct iv
    by (simp add: decrypt_cbc_def cbc_size_new [OF d a])
  ultimately show ?thesis by (intro exI [of _ "tag @ iv @ ct"] conjI)
qed

lemma encrypt_decrypt_cases:
  assumes "crypto_laws C" "data_cipher_new ci au key mac = Inr d" "length iv = 16"
    "encrypt C d iv (h @ u32_to_be_bytes n) n pt = Done (Inr body)"
  shows "decrypt C d (h @ u32_to_be_bytes n) body = Done (Inr (n, pt))"
proof (cases "is_aead ci")
  case True
  then obtain s where "cr_gcm_seal C (key_len ci) (dc_key d) (aead_nonce (dc_implicit_iv d) n)
      (h @ u32_to_be_bytes n) pt = Some s"
    using assms(4) by (auto simp: encrypt_def encrypt_aead_def data_cipher_new_Inr(1) [OF assms(2)]
        aead_kind_new [OF assms(1,2)] split: option.splits)
  from encrypt_decrypt_aead [OF assms(1,2) True this] assms(4) True show ?thesis
    by (auto simp: encrypt_def decrypt_def data_cipher_new_Inr(1) [OF assms(2)])
next
  case False
  from encrypt_decrypt_cbc [OF assms(1,2) False assms(3), of n pt] assms(4) False show ?thesis
    by (auto simp: encrypt_def decrypt_def data_cipher_new_Inr(1) [OF assms(2)])
qed

text \<open>
  C13: with the keys both sides hold, a packet is decrypted to the counter and the plaintext
  it was made from, in both cipher families; encryption does not panic, and it fails only if
  the AEAD refuses to seal.
\<close>

theorem encrypt_decrypt:
  assumes "crypto_laws C" "data_cipher_new ci au key mac = Inr d" "length iv = 16"
  shows "case encrypt C d iv (h @ u32_to_be_bytes n) n pt of
      Panicked \<Rightarrow> False
    | Done (Inl e) \<Rightarrow> is_aead ci \<and>
        cr_gcm_seal C (key_len ci) (dc_key d) (aead_nonce (dc_implicit_iv d) n) (h @ u32_to_be_bytes n) pt = None
    | Done (Inr body) \<Rightarrow> decrypt C d (h @ u32_to_be_bytes n) body = Done (Inr (n, pt))"
proof (cases "is_aead ci")
  case True
  show ?thesis
  proof (cases "cr_gcm_seal C (key_len ci) (dc_key d) (aead_nonce (dc_implicit_iv d) n) (h @ u32_to_be_bytes n) pt")
    case None
    with True show ?thesis
      by (simp add: encrypt_def encrypt_aead_def data_cipher_new_Inr(1) [OF assms(2)]
          aead_kind_new [OF assms(1,2)])
  next
    case (Some s)
    from encrypt_decrypt_aead [OF assms(1,2) True Some] True show ?thesis
      by (auto simp: encrypt_def decrypt_def data_cipher_new_Inr(1) [OF assms(2)])
  qed
next
  case False
  from encrypt_decrypt_cbc [OF assms(1,2) False assms(3), of n pt] False show ?thesis
    by (auto simp: encrypt_def decrypt_def data_cipher_new_Inr(1) [OF assms(2)])
qed

theorem encrypt_decrypt_witness:
  "\<exists>d body. data_cipher_new Aes128Gcm Sha1 (replicate 16 1) (replicate 20 2) = Inr d \<and>
     encrypt demo_crypto d (replicate 16 0) ([72] @ u32_to_be_bytes 5) 5 [1, 2] = Done (Inr body) \<and>
     decrypt demo_crypto d ([72] @ u32_to_be_bytes 5) body = Done (Inr (5, [1, 2]))"
proof -
  obtain d where d: "data_cipher_new Aes128Gcm Sha1 (replicate 16 1) (replicate 20 2) = Inr d"
    by (simp add: data_cipher_new_def)
  have "cr_gcm_seal demo_crypto k n iv aad m = Some (m @ replicate 16 (of_nat (length aad)))" for k n iv aad m
    by (simp add: demo_crypto_def)
  with d encrypt_decrypt [OF demo_crypto_laws d, of "replicate 16 0" 5 "[72]" "[1, 2]"]
  show ?thesis by (auto split: exec.splits sum.splits)
qed

text \<open>
  C14: a packet that is accepted is authentic: in CBC mode its tag is the HMAC of everything
  behind it under the receiver's MAC key, in AEAD mode its header, the counter in it and its
  body were opened together under the receiver's key.
\<close>

theorem decrypt_authentic:
  assumes "decrypt C d header body = Done (Inr (n, pt))"
  shows "if is_aead (dc_cipher d)
    then n = u32_from_be_bytes (drop (length header - 4) header) \<and>
      (\<exists>bits. aead_kind C d = Inr bits \<and>
        cr_gcm_open C bits (dc_key d) (aead_nonce (dc_implicit_iv d) n) header (drop 16 body @ take 16 body) = Some pt)
    else cr_hmac C (dc_auth d) (take (auth_size (dc_auth d)) (dc_mac d)) (drop (auth_size (dc_auth d)) body) =
      Some (take (auth_size (dc_auth d)) body)"
proof (cases "is_aead (dc_cipher d)")
  case True
  with assms show ?thesis
    by (auto simp: decrypt_def decrypt_aead_def tag_last_def Let_def TAG_LEN_def
        split: if_splits sum.splits option.splits)
next
  case False
  with assms show ?thesis
    by (auto simp: decrypt_def decrypt_cbc_def Let_def slice_def append_take_drop_id
        simp del: drop_drop split: if_splits sum.splits option.splits)
qed

theorem decrypt_authentic_witness:
  "\<exists>d body. data_cipher_new Aes128Cbc Sha1 (replicate 16 1) (replicate 20 2) = Inr d \<and>
     decrypt demo_crypto d [] body = Done (Inr (5, [1, 2])) \<and>
     cr_hmac demo_crypto Sha1 (take 20 (dc_mac d)) (drop 20 body) = Some (take 20 body)"
proof -
  obtain d where d: "data_cipher_new Aes128Cbc Sha1 (replicate 16 1) (replicate 20 2) = Inr d"
    by (simp add: data_cipher_new_def)
  note new = data_cipher_new_Inr(1,2) [OF d]
  obtain body where b: "decrypt_cbc demo_crypto d body = Done (Inr (5, [1, 2]))"
    using encrypt_decrypt_cbc [OF demo_crypto_laws d, of "replicate 16 0" 5 "[1, 2]"] by auto
  then have "decrypt demo_crypto d [] body = Done (Inr (5, [1, 2]))" by (simp add: decrypt_def new)
  from decrypt_authentic [OF this] this d new show ?thesis by auto
qed

end
