(* ===== verification/Ovpn_Tls.thy ===== *)
theory Ovpn_Tls
  imports Ovpn_Crypto
begin

text \<open>
  The TLS session of the control channel (\<open>src/openvpn/tls.rs\<close>): the in-memory transport the
  TLS engine reads from and writes to, and the state machine around the engine. The engine
  (\<open>btls\<close>) is a parameter: a record of its three calls on a session state, and one of the calls that
  make a context and a session.

  Operations on a state return an outcome and the state they leave behind: an error does not
  undo what was done before it.
\<close>

section \<open>Outcomes\<close>

text \<open>
  A call returns, returns an error, panics, or does not return (the engine keeps producing
  data without end).
\<close>

datatype 'a outcome = Returns 'a | Fails ovpn_error | Panics | Hangs

definition and_then :: "'a outcome \<times> 's \<Rightarrow> ('a \<Rightarrow> 's \<Rightarrow> 'b outcome \<times> 's) \<Rightarrow> 'b outcome \<times> 's" where
  "and_then r f =
     (case fst r of
        Returns x \<Rightarrow> f x (snd r)
      | Fails e \<Rightarrow> (Fails e, snd r)
      | Panics \<Rightarrow> (Panics, snd r)
      | Hangs \<Rightarrow> (Hangs, snd r))"

lemma and_then_simps [simp]:
  "and_then (Returns x, s) f = f x s"
  "and_then (Fails e, s) f = (Fails e, s)"
  "and_then (Panics, s) f = (Panics, s)"
  "and_then (Hangs, s) f = (Hangs, s)"
  by (simp_all add: and_then_def)

lemma and_then_cong [fundef_cong]:
  assumes "r = r'" "\<And>x. fst r' = Returns x \<Longrightarrow> f x (snd r') = g x (snd r')"
  shows "and_then r f = and_then r' g"
  using assms by (auto simp: and_then_def split: outcome.splits)

section \<open>Credentials\<close>

record credential_store =
  cs_cert :: bytes
  cs_key :: bytes
  cs_ca :: bytes

definition credential_store_new :: "credentials \<Rightarrow> credential_store" where
  "credential_store_new cr =
     \<lparr>cs_cert = as_bytes (cred_cert cr), cs_key = as_bytes (cred_key cr), cs_ca = as_bytes (cred_ca cr)\<rparr>"

text \<open>
  The calls of \<open>btls\<close> on a builder \<open>'b\<close>, a store of certificates \<open>'v\<close>, certificates, private keys, contexts \<open>'x\<close>
  and sessions \<open>'s\<close>. An error is its debug text.
\<close>

datatype verify_mode = VERIFY_NONE | VERIFY_PEER

record ('b, 'v, 'cert, 'k, 'x, 's) btls =
  bl_builder :: "string + 'b"
  bl_set_verify :: "verify_mode \<Rightarrow> 'b \<Rightarrow> 'b"
  bl_store :: "string + 'v"
  bl_stack_from_pem :: "bytes \<Rightarrow> string + 'cert list"
  bl_add_cert :: "'cert \<Rightarrow> 'v \<Rightarrow> string + 'v"
  bl_set_cert_store :: "'v \<Rightarrow> 'b \<Rightarrow> 'b"
  bl_from_pem :: "bytes \<Rightarrow> string + 'cert"
  bl_private_key :: "bytes \<Rightarrow> string + 'k"
  bl_set_certificate :: "'cert \<Rightarrow> 'b \<Rightarrow> string + 'b"
  bl_set_private_key :: "'k \<Rightarrow> 'b \<Rightarrow> string + 'b"
  bl_check_private_key :: "'b \<Rightarrow> string + unit"
  bl_build :: "'b \<Rightarrow> 'x"
  bl_ssl :: "'x \<Rightarrow> string + 's"
  bl_set_hostname :: "string \<Rightarrow> 's \<Rightarrow> string + 's"

text \<open>\<open>map_err(..)?\<close> of the code.\<close>

definition or_tls :: "string + 'a \<Rightarrow> ('a \<Rightarrow> ovpn_error + 'c) \<Rightarrow> ovpn_error + 'c" where
  "or_tls r f = (case r of Inl e \<Rightarrow> Inl (ETls e) | Inr x \<Rightarrow> f x)"

lemma or_tls_Inr: "or_tls r f = Inr y \<longleftrightarrow> (\<exists>x. r = Inr x \<and> f x = Inr y)"
  by (cases r) (simp_all add: or_tls_def)

fun add_anchors :: "('b, 'v, 'cert, 'k, 'x, 's) btls \<Rightarrow> 'cert list \<Rightarrow> 'v \<Rightarrow> string + 'v" where
  "add_anchors B [] store = Inr store"
| "add_anchors B (anchor # anchors) store =
     (case bl_add_cert B anchor store of Inl e \<Rightarrow> Inl e | Inr store \<Rightarrow> add_anchors B anchors store)"

definition ssl_context ::
  "('b, 'v, 'cert, 'k, 'x, 's) btls \<Rightarrow> credential_store \<Rightarrow> string \<Rightarrow> ovpn_error + 'x" where
  "ssl_context B cs host =
     or_tls (bl_builder B) (\<lambda>builder.
       let builder = bl_set_verify B VERIFY_PEER builder in
       or_tls (bl_store B) (\<lambda>store.
       or_tls (bl_stack_from_pem B (cs_ca cs)) (\<lambda>anchors.
       or_tls (add_anchors B anchors store) (\<lambda>store.
         let builder = bl_set_cert_store B store builder in
         or_tls (bl_from_pem B (cs_cert cs)) (\<lambda>cert.
         or_tls (bl_private_key B (cs_key cs)) (\<lambda>key.
         or_tls (bl_set_certificate B cert builder) (\<lambda>builder.
         or_tls (bl_set_private_key B key builder) (\<lambda>builder.
         or_tls (bl_check_private_key B builder) (\<lambda>_. Inr (bl_build B builder))))))))))"

section \<open>The in-memory stream\<close>

record memory_stream =
  ms_inbound :: bytes
  ms_outbound :: bytes

definition memory_default :: memory_stream where
  "memory_default = \<lparr>ms_inbound = [], ms_outbound = []\<rparr>"

definition memory_feed :: "bytes \<Rightarrow> memory_stream \<Rightarrow> memory_stream" where
  "memory_feed data m = m\<lparr>ms_inbound := ms_inbound m @ data\<rparr>"

definition memory_take_outbound :: "memory_stream \<Rightarrow> bytes \<times> memory_stream" where
  "memory_take_outbound m = (ms_outbound m, m\<lparr>ms_outbound := []\<rparr>)"

text \<open>
  \<open>read\<close> into a buffer of \<open>n\<close> bytes: \<open>None\<close> is \<open>WouldBlock\<close>. The deque is stored in two
  slices; \<open>wrap_at\<close> is the length of the first one.
\<close>

definition memory_read :: "nat \<Rightarrow> nat \<Rightarrow> memory_stream \<Rightarrow> bytes option \<times> memory_stream" where
  "memory_read wrap_at n m =
     (if ms_inbound m = [] then (None, m)
      else
        let len = min n (length (ms_inbound m));
            head = take wrap_at (ms_inbound m); tail = drop wrap_at (ms_inbound m);
            taken = min len (length head);
            buf = take taken head @ (if taken < len then take (len - taken) tail else []) in
        (Some buf, m\<lparr>ms_inbound := drop len (ms_inbound m)\<rparr>))"

definition memory_write :: "bytes \<Rightarrow> memory_stream \<Rightarrow> nat \<times> memory_stream" where
  "memory_write buf m = (length buf, m\<lparr>ms_outbound := ms_outbound m @ buf\<rparr>)"

section \<open>The engine and the session\<close>

datatype handshake_result = HsDone | HsWouldBlock | HsFailure string | HsSetupFailure string

text \<open>
  The engine works on its own session state and on the memory stream. \<open>ssl_reads\<close> bounds how
  many reads in a row may return data; the read loop of \<open>pump\<close> does not return when there are
  more.
\<close>

record 's ssl =
  ssl_handshake :: "'s \<Rightarrow> memory_stream \<Rightarrow> handshake_result \<times> 's \<times> memory_stream"
  ssl_read :: "'s \<Rightarrow> memory_stream \<Rightarrow> nat \<Rightarrow> bytes option \<times> 's \<times> memory_stream"
  ssl_write :: "'s \<Rightarrow> memory_stream \<Rightarrow> bytes \<Rightarrow> nat option \<times> 's \<times> memory_stream"
  ssl_reads :: nat

record 's tls_state =
  tl_handshake :: "('s \<times> memory_stream) option"
  tl_stream :: "('s \<times> memory_stream) option"
  tl_plaintext :: bytes
  tl_offset :: nat
  tl_pending :: bytes

definition tls_new :: "'s \<Rightarrow> 's tls_state" where
  "tls_new session =
     \<lparr>tl_handshake = Some (session, memory_default), tl_stream = None, tl_plaintext = [],
      tl_offset = 0, tl_pending = []\<rparr>"

definition tls_start :: "('b, 'v, 'cert, 'k, 'x, 's) btls \<Rightarrow> 'x \<Rightarrow> string \<Rightarrow> ovpn_error + 's tls_state" where
  "tls_start B ctx host =
     or_tls (bl_ssl B ctx) (\<lambda>ssl. or_tls (bl_set_hostname B host ssl) (\<lambda>ssl. Inr (tls_new ssl)))"

definition tls_is_ready :: "'s tls_state \<Rightarrow> bool" where
  "tls_is_ready t \<longleftrightarrow> tl_stream t \<noteq> None"

text \<open>The loop of \<open>pump\<close>: collect what the engine decrypts, until it has no more.\<close>

fun read_all :: "'s ssl \<Rightarrow> nat \<Rightarrow> 's \<times> memory_stream \<Rightarrow> bytes \<Rightarrow> (bytes \<times> 's \<times> memory_stream) option" where
  "read_all S 0 sm acc = None"
| "read_all S (Suc n) sm acc =
     (case ssl_read S (fst sm) (snd sm) (16 * 1024) of
        (None, sm') \<Rightarrow> Some (acc, sm')
      | (Some data, sm') \<Rightarrow> if data = [] then Some (acc, sm') else read_all S n sm' (acc @ data))"

definition tls_pump :: "'s ssl \<Rightarrow> 's tls_state \<Rightarrow> unit outcome \<times> 's tls_state" where
  "tls_pump S t =
     (case tl_stream t of
        None \<Rightarrow> (Returns (), t)
      | Some sm \<Rightarrow>
          (case read_all S (Suc (ssl_reads S)) sm (tl_plaintext t) of
             None \<Rightarrow> (Hangs, t)
           | Some (plaintext, sm') \<Rightarrow>
               (Returns (), t\<lparr>tl_stream := Some sm', tl_plaintext := plaintext\<rparr>)))"

definition tls_feed :: "'s ssl \<Rightarrow> bytes \<Rightarrow> 's tls_state \<Rightarrow> unit outcome \<times> 's tls_state" where
  "tls_feed S ciphertext t =
     (case tl_handshake t of
        Some (s, m) \<Rightarrow> (Returns (), t\<lparr>tl_handshake := Some (s, memory_feed ciphertext m)\<rparr>)
      | None \<Rightarrow>
          (case tl_stream t of
             Some (s, m) \<Rightarrow> tls_pump S (t\<lparr>tl_stream := Some (s, memory_feed ciphertext m)\<rparr>)
           | None \<Rightarrow> (Fails (ETls ''tls closed''), t)))"

definition tls_drive :: "'s ssl \<Rightarrow> 's tls_state \<Rightarrow> unit outcome \<times> 's tls_state" where
  "tls_drive S t =
     (case tl_handshake t of
        None \<Rightarrow> tls_pump S t
      | Some (s, m) \<Rightarrow>
          (case ssl_handshake S s m of
             (HsDone, sm) \<Rightarrow> tls_pump S (t\<lparr>tl_handshake := None, tl_stream := Some sm\<rparr>)
           | (HsWouldBlock, sm) \<Rightarrow> (Returns (), t\<lparr>tl_handshake := Some sm\<rparr>)
           | (HsFailure e, sm) \<Rightarrow> (Fails (ETls e), t\<lparr>tl_handshake := None\<rparr>)
           | (HsSetupFailure e, sm) \<Rightarrow> (Fails (ETls e), t\<lparr>tl_handshake := None\<rparr>)))"

definition tls_take_outbound :: "'s tls_state \<Rightarrow> bytes \<times> 's tls_state" where
  "tls_take_outbound t =
     (case tl_handshake t of
        Some (s, m) \<Rightarrow>
          (let (out, m') = memory_take_outbound m in (out, t\<lparr>tl_handshake := Some (s, m')\<rparr>))
      | None \<Rightarrow>
          (case tl_stream t of
             Some (s, m) \<Rightarrow>
               (let (out, m') = memory_take_outbound m in (out, t\<lparr>tl_stream := Some (s, m')\<rparr>))
           | None \<Rightarrow> ([], t)))"

definition tls_take_plaintext :: "'s tls_state \<Rightarrow> bytes option \<times> 's tls_state" where
  "tls_take_plaintext t =
     (if length (tl_plaintext t) \<le> tl_offset t
      then (None, t\<lparr>tl_plaintext := [], tl_offset := 0\<rparr>)
      else (Some (drop (tl_offset t) (tl_plaintext t)), t\<lparr>tl_plaintext := [], tl_offset := 0\<rparr>))"

text \<open>
  \<open>drain_pending\<close> ends because every round that goes on takes bytes off \<open>pending\<close>; a count
  above the number of pending bytes would panic in \<open>drain\<close>.
\<close>

function drain_pending :: "'s ssl \<Rightarrow> 's tls_state \<Rightarrow> unit outcome \<times> 's tls_state" where
  "drain_pending S t =
     (if tl_pending t = [] then (Returns (), t)
      else case tl_stream t of
        None \<Rightarrow> (Fails (ETls ''handshake incomplete''), t)
      | Some (s, m) \<Rightarrow>
          (case ssl_write S s m (tl_pending t) of
             (None, sm) \<Rightarrow> (Returns (), t\<lparr>tl_stream := Some sm\<rparr>)
           | (Some written, sm) \<Rightarrow>
               if written = 0 then (Returns (), t\<lparr>tl_stream := Some sm\<rparr>)
               else if length (tl_pending t) < written then (Panics, t\<lparr>tl_stream := Some sm\<rparr>)
               else drain_pending S (t\<lparr>tl_stream := Some sm, tl_pending := drop written (tl_pending t)\<rparr>)))"
  by pat_completeness auto
termination
  by (relation "measure (\<lambda>(S, t). length (tl_pending t))") auto

declare drain_pending.simps [simp del]

definition tls_write :: "'s ssl \<Rightarrow> bytes \<Rightarrow> 's tls_state \<Rightarrow> unit outcome \<times> 's tls_state" where
  "tls_write S data t =
     (if tl_stream t = None then (Fails (ETls ''handshake incomplete''), t)
      else drain_pending S (t\<lparr>tl_pending := tl_pending t @ data\<rparr>))"

section \<open>The memory stream is a queue of bytes\<close>

lemma memory_read_prefix:
  assumes "ms_inbound m \<noteq> []"
  shows "memory_read wrap_at n m =
    (Some (take n (ms_inbound m)), m\<lparr>ms_inbound := drop n (ms_inbound m)\<rparr>)"
proof -
  let ?b = "ms_inbound m" and ?len = "min n (length (ms_inbound m))"
  have t: "take ?len ?b = take n ?b" "drop ?len ?b = drop n ?b" by (simp_all add: min_def)
  have "take (min ?len (length (take wrap_at ?b))) (take wrap_at ?b) @
      (if min ?len (length (take wrap_at ?b)) < ?len
       then take (?len - min ?len (length (take wrap_at ?b))) (drop wrap_at ?b) else []) = take ?len ?b"
    using take_add [of wrap_at "?len - wrap_at" ?b] by (auto simp: min_def)
  with assms t show ?thesis by (simp add: memory_read_def Let_def)
qed

text \<open>
  The interface of a byte queue: what is put in at one end comes out at the other, once, in
  order, in pieces of any size.
\<close>

locale byte_queue =
  fixes feed :: "bytes \<Rightarrow> 'q \<Rightarrow> 'q"
    and read :: "nat \<Rightarrow> 'q \<Rightarrow> bytes option \<times> 'q"
    and content :: "'q \<Rightarrow> bytes"
  assumes feed_content: "content (feed data q) = content q @ data"
    and read_empty: "content q = [] \<Longrightarrow> read n q = (None, q)"
    and read_some: "content q \<noteq> [] \<Longrightarrow>
      fst (read n q) = Some (take n (content q)) \<and> content (snd (read n q)) = drop n (content q)"
begin

fun read_list :: "nat list \<Rightarrow> 'q \<Rightarrow> bytes \<times> 'q" where
  "read_list [] q = ([], q)"
| "read_list (n # ns) q =
     (let r = read n q; rest = read_list ns (snd r) in
      ((case fst r of None \<Rightarrow> [] | Some b \<Rightarrow> b) @ fst rest, snd rest))"

lemma read_step:
  "(case fst (read n q) of None \<Rightarrow> [] | Some b \<Rightarrow> b) @ content (snd (read n q)) = content q"
  by (cases "content q = []") (auto simp: read_empty read_some)

lemma read_list_conserves: "fst (read_list ns q) @ content (snd (read_list ns q)) = content q"
proof (induction ns arbitrary: q)
  case (Cons n ns)
  show ?case using Cons [of "snd (read n q)"] read_step [of n q] by (simp add: Let_def)
qed simp

lemma fold_feed_content: "content (fold feed ds q) = content q @ concat ds"
  by (induction ds arbitrary: q) (simp_all add: feed_content)

lemma fed_is_read: "fst (read_list ns (fold feed ds q)) @ content (snd (read_list ns (fold feed ds q))) =
    content q @ concat ds"
  by (simp add: read_list_conserves fold_feed_content)

end

interpretation ms: byte_queue memory_feed "memory_read wrap_at" ms_inbound
  by unfold_locales (simp_all add: memory_feed_def memory_read_prefix, simp add: memory_read_def)

section \<open>Whom a session trusts\<close>

text \<open>
  What \<open>btls\<close> documents of a builder: every setter sets its own part and nothing else, a store holds the
  certificates that were added to it, setting a store replaces the one before, and building keeps all.
\<close>

record ('cert, 'k) tls_policy =
  tp_verify :: verify_mode
  tp_trusts :: "'cert set"
  tp_cert :: "'cert option"
  tp_key :: "'k option"

definition btls_laws ::
  "('b, 'v, 'cert, 'k, 'x, 's) btls \<Rightarrow> ('b \<Rightarrow> ('cert, 'k) tls_policy) \<Rightarrow> ('v \<Rightarrow> 'cert set) \<Rightarrow> ('x \<Rightarrow> ('cert, 'k) tls_policy) \<Rightarrow> bool" where
  "btls_laws B sees holds policy \<longleftrightarrow>
     (\<forall>m b. sees (bl_set_verify B m b) = (sees b)\<lparr>tp_verify := m\<rparr>) \<and>
     (\<forall>v. bl_store B = Inr v \<longrightarrow> holds v = {}) \<and>
     (\<forall>c v v'. bl_add_cert B c v = Inr v' \<longrightarrow> holds v' = insert c (holds v)) \<and>
     (\<forall>v b. sees (bl_set_cert_store B v b) = (sees b)\<lparr>tp_trusts := holds v\<rparr>) \<and>
     (\<forall>c b b'. bl_set_certificate B c b = Inr b' \<longrightarrow> sees b' = (sees b)\<lparr>tp_cert := Some c\<rparr>) \<and>
     (\<forall>k b b'. bl_set_private_key B k b = Inr b' \<longrightarrow> sees b' = (sees b)\<lparr>tp_key := Some k\<rparr>) \<and>
     (\<forall>b. policy (bl_build B b) = sees b)"

lemma add_anchors_holds:
  "btls_laws B sees holds policy \<Longrightarrow> add_anchors B anchors v = Inr v' \<Longrightarrow> holds v' = holds v \<union> set anchors"
  by (induction B anchors v rule: add_anchors.induct) (auto simp: btls_laws_def split: sum.splits)

text \<open>
  C17: a TLS context of the OpenVPN client requires a certificate of the server, accepts exactly those that
  lead to a certificate of the profile's CA text, and presents the profile's own certificate with a
  private key that was checked against it. It is the same for every host: the name of the server is
  not part of what is verified.
\<close>

theorem context_trusts_only_profile_ca:
  assumes "btls_laws B sees holds policy" "ssl_context B (credential_store_new cr) host = Inr ctx"
  shows "\<exists>anchors cert key b. bl_stack_from_pem B (as_bytes (cred_ca cr)) = Inr anchors \<and>
      bl_from_pem B (as_bytes (cred_cert cr)) = Inr cert \<and> bl_private_key B (as_bytes (cred_key cr)) = Inr key \<and>
      policy ctx = \<lparr>tp_verify = VERIFY_PEER, tp_trusts = set anchors, tp_cert = Some cert, tp_key = Some key\<rparr> \<and>
      ctx = bl_build B b \<and> bl_check_private_key B b = Inr () \<and>
      (\<forall>host'. ssl_context B (credential_store_new cr) host' = Inr ctx)"
proof -
  have same: "ssl_context B (credential_store_new cr) host' = Inr ctx" for host'
    using assms(2) by (simp add: ssl_context_def)
  obtain b0 v0 anchors v1 cert key b1 b2 where s: "bl_store B = Inr v0" "bl_stack_from_pem B (as_bytes (cred_ca cr)) = Inr anchors"
    "add_anchors B anchors v0 = Inr v1" "bl_from_pem B (as_bytes (cred_cert cr)) = Inr cert"
    "bl_private_key B (as_bytes (cred_key cr)) = Inr key"
    "bl_set_certificate B cert (bl_set_cert_store B v1 (bl_set_verify B VERIFY_PEER b0)) = Inr b1"
    "bl_set_private_key B key b1 = Inr b2" "bl_check_private_key B b2 = Inr ()" "ctx = bl_build B b2"
    using assms(2) by (auto simp: ssl_context_def or_tls_Inr Let_def credential_store_new_def)
  have "holds v1 = set anchors" using add_anchors_holds [OF assms(1) s(3)] assms(1) s(1) by (simp add: btls_laws_def)
  then have "policy ctx = \<lparr>tp_verify = VERIFY_PEER, tp_trusts = set anchors, tp_cert = Some cert, tp_key = Some key\<rparr>"
    using assms(1) s(6,7,9) by (auto simp: btls_laws_def)
  then show ?thesis using s same by blast
qed

text \<open>A builder that is the policy itself; texts are their own certificates and keys.\<close>

definition demo_btls :: "((bytes, bytes) tls_policy, bytes set, bytes, bytes, (bytes, bytes) tls_policy, unit) btls" where
  "demo_btls =
     \<lparr>bl_builder = Inr \<lparr>tp_verify = VERIFY_NONE, tp_trusts = {}, tp_cert = None, tp_key = None\<rparr>,
      bl_set_verify = (\<lambda>m b. b\<lparr>tp_verify := m\<rparr>), bl_store = Inr {}, bl_stack_from_pem = (\<lambda>b. Inr [b]),
      bl_add_cert = (\<lambda>c v. Inr (insert c v)), bl_set_cert_store = (\<lambda>v b. b\<lparr>tp_trusts := v\<rparr>), bl_from_pem = Inr,
      bl_private_key = Inr, bl_set_certificate = (\<lambda>c b. Inr (b\<lparr>tp_cert := Some c\<rparr>)),
      bl_set_private_key = (\<lambda>k b. Inr (b\<lparr>tp_key := Some k\<rparr>)), bl_check_private_key = (\<lambda>b. Inr ()), bl_build = (\<lambda>b. b),
      bl_ssl = (\<lambda>x. Inr ()), bl_set_hostname = (\<lambda>h s. Inr s)\<rparr>"

theorem context_trusts_only_profile_ca_witness:
  "\<exists>ctx. ssl_context demo_btls (credential_store_new \<lparr>cred_ca = ''a'', cred_cert = ''c'', cred_key = ''k''\<rparr>) ''h'' = Inr ctx \<and>
     tp_trusts ctx = {as_bytes ''a''} \<and> tp_verify ctx = VERIFY_PEER"
proof -
  let ?cr = "\<lparr>cred_ca = ''a'', cred_cert = ''c'', cred_key = ''k''\<rparr>"
  have laws: "btls_laws demo_btls (\<lambda>b. b) (\<lambda>v. v) (\<lambda>x. x)" by (simp add: btls_laws_def demo_btls_def)
  have "\<exists>ctx. ssl_context demo_btls (credential_store_new ?cr) ''h'' = Inr ctx"
    by (simp add: ssl_context_def demo_btls_def or_tls_def credential_store_new_def)
  then obtain ctx where c: "ssl_context demo_btls (credential_store_new ?cr) ''h'' = Inr ctx" ..
  from context_trusts_only_profile_ca [OF laws c] show ?thesis
    using c by (auto simp: demo_btls_def)
qed

end
