(* ===== verification/Ovpn_Net.thy ===== *)
theory Ovpn_Net
  imports Ovpn_Tls
begin

text \<open>
  The transport under the control channel (\<open>Transport\<close>, \<open>send_raw\<close>, the receive part of
  \<open>recv_packet\<close> and \<open>await_reset\<close> in \<open>src/openvpn/control.rs\<close>). The network is an explicit
  world: what will arrive and when (in milliseconds), what has been sent, and which sends
  fail. Time passes only while a call waits for the network.
\<close>

section \<open>The world\<close>

text \<open>
  A UDP socket delivers datagrams (or a socket error), each at its time; a TCP stream delivers
  bytes, each at its time, and may end.
\<close>

datatype transport =
    UdpSocket "(nat \<times> (string + bytes)) list"
  | TcpStream "(nat \<times> u8) list" "nat option"

record net =
  net_in :: transport
  net_now :: nat
  net_sent :: "bytes list"
  net_send_error :: "nat \<Rightarrow> string option"

definition send_raw :: "bytes \<Rightarrow> net \<Rightarrow> unit outcome \<times> net" where
  "send_raw payload w =
     (let put = (\<lambda>b. case net_send_error w (length (net_sent w)) of
                   Some e \<Rightarrow> (Fails (EIo e), w)
                 | None \<Rightarrow> (Returns (), w\<lparr>net_sent := net_sent w @ [b]\<rparr>)) in
      case net_in w of
        UdpSocket _ \<Rightarrow> put payload
      | TcpStream _ _ \<Rightarrow>
          (case write_packet payload of Inl e \<Rightarrow> (Fails e, w) | Inr frame \<Rightarrow> put frame))"

text \<open>
  \<open>tokio::time::timeout(timeout, ...)\<close> around \<open>recv\<close> into 2048 bytes, or around
  \<open>framing::read_packet\<close>: \<open>Returns None\<close> is the timeout.
\<close>

definition recv_raw :: "nat \<Rightarrow> net \<Rightarrow> bytes option outcome \<times> net" where
  "recv_raw timeout w =
     (let limit = net_now w + timeout in
      case net_in w of
        UdpSocket [] \<Rightarrow> (Returns None, w\<lparr>net_now := limit\<rparr>)
      | UdpSocket ((t, d) # rest) \<Rightarrow>
          if limit < t then (Returns None, w\<lparr>net_now := limit\<rparr>)
          else
            let w' = w\<lparr>net_in := UdpSocket rest, net_now := max (net_now w) t\<rparr> in
            (case d of
               Inl e \<Rightarrow> (Fails (EIo e), w')
             | Inr b \<Rightarrow> (Returns (Some (take 2048 b)), w'))
      | TcpStream s eof \<Rightarrow>
          let avail = takeWhile (\<lambda>(t, _). t \<le> limit) s;
              rest = drop (length avail) s in
          (case read_packet_within (map snd avail) of
             (Some (Inr p), _) \<Rightarrow>
               (Returns (Some p),
                w\<lparr>net_in := TcpStream (drop (2 + length p) s) eof,
                  net_now := max (net_now w) (fst (s ! (1 + length p)))\<rparr>)
           | (Some (Inl e), _) \<Rightarrow>
               (Fails e, w\<lparr>net_in := TcpStream (drop 2 s) eof, net_now := max (net_now w) (fst (s ! 1))\<rparr>)
           | (None, _) \<Rightarrow>
               (case eof of
                  Some t \<Rightarrow>
                    if t \<le> limit
                    then (Fails (EIo ''early eof''), w\<lparr>net_in := TcpStream rest eof, net_now := max (net_now w) t\<rparr>)
                    else (Returns None, w\<lparr>net_in := TcpStream rest eof, net_now := limit\<rparr>)
                | None \<Rightarrow> (Returns None, w\<lparr>net_in := TcpStream rest eof, net_now := limit\<rparr>))))"

definition recv_packet :: "nat \<Rightarrow> net \<Rightarrow> packet option outcome \<times> net" where
  "recv_packet timeout w =
     and_then (recv_raw timeout w) (\<lambda>raw w.
       case raw of
         None \<Rightarrow> (Returns None, w)
       | Some raw \<Rightarrow>
           (case packet_parse raw of Panicked \<Rightarrow> (Panics, w) | Done p \<Rightarrow> (Returns p, w)))"

section \<open>Progress\<close>

text \<open>The amount of input still to come, the measure that receiving loops decrease.\<close>

fun transport_size :: "transport \<Rightarrow> nat" where
  "transport_size (UdpSocket ds) = length ds"
| "transport_size (TcpStream s _) = length s"

definition net_left :: "net \<Rightarrow> nat" where
  "net_left w = transport_size (net_in w)"

text \<open>
  A receive never runs past its timeout, and one that returns either takes input or lets the
  whole timeout pass.
\<close>

definition recv_step :: "nat \<Rightarrow> 'a outcome \<Rightarrow> net \<Rightarrow> net \<Rightarrow> bool" where
  "recv_step timeout r w w' \<longleftrightarrow>
     net_left w' \<le> net_left w \<and> net_now w \<le> net_now w' \<and> net_now w' \<le> net_now w + timeout \<and>
     (\<forall>x. r = Returns x \<longrightarrow> net_left w' < net_left w \<or> net_now w' = net_now w + timeout) \<and>
     net_sent w' = net_sent w \<and> net_send_error w' = net_send_error w"

lemma read_packet_within_size:
  assumes "read_packet_within s = (r, rest)"
  shows "(\<forall>p. r = Some (Inr p) \<longrightarrow> 2 + length p \<le> length s) \<and> (\<forall>e. r = Some (Inl e) \<longrightarrow> 2 \<le> length s)"
  using assms by (auto simp: read_packet_within_def Let_def split: if_splits)

lemma takeWhile_time:
  assumes "i < length (takeWhile (\<lambda>(t, _). t \<le> limit) s)"
  shows "fst (s ! i) \<le> limit"
  using nth_mem [OF assms] set_takeWhileD takeWhile_nth [OF assms]
  by (metis (mono_tags, lifting) case_prod_beta)

lemma recv_raw_step:
  assumes "recv_raw timeout w = (r, w')"
  shows "recv_step timeout r w w'"
proof (cases "net_in w")
  case (UdpSocket ds)
  with assms show ?thesis
    by (auto simp: recv_raw_def recv_step_def net_left_def Let_def split: list.splits if_splits sum.splits)
next
  case (TcpStream s eof)
  define avail where "avail = takeWhile (\<lambda>(t, _). t \<le> net_now w + timeout) s"
  have le: "length avail \<le> length s" by (simp add: avail_def length_takeWhile_le)
  have time: "fst (s ! i) \<le> net_now w + timeout" if "i < length avail" for i
    using takeWhile_time that by (simp add: avail_def)
  obtain q rest where q: "read_packet_within (map snd avail) = (q, rest)" by fastforce
  note size = read_packet_within_size [OF q]
  show ?thesis
  proof (cases q)
    case None
    with q TcpStream assms show ?thesis
      by (auto simp: recv_raw_def recv_step_def net_left_def Let_def simp flip: avail_def
          split: option.splits if_splits)
  next
    case (Some x)
    with size have "2 \<le> length avail" by (cases x) auto
    then have "fst (s ! 1) \<le> net_now w + timeout" "2 \<le> length s" using time le by auto
    moreover have "fst (s ! (1 + length p)) \<le> net_now w + timeout" "2 + length p \<le> length s"
      if "x = Inr p" for p using size Some that time [of "1 + length p"] le by auto
    ultimately show ?thesis using Some q TcpStream assms
      by (auto simp: recv_raw_def recv_step_def net_left_def Let_def simp flip: avail_def
          split: sum.splits)
  qed
qed

lemma recv_packet_step:
  assumes "recv_packet timeout w = (r, w')"
  shows "recv_step timeout r w w'"
proof -
  obtain r0 w0 where r0: "recv_raw timeout w = (r0, w0)" by fastforce
  with assms have "w' = w0"
    by (cases r0) (auto simp: recv_packet_def split: option.splits exec.splits)
  moreover have "\<exists>x. r0 = Returns x" if "r = Returns y" for y
    using assms that r0 by (cases r0) (auto simp: recv_packet_def)
  ultimately show ?thesis using recv_raw_step [OF r0] by (auto simp: recv_step_def)
qed

lemma recv_raw_less:
  assumes "fst (recv_raw (deadline - net_now w) w) = Returns x" "\<not> deadline \<le> net_now w"
  shows "net_left (snd (recv_raw (deadline - net_now w) w)) +
      (deadline - net_now (snd (recv_raw (deadline - net_now w) w))) < net_left w + (deadline - net_now w)"
proof -
  obtain w' where w: "recv_raw (deadline - net_now w) w = (Returns x, w')" using assms(1) by (metis prod.collapse)
  from recv_raw_step [OF w] assms(2) show ?thesis by (auto simp: w recv_step_def)
qed

text \<open>A packet that is received was on the input.\<close>

lemma recv_raw_takes:
  assumes "recv_raw timeout w = (Returns (Some b), w')"
  shows "net_left w' < net_left w"
proof (cases "net_in w")
  case (TcpStream s eof)
  define avail where "avail = takeWhile (\<lambda>(t, _). t \<le> net_now w + timeout) s"
  obtain q rest where q: "read_packet_within (map snd avail) = (q, rest)" by fastforce
  with TcpStream assms have "q = Some (Inr b)" "net_in w' = TcpStream (drop (2 + length b) s) eof"
    by (auto simp: recv_raw_def Let_def simp flip: avail_def split: option.splits sum.splits if_splits)
  moreover have "length avail \<le> length s" by (simp add: avail_def length_takeWhile_le)
  ultimately show ?thesis using read_packet_within_size [OF q] TcpStream by (auto simp: net_left_def)
qed (use assms in \<open>auto simp: recv_raw_def net_left_def Let_def split: list.splits if_splits sum.splits\<close>)

lemma recv_packet_takes:
  assumes "recv_packet timeout w = (Returns (Some p), w')"
  shows "net_left w' < net_left w"
proof -
  obtain r0 w0 where r0: "recv_raw timeout w = (r0, w0)" by fastforce
  with assms obtain b where "r0 = Returns (Some b)" "w' = w0"
    by (cases r0) (auto simp: recv_packet_def split: option.splits exec.splits)
  with r0 show ?thesis using recv_raw_takes by simp
qed

lemma send_raw_same:
  "send_raw p w = (r, w') \<Longrightarrow> net_in w' = net_in w \<and> net_now w' = net_now w \<and> net_send_error w' = net_send_error w"
  by (auto simp: send_raw_def Let_def split: transport.splits option.splits sum.splits)

end
