(* ===== verification/Ip_Addr.thy ===== *)
theory Ip_Addr
  imports Rust_Str
begin

text \<open>
  Parsing and printing of IP addresses as the Rust standard library does it
  (\<open>std::net::parser\<close>): the program parses pushed addresses, resolves literal hosts and
  accepts literal addresses as targets with it.
\<close>

datatype ipv4 = Ipv4 u8 u8 u8 u8
datatype ipv6 = Ipv6 "u16 list"
datatype ip_addr = V4 ipv4 | V6 ipv6

section \<open>Reading numbers\<close>

definition to_digit :: "nat \<Rightarrow> char \<Rightarrow> nat option" where
  "to_digit radix c =
     (let n = (of_char c :: nat);
          d = (if is_ascii_digit c then Some (n - 48)
               else if 97 \<le> n \<and> n \<le> 102 then Some (n - 87)
               else if 65 \<le> n \<and> n \<le> 70 then Some (n - 55)
               else None)
      in case d of None \<Rightarrow> None | Some v \<Rightarrow> if v < radix then Some v else None)"

fun read_digits :: "nat \<Rightarrow> string \<Rightarrow> nat list \<times> string" where
  "read_digits radix [] = ([], [])"
| "read_digits radix (c # cs) =
     (case to_digit radix c of
        None \<Rightarrow> ([], c # cs)
      | Some d \<Rightarrow> (let (ds, rest) = read_digits radix cs in (d # ds, rest)))"

definition read_number :: "nat \<Rightarrow> nat \<Rightarrow> bool \<Rightarrow> nat \<Rightarrow> string \<Rightarrow> (nat \<times> string) option" where
  "read_number radix max_digits allow_zero_prefix limit s =
     (let (ds, rest) = read_digits radix s; n = foldl (\<lambda>acc d. acc * radix + d) 0 ds in
      if max_digits < length ds \<or> ds = [] then None
      else if \<not> allow_zero_prefix \<and> hd ds = 0 \<and> 1 < length ds then None
      else if limit < n then None
      else Some (n, rest))"

definition read_given_char :: "char \<Rightarrow> string \<Rightarrow> string option" where
  "read_given_char c s = (case s of [] \<Rightarrow> None | x # xs \<Rightarrow> if x = c then Some xs else None)"

definition read_separator ::
  "char \<Rightarrow> nat \<Rightarrow> (string \<Rightarrow> ('a \<times> string) option) \<Rightarrow> string \<Rightarrow> ('a \<times> string) option" where
  "read_separator c i inner s =
     (if 0 < i then Option.bind (read_given_char c s) inner else inner s)"

section \<open>Addresses\<close>

abbreviation read_octet :: "nat \<Rightarrow> string \<Rightarrow> (nat \<times> string) option" where
  "read_octet i \<equiv> read_separator CHR ''.'' i (read_number 10 3 False 255)"

definition read_ipv4_addr :: "string \<Rightarrow> (ipv4 \<times> string) option" where
  "read_ipv4_addr s =
     Option.bind (read_octet 0 s) (\<lambda>(a, s).
     Option.bind (read_octet 1 s) (\<lambda>(b, s).
     Option.bind (read_octet 2 s) (\<lambda>(c, s).
     Option.bind (read_octet 3 s) (\<lambda>(d, s).
       Some (Ipv4 (of_nat a) (of_nat b) (of_nat c) (of_nat d), s)))))"

text \<open>
  \<open>read_groups\<close> reads at most \<open>limit\<close> colon-separated groups of hex digits, the last two
  of which may be written as a dotted IPv4 address; it stops without error where none
  follows.
\<close>

fun read_groups :: "nat \<Rightarrow> nat \<Rightarrow> nat \<Rightarrow> string \<Rightarrow> u16 list \<times> bool \<times> string" where
  "read_groups 0 limit i s = ([], False, s)"
| "read_groups (Suc k) limit i s =
     (case (if i < limit - 1 then read_separator CHR '':'' i read_ipv4_addr s else None) of
        Some (Ipv4 a b c d, rest) \<Rightarrow>
          ([u16_from_be_bytes [a, b], u16_from_be_bytes [c, d]], True, rest)
      | None \<Rightarrow>
          (case read_separator CHR '':'' i (read_number 16 4 True 65535) s of
             None \<Rightarrow> ([], False, s)
           | Some (g, rest) \<Rightarrow>
               (let (gs, v4, rest') = read_groups k limit (Suc i) rest
                in (of_nat g # gs, v4, rest'))))"

definition read_ipv6_addr :: "string \<Rightarrow> (ipv6 \<times> string) option" where
  "read_ipv6_addr s =
     (let (head, head_v4, rest) = read_groups 8 8 0 s in
      if length head = 8 then Some (Ipv6 head, rest)
      else if head_v4 then None
      else
        Option.bind (read_given_char CHR '':'' rest) (\<lambda>rest.
        Option.bind (read_given_char CHR '':'' rest) (\<lambda>rest.
          let limit = 8 - (length head + 1);
              (tail, _, rest) = read_groups limit limit 0 rest
          in Some (Ipv6 (head @ replicate (8 - length head - length tail) 0 @ tail), rest))))"

definition parse_with :: "(string \<Rightarrow> ('a \<times> string) option) \<Rightarrow> string \<Rightarrow> 'a option" where
  "parse_with p s = (case p s of Some (a, []) \<Rightarrow> Some a | _ \<Rightarrow> None)"

definition parse_ipv4 :: "string \<Rightarrow> ipv4 option" where
  "parse_ipv4 s = parse_with read_ipv4_addr s"

definition parse_ip_addr :: "string \<Rightarrow> ip_addr option" where
  "parse_ip_addr s =
     parse_with
       (\<lambda>s. case read_ipv4_addr s of
              Some (a, rest) \<Rightarrow> Some (V4 a, rest)
            | None \<Rightarrow> map_option (\<lambda>(a, rest). (V6 a, rest)) (read_ipv6_addr s)) s"

fun show_ipv4 :: "ipv4 \<Rightarrow> string" where
  "show_ipv4 (Ipv4 a b c d) =
     show_nat (unat a) @ ''.'' @ show_nat (unat b) @ ''.'' @ show_nat (unat c) @ ''.'' @
     show_nat (unat d)"

section \<open>Reading back a printed IPv4 address\<close>

definition no_digit :: "string \<Rightarrow> bool" where
  "no_digit s \<longleftrightarrow> (case s of [] \<Rightarrow> True | c # _ \<Rightarrow> \<not> is_ascii_digit c)"

lemma to_digit_10: "to_digit 10 c = (if is_ascii_digit c then Some (of_char c - 48) else None)"
  by (auto simp: to_digit_def is_ascii_digit_def Let_def)

lemma read_digits_dec:
  "\<forall>c \<in> set ds. is_ascii_digit c \<Longrightarrow> no_digit rest \<Longrightarrow>
     read_digits 10 (ds @ rest) = (map (\<lambda>c. of_char c - 48) ds, rest)"
  by (induction ds) (auto simp: no_digit_def to_digit_10 split: list.splits)

lemma digits_value_foldl:
  "\<forall>c \<in> set ds. is_ascii_digit c \<Longrightarrow>
     digits_value n ds = Some (foldl (\<lambda>acc d. acc * 10 + d) n (map (\<lambda>c. of_char c - 48) ds))"
  by (induction ds arbitrary: n) (auto simp: algebra_simps)

lemma show_nat_byte:
  "n < 256 \<Longrightarrow>
     show_nat n = (if n < 10 then [char_of (48 + n)]
       else if n < 100 then [char_of (48 + n div 10), char_of (48 + n mod 10)]
       else [char_of (48 + n div 100), char_of (48 + n div 10 mod 10), char_of (48 + n mod 10)])"
  by (auto simp: show_nat.simps [of n] show_nat.simps [of "n div 10"]
      show_nat.simps [of "n div 100"] div_mult2_eq [symmetric])

lemma read_number_show:
  assumes n: "n < 256" and r: "no_digit rest"
  shows "read_number 10 3 False 255 (show_nat n @ rest) = Some (n, rest)"
proof -
  let ?ds = "map (\<lambda>c. of_char c - 48) (show_nat n) :: nat list"
  have rd: "read_digits 10 (show_nat n @ rest) = (?ds, rest)"
    using show_nat_digits r by (intro read_digits_dec) auto
  have val: "foldl (\<lambda>acc d. acc * 10 + d) 0 ?ds = n"
    using digits_value_foldl [of "show_nat n" 0] show_nat_digits [of _ n] digits_value_show [of n]
    by auto
  have len: "length ?ds \<le> 3" and lead: "\<not> (hd ?ds = 0 \<and> 1 < length ?ds)"
    using n by (auto simp: show_nat_byte [OF n])
  show ?thesis
    using val len lead n by (auto simp: read_number_def rd Let_def)
qed

lemma no_digit_simps [simp]: "no_digit []" "no_digit (CHR ''.'' # s)"
  by (simp_all add: no_digit_def is_ascii_digit_def)

lemma unat_u8_less [simp]: "unat (w :: u8) < 256"
  using unsigned_less [of w, where 'a = nat] by simp

lemma read_ipv4_show: "read_ipv4_addr (show_ipv4 a) = Some (a, [])"
proof (cases a)
  case (Ipv4 a b c d)
  have "read_number 10 3 False 255 (show_nat (unat d)) = Some (unat d, [])"
    using read_number_show [of "unat d" "[]"] by simp
  then show ?thesis
    by (simp add: Ipv4 read_ipv4_addr_def read_separator_def read_given_char_def read_number_show)
qed

lemma parse_ipv4_show [simp]: "parse_ipv4 (show_ipv4 a) = Some a"
  by (simp add: parse_ipv4_def parse_with_def read_ipv4_show)

section \<open>The characters of an address\<close>

text \<open>
  A reader consumes characters of an address only: hex digits, dots and colons.
\<close>

definition ip_char :: "char \<Rightarrow> bool" where
  "ip_char c \<longleftrightarrow> to_digit 16 c \<noteq> None \<or> c = CHR ''.'' \<or> c = CHR '':''"

definition ip_step :: "string \<Rightarrow> string \<Rightarrow> bool" where
  "ip_step s rest \<longleftrightarrow> (\<exists>pre. s = pre @ rest \<and> list_all ip_char pre)"

lemma ip_step_refl [simp]: "ip_step s s"
  by (simp add: ip_step_def)

lemma ip_step_trans: "ip_step s t \<Longrightarrow> ip_step t u \<Longrightarrow> ip_step s u"
  unfolding ip_step_def by (metis append_assoc list_all_append)

lemma ip_step_Cons: "ip_char c \<Longrightarrow> ip_step s t \<Longrightarrow> ip_step (c # s) t"
  unfolding ip_step_def by (metis append_Cons list.pred_inject(2))

lemma to_digit_mono: "to_digit r c = Some d \<Longrightarrow> r \<le> 16 \<Longrightarrow> to_digit 16 c = Some d"
  by (auto simp: to_digit_def Let_def split: option.splits if_splits)

lemma read_digits_step: "read_digits r s = (ds, rest) \<Longrightarrow> r \<le> 16 \<Longrightarrow> ip_step s rest"
proof (induction s arbitrary: ds)
  case (Cons c s)
  then show ?case
    by (cases "to_digit r c")
      (auto simp: ip_char_def to_digit_mono split: prod.splits intro: ip_step_Cons)
qed simp

lemma read_number_step: "read_number r m z l s = Some (n, rest) \<Longrightarrow> r \<le> 16 \<Longrightarrow> ip_step s rest"
  by (auto simp: read_number_def Let_def split: prod.splits if_splits intro: read_digits_step)

lemma read_given_char_step: "read_given_char c s = Some rest \<Longrightarrow> ip_char c \<Longrightarrow> ip_step s rest"
  by (auto simp: read_given_char_def split: list.splits if_splits intro: ip_step_Cons)

lemma read_separator_step:
  assumes "read_separator c i inner s = Some (x, rest)" and "ip_char c"
    and "\<And>s x rest. inner s = Some (x, rest) \<Longrightarrow> ip_step s rest"
  shows "ip_step s rest"
  using assms
  by (auto simp: read_separator_def bind_eq_Some_conv split: if_splits
      intro: ip_step_trans read_given_char_step)

lemma ip_char_sep [simp]: "ip_char CHR ''.''" "ip_char CHR '':''"
  by (simp_all add: ip_char_def)

lemma read_octet_step: "read_octet i s = Some (n, rest) \<Longrightarrow> ip_step s rest"
  by (erule read_separator_step) (auto intro: read_number_step)

lemma read_ipv4_step: "read_ipv4_addr s = Some (a, rest) \<Longrightarrow> ip_step s rest"
  by (clarsimp simp: read_ipv4_addr_def bind_eq_Some_conv) (meson ip_step_trans read_octet_step)

lemma read_groups_step: "read_groups k l i s = (gs, v4, rest) \<Longrightarrow> ip_step s rest"
proof (induction k l i s arbitrary: gs v4 rule: read_groups.induct)
  case (2 k limit i s)
  let ?v4 = "if i < limit - 1 then read_separator CHR '':'' i read_ipv4_addr s else None"
  show ?case
  proof (cases ?v4)
    case None
    show ?thesis
    proof (cases "read_separator CHR '':'' i (read_number 16 4 True 65535) s")
      case None
      with \<open>?v4 = None\<close> "2.prems" show ?thesis by simp
    next
      case (Some gr)
      obtain g rest1 where gr: "gr = (g, rest1)" by fastforce
      obtain gs' v' where rec: "read_groups k limit (Suc i) rest1 = (gs', v', rest)"
        using "2.prems" Some \<open>?v4 = None\<close> gr by (auto split: prod.splits)
      have "ip_step s rest1"
        using Some gr by (auto elim!: read_separator_step intro: read_number_step)
      moreover have "ip_step rest1 rest"
        using "2.IH" [OF \<open>?v4 = None\<close> Some gr [symmetric]] rec by blast
      ultimately show ?thesis by (rule ip_step_trans)
    qed
  next
    case (Some ar)
    obtain a r where ar: "ar = (a, r)" by fastforce
    have "r = rest" using "2.prems" Some ar by (cases a) auto
    then show ?thesis
      using Some ar by (auto split: if_splits elim!: read_separator_step intro: read_ipv4_step)
  qed
qed simp

lemma read_groups_rest: "ip_step s (snd (snd (read_groups k l i s)))"
  by (metis prod.collapse read_groups_step)

lemma read_ipv6_step:
  assumes "read_ipv6_addr s = Some (a, rest)"
  shows "ip_step s rest"
proof -
  obtain head v4 r where head: "read_groups 8 8 0 s = (head, v4, r)" by (metis prod_cases3)
  then have s_r: "ip_step s r" by (rule read_groups_step)
  show ?thesis
  proof (cases "length head = 8")
    case True
    then show ?thesis using assms head s_r by (simp add: read_ipv6_addr_def)
  next
    case False
    then obtain r1 r2 where r1: "read_given_char CHR '':'' r = Some r1"
      and r2: "read_given_char CHR '':'' r1 = Some r2"
      and "rest = snd (snd (read_groups (7 - length head) (7 - length head) 0 r2))"
      using assms head
      by (auto simp: read_ipv6_addr_def bind_eq_Some_conv case_prod_beta Let_def split: if_splits)
    then have tl: "ip_step r2 rest" by (simp add: read_groups_rest)
    from r1 r2 have "ip_step r r1" "ip_step r1 r2" by (auto intro: read_given_char_step)
    with s_r tl show ?thesis by (blast intro: ip_step_trans)
  qed
qed

lemma parse_ip_addr_chars: "parse_ip_addr s = Some a \<Longrightarrow> list_all ip_char s"
proof -
  assume "parse_ip_addr s = Some a"
  then have "ip_step s []"
    by (auto simp: parse_ip_addr_def parse_with_def split: option.splits prod.splits list.splits
        dest!: read_ipv4_step read_ipv6_step)
  then show ?thesis by (simp add: ip_step_def)
qed

end
