(* ===== verification/Ovpn_Push.thy ===== *)
theory Ovpn_Push
  imports Ovpn_Packet Ip_Addr
begin

text \<open>
  The text messages of the control channel (\<open>parse_push\<close>, \<open>Pushed\<close> and \<open>take_message\<close> of
  \<open>src/openvpn/control.rs\<close>): finding a zero-terminated message in the plaintext buffer and
  reading the options of a push reply.
\<close>

section \<open>Push options\<close>

record pushed =
  pu_cipher :: "cipher option"
  pu_peer_id :: "peer_id option"
  pu_local :: "ipv4 option"
  pu_remote :: "ipv4 option"

definition pushed_default :: pushed where
  "pushed_default = \<lparr>pu_cipher = None, pu_peer_id = None, pu_local = None, pu_remote = None\<rparr>"

text \<open>The loop over the names of \<open>data-ciphers\<close>: the first name that is known.\<close>

fun first_cipher :: "string list \<Rightarrow> cipher option" where
  "first_cipher [] = None"
| "first_cipher (name # names) =
     (case cipher_parse name of Some parsed \<Rightarrow> Some parsed | None \<Rightarrow> first_cipher names)"

definition push_line :: "pushed \<Rightarrow> string \<Rightarrow> pushed" where
  "push_line pushed raw =
     (let line = trim raw in
      case strip_prefix line ''peer-id '' of
        Some peer \<Rightarrow>
          (case parse_u32 (trim peer) of Some n \<Rightarrow> pushed\<lparr>pu_peer_id := Some n\<rparr> | None \<Rightarrow> pushed)
      | None \<Rightarrow>
      (case strip_prefix line ''cipher '' of
        Some name \<Rightarrow>
          (case cipher_parse name of Some c \<Rightarrow> pushed\<lparr>pu_cipher := Some c\<rparr> | None \<Rightarrow> pushed)
      | None \<Rightarrow>
      (case strip_prefix line ''data-ciphers '' of
        Some names \<Rightarrow>
          (case first_cipher (split_on CHR '':'' names) of
             Some c \<Rightarrow> pushed\<lparr>pu_cipher := Some c\<rparr> | None \<Rightarrow> pushed)
      | None \<Rightarrow>
      (case strip_prefix line ''ifconfig '' of
        Some rest \<Rightarrow>
          let parts = split_whitespace rest in
          pushed\<lparr>pu_local := (case parts of [] \<Rightarrow> None | a # _ \<Rightarrow> parse_ipv4 a),
                 pu_remote := (case parts of _ # b # _ \<Rightarrow> parse_ipv4 b | _ \<Rightarrow> None)\<rparr>
      | None \<Rightarrow> pushed))))"

definition parse_push :: "string \<Rightarrow> pushed" where
  "parse_push reply = foldl push_line pushed_default (split_on CHR '','' reply)"

section \<open>Messages in the plaintext buffer\<close>

text \<open>\<open>buffer.windows(n).position(|window| window == prefix)\<close>.\<close>

fun find_window :: "bytes \<Rightarrow> bytes \<Rightarrow> nat option" where
  "find_window p [] = (if p = [] then Some 0 else None)"
| "find_window p (x # xs) =
     (if starts_with (x # xs) p then Some 0 else map_option Suc (find_window p xs))"

fun find_zero :: "bytes \<Rightarrow> nat option" where
  "find_zero [] = None"
| "find_zero (x # xs) = (if x = 0 then Some 0 else map_option Suc (find_zero xs))"

definition take_message :: "bytes \<Rightarrow> bytes \<Rightarrow> (string \<times> bytes) option" where
  "take_message buffer prefix =
     (case find_window prefix buffer of
        None \<Rightarrow> None
      | Some start \<Rightarrow>
          (case find_zero (drop start buffer) of
             None \<Rightarrow> None
           | Some offset \<Rightarrow>
               let stop = start + offset in
               Some (from_utf8_lossy (take offset (drop start buffer)), drop (Suc stop) buffer)))"

section \<open>What a push reply means\<close>

text \<open>
  The options a server may push, in the abstract, and how they are written. The reply means
  the options applied in order: a later option overrides an earlier one.
\<close>

datatype push_option =
    PushPeerId peer_id
  | PushCipher cipher
  | PushDataCiphers string cipher string
  | PushIfconfig ipv4 ipv4
  | PushOther string

fun print_option :: "push_option \<Rightarrow> string" where
  "print_option (PushPeerId n) = ''peer-id '' @ show_nat (unat n)"
| "print_option (PushCipher c) = ''cipher '' @ cipher_fmt c"
| "print_option (PushDataCiphers unknown c tail) =
     ''data-ciphers '' @ unknown @ '':'' @ cipher_fmt c @ '':'' @ tail"
| "print_option (PushIfconfig a b) = ''ifconfig '' @ show_ipv4 a @ '' '' @ show_ipv4 b"
| "print_option (PushOther s) = s"

fun apply_option :: "push_option \<Rightarrow> pushed \<Rightarrow> pushed" where
  "apply_option (PushPeerId n) p = p\<lparr>pu_peer_id := Some n\<rparr>"
| "apply_option (PushCipher c) p = p\<lparr>pu_cipher := Some c\<rparr>"
| "apply_option (PushDataCiphers _ c _) p = p\<lparr>pu_cipher := Some c\<rparr>"
| "apply_option (PushIfconfig a b) p = p\<lparr>pu_local := Some a, pu_remote := Some b\<rparr>"
| "apply_option (PushOther _) p = p"

definition known_prefixes :: "string list" where
  "known_prefixes = [''peer-id '', ''cipher '', ''data-ciphers '', ''ifconfig '']"

fun option_ok :: "push_option \<Rightarrow> bool" where
  "option_ok (PushDataCiphers unknown c tail) \<longleftrightarrow>
     list_all graphic unknown \<and> CHR '':'' \<notin> set unknown \<and> CHR '','' \<notin> set unknown \<and>
     cipher_parse unknown = None \<and>
     list_all graphic tail \<and> tail \<noteq> [] \<and> CHR '','' \<notin> set tail"
| "option_ok (PushOther s) \<longleftrightarrow>
     s \<noteq> [] \<and> graphic (hd s) \<and> graphic (last s) \<and> CHR '','' \<notin> set s \<and>
     list_all (\<lambda>p. \<not> starts_with s p) known_prefixes"
| "option_ok _ \<longleftrightarrow> True"

fun join_comma :: "string list \<Rightarrow> string" where
  "join_comma [] = []"
| "join_comma [s] = s"
| "join_comma (s # ss) = s @ '','' @ join_comma ss"

lemma graphic_consts [simp]:
  "graphic CHR ''p''" "graphic CHR ''c''" "graphic CHR ''d''" "graphic CHR ''i''" "graphic CHR '':''"
  "graphic CHR ''.''"
  by (simp_all add: graphic_def)

lemma cipher_fmt_graphic: "list_all graphic (cipher_fmt c)"
  by (cases c) (simp_all add: graphic_def)

lemma cipher_fmt_nonempty [simp]: "cipher_fmt c \<noteq> []"
  by (cases c) simp_all

lemma cipher_fmt_chars [simp]: "CHR '','' \<notin> set (cipher_fmt c)" "CHR '':'' \<notin> set (cipher_fmt c)"
  by (cases c; simp)+

lemma cipher_parse_fmt [simp]: "cipher_parse (cipher_fmt c) = Some c"
proof -
  have "trim (cipher_fmt c) = cipher_fmt c"
    using cipher_fmt_graphic [of c] by (intro trim_graphic) (auto simp: list_all_iff)
  then show ?thesis
    by (cases c) (simp_all add: cipher_parse_def to_ascii_uppercase_def char_upper_def is_ascii_lower_def)
qed

lemma show_ipv4_graphic: "list_all graphic (show_ipv4 a)"
  by (cases a) (simp add: show_nat_graphic)

lemma show_ipv4_nonempty [simp]: "show_ipv4 a \<noteq> []"
  by (cases a) simp

lemma show_nat_no_comma [simp]: "CHR '','' \<notin> set (show_nat n)"
  using show_nat_digits [of "CHR '',''" n] by (auto simp: is_ascii_digit_def)

lemma show_ipv4_no_comma [simp]: "CHR '','' \<notin> set (show_ipv4 a)"
  by (cases a) simp

lemma print_option_no_comma: "option_ok x \<Longrightarrow> CHR '','' \<notin> set (print_option x)"
  by (cases x) auto

lemma trim_append_graphic:
  "s \<noteq> [] \<Longrightarrow> graphic (hd s) \<Longrightarrow> list_all graphic t \<Longrightarrow> t \<noteq> [] \<Longrightarrow> trim (s @ t) = s @ t"
  by (rule trim_graphic) (auto simp: list_all_iff)

lemma trim_all_graphic: "list_all graphic t \<Longrightarrow> t \<noteq> [] \<Longrightarrow> trim t = t"
  by (rule trim_graphic) (auto simp: list_all_iff)

lemma push_line_print: "option_ok x \<Longrightarrow> push_line p (print_option x) = apply_option x p"
proof (cases x)
  case (PushPeerId n)
  have "trim (''peer-id '' @ show_nat (unat n)) = ''peer-id '' @ show_nat (unat n)"
    by (rule trim_append_graphic) (simp_all add: show_nat_graphic)
  then show ?thesis
    by (simp add: PushPeerId push_line_def strip_prefix_def starts_with_def trim_all_graphic show_nat_graphic)
next
  case (PushCipher c)
  have "trim (''cipher '' @ cipher_fmt c) = ''cipher '' @ cipher_fmt c"
    by (rule trim_append_graphic) (simp_all add: cipher_fmt_graphic)
  then show ?thesis by (simp add: PushCipher push_line_def strip_prefix_def starts_with_def)
next
  case (PushDataCiphers u c m)
  assume ok: "option_ok x"
  have "trim ((''data-ciphers '' @ u @ '':'' @ cipher_fmt c @ '':'') @ m) =
      (''data-ciphers '' @ u @ '':'' @ cipher_fmt c @ '':'') @ m"
    using ok by (intro trim_append_graphic) (simp_all add: PushDataCiphers)
  then show ?thesis using ok
    by (simp add: PushDataCiphers push_line_def strip_prefix_def starts_with_def split_on_append_sep)
next
  case (PushIfconfig a b)
  have "trim ((''ifconfig '' @ show_ipv4 a @ '' '') @ show_ipv4 b) =
      (''ifconfig '' @ show_ipv4 a @ '' '') @ show_ipv4 b"
    by (rule trim_append_graphic) (simp_all add: show_ipv4_graphic)
  then show ?thesis
    by (simp add: PushIfconfig push_line_def strip_prefix_def starts_with_def split_whitespace_two
        show_ipv4_graphic)
next
  case (PushOther s)
  assume ok: "option_ok x"
  then have "trim s = s" by (intro trim_graphic) (simp_all add: PushOther)
  with ok show ?thesis by (simp add: PushOther push_line_def strip_prefix_def known_prefixes_def)
qed

lemma split_on_join:
  "ss \<noteq> [] \<Longrightarrow> \<forall>s \<in> set ss. CHR '','' \<notin> set s \<Longrightarrow> split_on CHR '','' (join_comma ss) = ss"
  by (induction ss rule: join_comma.induct) (simp_all add: split_on_no_sep split_on_append_sep)

lemma foldl_push_print:
  "\<forall>x \<in> set opts. option_ok x \<Longrightarrow>
   foldl push_line p (map print_option opts) = fold apply_option opts p"
  by (induction opts arbitrary: p) (simp_all add: push_line_print)

text \<open>
  C32: reading a push reply gives the options it was printed from, applied in order, whatever
  other options stand between them.
\<close>

theorem parse_push_print:
  assumes "\<forall>x \<in> set opts. option_ok x" and "opts \<noteq> []"
  shows "parse_push (join_comma (map print_option opts)) = fold apply_option opts pushed_default"
proof -
  have "split_on CHR '','' (join_comma (map print_option opts)) = map print_option opts"
    using assms print_option_no_comma by (intro split_on_join) auto
  then show ?thesis using foldl_push_print [OF assms(1)] by (simp add: parse_push_def)
qed

theorem parse_push_print_witness:
  "parse_push (join_comma (map print_option [PushOther ''PUSH_REPLY'', PushCipher Aes128Cbc,
      PushIfconfig (Ipv4 10 8 0 6) (Ipv4 10 8 0 5), PushPeerId 3, PushCipher Aes256Gcm])) =
   \<lparr>pu_cipher = Some Aes256Gcm, pu_peer_id = Some 3, pu_local = Some (Ipv4 10 8 0 6),
    pu_remote = Some (Ipv4 10 8 0 5)\<rparr>"
proof -
  have "option_ok (PushOther ''PUSH_REPLY'')"
    by (simp add: known_prefixes_def starts_with_def graphic_def)
  then show ?thesis
    by (subst parse_push_print) (simp_all add: pushed_default_def)
qed

section \<open>Finding a message\<close>

lemma find_window_Some:
  assumes "find_window p xs = Some i"
  shows "i \<le> length xs \<and> starts_with (drop i xs) p \<and> (\<forall>j < i. \<not> starts_with (drop j xs) p)"
  using assms
proof (induction xs arbitrary: i)
  case (Cons x xs)
  show ?case
  proof (cases "starts_with (x # xs) p")
    case False
    with Cons.prems obtain k where k: "i = Suc k" "find_window p xs = Some k" by auto
    have "\<not> starts_with (drop j (x # xs)) p" if "j < i" for j
      using False Cons.IH [OF k(2)] that k(1) by (cases j) auto
    then show ?thesis using Cons.IH [OF k(2)] k(1) by simp
  qed (use Cons.prems in simp)
qed (auto simp: starts_with_def split: if_splits)

lemma find_window_None: "find_window p xs = None \<Longrightarrow> \<not> starts_with (drop j xs) p"
  by (induction xs arbitrary: j) (auto simp: starts_with_def drop_Cons split: if_splits nat.splits)

lemma find_zero_Some: "find_zero xs = Some i \<Longrightarrow> i < length xs \<and> xs ! i = 0 \<and> 0 \<notin> set (take i xs)"
  by (induction xs arbitrary: i) (auto split: if_splits)

lemma find_zero_None: "find_zero xs = None \<longleftrightarrow> 0 \<notin> set xs"
  by (induction xs) auto

lemma find_zero_append: "0 \<notin> set xs \<Longrightarrow> find_zero (xs @ 0 # ys) = Some (length xs)"
  by (induction xs) auto

lemma find_window_first:
  assumes "\<forall>j < length a. \<not> starts_with (drop j (a @ p @ b)) p"
  shows "find_window p (a @ p @ b) = Some (length a)"
  using assms
proof (induction a)
  case Nil
  then show ?case using starts_with_append [of p b] by (cases "p @ b") simp_all
next
  case (Cons x a)
  have "\<not> starts_with (x # a @ p @ b) p" using Cons.prems by (metis Cons_eq_appendI drop0 length_greater_0_conv list.discI)
  moreover have "\<forall>j < length a. \<not> starts_with (drop j (a @ p @ b)) p"
    using Cons.prems by (metis Cons_eq_appendI drop_Suc_Cons length_Cons Suc_mono)
  ultimately show ?case using Cons.IH by simp
qed

text \<open>
  \<open>take_message\<close> finds the first occurrence of the prefix and returns the text from it up
  to the next zero byte; the buffer keeps exactly what follows. While the terminator has not
  arrived it returns nothing, so no message is cut short by the way the plaintext is chunked.
\<close>

theorem take_message_exact:
  assumes "\<forall>j < length a. \<not> starts_with (drop j (a @ prefix @ b)) prefix"
    and "0 \<notin> set prefix" "0 \<notin> set b"
  shows "take_message (a @ prefix @ b @ 0 # rest) prefix = Some (from_utf8_lossy (prefix @ b), rest) \<and>
    take_message (a @ prefix @ b) prefix = None"
proof -
  have not: "\<forall>j < length a. \<not> starts_with (drop j (a @ prefix @ b @ 0 # rest)) prefix"
  proof (intro allI impI notI)
    fix j assume j: "j < length a" "starts_with (drop j (a @ prefix @ b @ 0 # rest)) prefix"
    have "drop j (a @ prefix @ b @ 0 # rest) = drop j (a @ prefix @ b) @ 0 # rest"
      using j(1) by simp
    moreover have "length prefix \<le> length (drop j (a @ prefix @ b))" using j(1) by simp
    ultimately have "starts_with (drop j (a @ prefix @ b)) prefix"
      using j(2) unfolding starts_with_def by (metis append_eq_append_conv_if take_all_iff take_append diff_is_0_eq take0 append_Nil2)
    then show False using assms(1) j(1) by blast
  qed
  from find_window_first [OF not] find_window_first [OF assms(1)] show ?thesis
    using find_zero_append [of "prefix @ b" rest] assms(2,3)
    by (simp add: take_message_def find_zero_None [THEN iffD2])
qed

theorem take_message_exact_witness:
  "take_message ([9, 0] @ [80, 85] @ [65] @ 0 # [7]) [80, 85] = Some (''PUA'', [7]) \<and>
   take_message ([9, 0] @ [80, 85] @ [65]) [80, 85] = None"
proof -
  have u: "from_utf8_lossy [80, 85, 65] = ''PUA''"
    using from_utf8_lossy_ascii [of "''PUA''"] by (simp add: is_ascii_def byte_of_def)
  have "\<forall>j < length [9, 0 :: u8]. \<not> starts_with (drop j ([9, 0] @ [80, 85] @ [65])) [80, 85 :: u8]"
    by (simp add: starts_with_def less_Suc_eq)
  from take_message_exact [OF this, of "[7]"] show ?thesis using u by simp
qed

end
