(* ===== verification/Replay.thy ===== *)
theory Replay
  imports Prelude
begin

text \<open>
  The sliding replay window of the data channel (\<open>src/openvpn/crypto/replay.rs\<close>).
  The window keeps the highest accepted packet id and a 64-bit mask of the ids just below
  it. The abstract specification keeps the whole set of accepted ids; the window refines it.
  The window is owned by one \<open>Control\<close>, which takes it by exclusive reference, so the
  atomic and the mutex of the source are plain fields here.
\<close>

section \<open>The window\<close>

record replay_window =
  rw_last :: u32
  rw_bits :: u64
  rw_window :: u32

definition replay_new :: replay_window where
  "replay_new = \<lparr>rw_last = 0, rw_bits = 0, rw_window = 64\<rparr>"

definition replay_accept :: "replay_window \<Rightarrow> u32 \<Rightarrow> bool \<times> replay_window" where
  "replay_accept w pid =
     (if pid = 0 then (False, w)
      else if rw_last w < pid then
        let shift = pid - rw_last w;
            moved = (if rw_window w \<le> shift then 0 else push_bit (unat shift) (rw_bits w))
        in (True, w\<lparr>rw_bits := moved OR 1, rw_last := pid\<rparr>)
      else
        let behind = rw_last w - pid in
        if rw_window w \<le> behind then (False, w)
        else
          let mask = push_bit (unat behind) 1 in
          if rw_bits w AND mask \<noteq> 0 then (False, w)
          else (True, w\<lparr>rw_bits := rw_bits w OR mask\<rparr>))"

text \<open>The packets a receiver lets through, in the order they came.\<close>

fun replay_run :: "('w \<Rightarrow> u32 \<Rightarrow> bool \<times> 'w) \<Rightarrow> 'w \<Rightarrow> u32 list \<Rightarrow> u32 list \<times> 'w" where
  "replay_run acc w [] = ([], w)"
| "replay_run acc w (pid # ids) =
     (let (ok, w') = acc w pid; (rest, w'') = replay_run acc w' ids
      in (if ok then pid # rest else rest, w''))"

section \<open>Specification\<close>

text \<open>
  An id is let through when it is not zero, was not let through before, and is less than 64
  behind the highest id let through.
\<close>

definition replay_spec :: "nat set \<Rightarrow> nat \<Rightarrow> bool" where
  "replay_spec S pid \<longleftrightarrow> pid \<noteq> 0 \<and> pid \<notin> S \<and> (\<forall>x \<in> S. x < pid + 64)"

definition replay_rel :: "replay_window \<Rightarrow> nat set \<Rightarrow> bool" where
  "replay_rel w S \<longleftrightarrow>
     rw_window w = 64 \<and> (\<forall>x \<in> S. 0 < x \<and> x \<le> unat (rw_last w)) \<and>
     (rw_last w = 0 \<or> unat (rw_last w) \<in> S) \<and>
     (\<forall>b < 64. bit (rw_bits w) b \<longleftrightarrow> b < unat (rw_last w) \<and> unat (rw_last w) - b \<in> S)"

lemma replay_rel_new: "replay_rel replay_new {}"
  by (simp add: replay_rel_def replay_new_def)

lemma and_mask_nonzero_iff: "rw_bits w AND push_bit n 1 \<noteq> 0 \<longleftrightarrow> bit (rw_bits w) n"
  by (auto simp: and_exp_eq_0_iff_not_bit push_bit_of_1)

lemma replay_accept_newer:
  assumes rel: "replay_rel w S" and newer: "rw_last w < pid"
  shows "fst (replay_accept w pid)"
    and "replay_rel (snd (replay_accept w pid)) (insert (unat pid) S)"
proof -
  let ?l = "unat (rw_last w)" and ?i = "unat pid"
  define shift where "shift = pid - rw_last w"
  define moved where "moved = (if rw_window w \<le> shift then 0 else push_bit (unat shift) (rw_bits w))"
  have li: "?l < ?i" and id0: "pid \<noteq> 0"
    using newer by (auto simp: word_less_nat_alt)
  have sh: "unat shift = ?i - ?l"
    using newer by (simp add: shift_def unat_sub less_imp_le)
  have acc: "replay_accept w pid = (True, w\<lparr>rw_bits := moved OR 1, rw_last := pid\<rparr>)"
    using newer id0 by (simp add: replay_accept_def moved_def shift_def Let_def)
  have win: "rw_window w = 64" using rel by (simp add: replay_rel_def)
  have big: "rw_window w \<le> shift \<longleftrightarrow> 64 \<le> ?i - ?l"
    by (simp add: win word_le_nat_alt sh)
  have old: "\<And>b. b < 64 \<Longrightarrow> bit (rw_bits w) b \<longleftrightarrow> b < ?l \<and> ?l - b \<in> S"
    and bound: "\<And>x. x \<in> S \<Longrightarrow> 0 < x \<and> x \<le> ?l"
    using rel by (auto simp: replay_rel_def)
  have bits': "bit (moved OR 1) b \<longleftrightarrow> b < ?i \<and> ?i - b \<in> insert ?i S" if b: "b < 64" for b
  proof (cases "b = 0")
    case True
    then show ?thesis using li by (simp add: bit_simps)
  next
    case False
    then have "?i - b \<in> insert ?i S \<longleftrightarrow> ?i - b \<in> S" using li by auto
    moreover have "bit (moved OR 1) b \<longleftrightarrow> ?i - ?l \<le> b \<and> bit (rw_bits w) (b - (?i - ?l))"
      using False b by (auto simp: moved_def big sh bit_simps)
    moreover have "?i - ?l \<le> b \<and> bit (rw_bits w) (b - (?i - ?l)) \<longleftrightarrow> b < ?i \<and> ?i - b \<in> S"
    proof (cases "?i - ?l \<le> b")
      case True
      have "bit (rw_bits w) (b - (?i - ?l)) \<longleftrightarrow> b - (?i - ?l) < ?l \<and> ?l - (b - (?i - ?l)) \<in> S"
        using b by (intro old) simp
      moreover have "?l - (b - (?i - ?l)) = ?i - b" and "b - (?i - ?l) < ?l \<longleftrightarrow> b < ?i"
        using True li by auto
      ultimately show ?thesis using True by simp
    next
      case False
      then have "?l < ?i - b" by simp
      then have "?i - b \<notin> S" using bound by fastforce
      then show ?thesis using False by simp
    qed
    ultimately show ?thesis by simp
  qed
  show "fst (replay_accept w pid)" by (simp add: acc)
  show "replay_rel (snd (replay_accept w pid)) (insert (unat pid) S)"
    using bits' bound li win by (auto simp: acc replay_rel_def) (meson bound le_trans less_imp_le)+
qed

lemma replay_accept_older:
  assumes rel: "replay_rel w S" and nz: "pid \<noteq> 0" and older: "\<not> rw_last w < pid"
  shows "fst (replay_accept w pid) \<longleftrightarrow> unat (rw_last w) - unat pid < 64 \<and> unat pid \<notin> S"
    and "replay_rel (snd (replay_accept w pid))
           (if fst (replay_accept w pid) then insert (unat pid) S else S)"
proof -
  let ?l = "unat (rw_last w)" and ?i = "unat pid"
  define behind where "behind = rw_last w - pid"
  have il: "?i \<le> ?l" and i0: "0 < ?i"
    using older nz by (auto simp: word_less_nat_alt unat_gt_0)
  have be: "unat behind = ?l - ?i"
    using older by (simp add: behind_def unat_sub linorder_not_less)
  have win: "rw_window w = 64" using rel by (simp add: replay_rel_def)
  have far: "rw_window w \<le> behind \<longleftrightarrow> \<not> ?l - ?i < 64"
    by (auto simp: win word_le_nat_alt be)
  have old: "\<And>b. b < 64 \<Longrightarrow> bit (rw_bits w) b \<longleftrightarrow> b < ?l \<and> ?l - b \<in> S"
    using rel by (auto simp: replay_rel_def)
  have seen: "bit (rw_bits w) (?l - ?i) \<longleftrightarrow> ?i \<in> S" if "?l - ?i < 64"
    using old [OF that] il i0 by auto
  have acc: "replay_accept w pid =
      (if \<not> ?l - ?i < 64 \<or> ?i \<in> S then (False, w)
       else (True, w\<lparr>rw_bits := rw_bits w OR push_bit (?l - ?i) 1\<rparr>))"
    using nz older far seen and_mask_nonzero_iff [of w "?l - ?i"]
    by (auto simp: replay_accept_def Let_def be behind_def [symmetric])
  show fst_iff: "fst (replay_accept w pid) \<longleftrightarrow> ?l - ?i < 64 \<and> ?i \<notin> S"
    by (simp add: acc)
  show "replay_rel (snd (replay_accept w pid))
           (if fst (replay_accept w pid) then insert (unat pid) S else S)"
  proof (cases "fst (replay_accept w pid)")
    case False
    then show ?thesis using rel by (auto simp: acc split: if_splits)
  next
    case True
    then have near: "?l - ?i < 64" and fresh: "?i \<notin> S" by (auto simp: fst_iff)
    have "bit (rw_bits w OR push_bit (?l - ?i) 1) b \<longleftrightarrow> b < ?l \<and> ?l - b \<in> insert ?i S"
      if b: "b < 64" for b
      using old [OF b] b il i0 by (auto simp: bit_simps bit_1_iff)
    then show ?thesis
      using rel near fresh il i0 by (auto simp: acc replay_rel_def)
  qed
qed

text \<open>One step of the window is one step of the specification.\<close>

lemma replay_accept_sim:
  assumes rel: "replay_rel w S"
  shows "fst (replay_accept w pid) \<longleftrightarrow> replay_spec S (unat pid)"
    and "replay_rel (snd (replay_accept w pid))
           (if fst (replay_accept w pid) then insert (unat pid) S else S)"
proof -
  have bound: "\<And>x. x \<in> S \<Longrightarrow> 0 < x \<and> x \<le> unat (rw_last w)"
    and top: "rw_last w = 0 \<or> unat (rw_last w) \<in> S"
    using rel by (auto simp: replay_rel_def)
  consider (zero) "pid = 0" | (newer) "rw_last w < pid" | (older) "pid \<noteq> 0" "\<not> rw_last w < pid"
    by blast
  then have "(fst (replay_accept w pid) \<longleftrightarrow> replay_spec S (unat pid)) \<and>
      replay_rel (snd (replay_accept w pid))
           (if fst (replay_accept w pid) then insert (unat pid) S else S)"
  proof cases
    case zero
    then show ?thesis using rel by (simp add: replay_accept_def replay_spec_def)
  next
    case newer
    then have "unat (rw_last w) < unat pid" by (simp add: word_less_nat_alt)
    then have "replay_spec S (unat pid)"
      using bound by (fastforce simp: replay_spec_def)
    then show ?thesis using replay_accept_newer [OF rel newer] by simp
  next
    case older
    have "unat pid \<le> unat (rw_last w)" "0 < unat pid"
      using older by (auto simp: word_less_nat_alt unat_gt_0)
    then have "replay_spec S (unat pid) \<longleftrightarrow>
        unat (rw_last w) - unat pid < 64 \<and> unat pid \<notin> S"
      using bound top by (force simp: replay_spec_def)
    then show ?thesis using replay_accept_older [OF rel older] by simp
  qed
  then show "fst (replay_accept w pid) \<longleftrightarrow> replay_spec S (unat pid)"
    and "replay_rel (snd (replay_accept w pid))
           (if fst (replay_accept w pid) then insert (unat pid) S else S)"
    by blast+
qed

section \<open>What a receiver relies on\<close>

text \<open>
  The contract of a replay filter: a relation between its state and the set of ids it has let
  through, kept by every call, under which a let-through id is fresh and a new highest id is
  never refused.
\<close>

locale replay_filter =
  fixes init :: 'w
    and acc :: "'w \<Rightarrow> u32 \<Rightarrow> bool \<times> 'w"
    and rel :: "'w \<Rightarrow> nat set \<Rightarrow> bool"
  assumes rel_init: "rel init {}"
    and acc_rel: "rel w S \<Longrightarrow> rel (snd (acc w pid)) (if fst (acc w pid) then insert (unat pid) S else S)"
    and acc_fresh: "rel w S \<Longrightarrow> fst (acc w pid) \<Longrightarrow> unat pid \<notin> S"
    and acc_newer: "rel w S \<Longrightarrow> pid \<noteq> 0 \<Longrightarrow> \<forall>x \<in> S. x < unat pid \<Longrightarrow> fst (acc w pid)"
begin

lemma run_rel:
  "rel w S \<Longrightarrow> rel (snd (replay_run acc w ids)) (S \<union> unat ` set (fst (replay_run acc w ids)))"
proof (induction ids arbitrary: w S)
  case (Cons pid ids)
  from acc_rel [OF Cons.prems]
  have "rel (snd (acc w pid)) (if fst (acc w pid) then insert (unat pid) S else S)" .
  from Cons.IH [OF this] show ?case
    by (auto simp: case_prod_beta split: if_splits)
qed simp

lemma run_fresh:
  "rel w S \<Longrightarrow> distinct (fst (replay_run acc w ids)) \<and> unat ` set (fst (replay_run acc w ids)) \<inter> S = {}"
proof (induction ids arbitrary: w S)
  case (Cons pid ids)
  show ?case
  proof (cases "fst (acc w pid)")
    case True
    then have "rel (snd (acc w pid)) (insert (unat pid) S)"
      using acc_rel [OF Cons.prems, of pid] by simp
    from Cons.IH [OF this] acc_fresh [OF Cons.prems True] True show ?thesis
      by (auto simp: case_prod_beta)
  next
    case False
    then have "rel (snd (acc w pid)) S"
      using acc_rel [OF Cons.prems, of pid] by simp
    from Cons.IH [OF this] False show ?thesis by (simp add: case_prod_beta)
  qed
qed simp

lemma run_distinct: "distinct (fst (replay_run acc init ids))"
  using run_fresh [OF rel_init] by blast

lemma run_increasing_from:
  "rel w S \<Longrightarrow> sorted_wrt (<) ids \<Longrightarrow> \<forall>p \<in> set ids. p \<noteq> 0 \<and> (\<forall>x \<in> S. x < unat p) \<Longrightarrow>
     fst (replay_run acc w ids) = ids"
proof (induction ids arbitrary: w S)
  case (Cons pid ids)
  have ok: "fst (acc w pid)"
    using Cons.prems by (intro acc_newer) auto
  then have "rel (snd (acc w pid)) (insert (unat pid) S)"
    using acc_rel [OF Cons.prems(1), of pid] by simp
  moreover have "\<forall>p \<in> set ids. p \<noteq> 0 \<and> (\<forall>x \<in> insert (unat pid) S. x < unat p)"
    using Cons.prems by (auto simp: word_less_nat_alt)
  ultimately have "fst (replay_run acc (snd (acc w pid)) ids) = ids"
    using Cons.IH Cons.prems(2) by simp
  then show ?case using ok by (simp add: case_prod_beta)
qed simp

lemma run_increasing:
  "sorted_wrt (<) ids \<Longrightarrow> 0 \<notin> set ids \<Longrightarrow> fst (replay_run acc init ids) = ids"
  by (rule run_increasing_from [OF rel_init]) auto

end

interpretation win: replay_filter replay_new replay_accept replay_rel
proof unfold_locales
  show "replay_rel replay_new {}" by (rule replay_rel_new)
next
  fix w S pid
  assume rel: "replay_rel w S"
  show "replay_rel (snd (replay_accept w pid))
          (if fst (replay_accept w pid) then insert (unat pid) S else S)"
    by (rule replay_accept_sim [OF rel])
  show "unat pid \<notin> S" if "fst (replay_accept w pid)"
    using that replay_accept_sim(1) [OF rel] by (simp add: replay_spec_def)
  show "fst (replay_accept w pid)" if "pid \<noteq> 0" "\<forall>x \<in> S. x < unat pid"
    using that replay_accept_sim(1) [OF rel, of pid]
    by (auto simp: replay_spec_def unat_eq_zero trans_less_add1)
qed

section \<open>Properties\<close>

text \<open>
  C2: after any history of packet ids, the window lets an id through exactly when the
  set-based specification does, for the set of ids it let through before: a fresh id that is
  not zero and less than 64 behind the highest one.
\<close>

theorem replay_window_exact:
  "fst (replay_accept (snd (replay_run replay_accept replay_new ids)) pid) \<longleftrightarrow>
   replay_spec (unat ` set (fst (replay_run replay_accept replay_new ids))) (unat pid)"
  using replay_accept_sim(1) [OF win.run_rel [OF replay_rel_new]] by simp

text \<open>
  No packet id is let through twice, whatever sequence of ids arrives.
\<close>

theorem replay_never_twice: "distinct (fst (replay_run replay_accept replay_new ids))"
  by (rule win.run_distinct)

text \<open>
  Packets that arrive in order (strictly increasing ids, none of them zero) are all let
  through: the window drops no traffic of a well-behaved peer.
\<close>

theorem replay_in_order_complete:
  "sorted_wrt (<) ids \<Longrightarrow> 0 \<notin> set ids \<Longrightarrow>
     fst (replay_run replay_accept replay_new ids) = ids"
  by (rule win.run_increasing)

theorem replay_in_order_complete_witness:
  "fst (replay_run replay_accept replay_new [1, 2, 70, 1000]) = [1, 2, 70, 1000]"
  by (rule replay_in_order_complete) simp_all

end
