(* ===== verification/Ovpn_Control.thy ===== *)
theory Ovpn_Control
  imports Ovpn_Net Ovpn_Push Replay "HOL-Library.AList"
begin

text \<open>
  The OpenVPN client's control and data channel (\<open>Control\<close> in \<open>src/openvpn/control.rs\<close>):
  sending and acknowledging control packets, delivering received ones to TLS in order, the
  key exchange, and sending and receiving data packets. Random bytes are arguments. A loop
  that runs until a deadline is a recursive function on the world: it ends because every
  round takes input or lets time pass.
\<close>

section \<open>State\<close>

definition HANDSHAKE_TIMEOUT :: nat where [consts_defs]: "HANDSHAKE_TIMEOUT = 20000"

record keys =
  ky_encrypt :: data_cipher
  ky_decrypt :: data_cipher

record 's control =
  ct_net :: net
  ct_tls :: "'s tls_state"
  ct_session_id :: bytes
  ct_remote_session_id :: bytes
  ct_next_packet_id :: u32
  ct_cipher :: cipher
  ct_auth :: auth
  ct_keys :: "keys option"
  ct_seed :: "seed_data option"
  ct_peer_id :: peer_id
  ct_send_counter :: u32
  ct_replay :: replay_window
  ct_acked :: "u32 list"
  ct_last_payload :: bytes
  ct_recv_next :: u32
  ct_reorder :: "(u32 \<times> bytes) list"

abbreviation now :: "'s control \<Rightarrow> nat" where
  "now c \<equiv> net_now (ct_net c)"

abbreviation left :: "'s control \<Rightarrow> nat" where
  "left c \<equiv> net_left (ct_net c)"

text \<open>Running an operation of the transport or of TLS on the field of the control state.\<close>

definition on_net :: "(net \<Rightarrow> 'a outcome \<times> net) \<Rightarrow> 's control \<Rightarrow> 'a outcome \<times> 's control" where
  "on_net f c = (let (r, w) = f (ct_net c) in (r, c\<lparr>ct_net := w\<rparr>))"

definition on_tls :: "('s tls_state \<Rightarrow> 'a outcome \<times> 's tls_state) \<Rightarrow> 's control \<Rightarrow> 'a outcome \<times> 's control" where
  "on_tls f c = (let (r, t) = f (ct_tls c) in (r, c\<lparr>ct_tls := t\<rparr>))"

definition take_outbound :: "'s control \<Rightarrow> bytes \<times> 's control" where
  "take_outbound c = (let (out, t) = tls_take_outbound (ct_tls c) in (out, c\<lparr>ct_tls := t\<rparr>))"

definition take_plaintext :: "'s control \<Rightarrow> bytes option \<times> 's control" where
  "take_plaintext c = (let (out, t) = tls_take_plaintext (ct_tls c) in (out, c\<lparr>ct_tls := t\<rparr>))"

section \<open>Sending control packets\<close>

definition record_ack :: "u32 \<Rightarrow> 's control \<Rightarrow> 's control" where
  "record_ack packet_id c =
     (if packet_id \<in> set (ct_acked c) then c
      else c\<lparr>ct_acked := take MAX_ACKS (packet_id # ct_acked c)\<rparr>)"

definition write_acks :: "'s control \<Rightarrow> bytes" where
  "write_acks c = encode_acks (ct_acked c) (ct_remote_session_id c)"

definition send_ack :: "u32 \<Rightarrow> 's control \<Rightarrow> unit outcome \<times> 's control" where
  "send_ack packet_id c =
     (let c = record_ack packet_id c in
      on_net (send_raw (ack_packet (ct_session_id c) (write_acks c))) c)"

definition send_control :: "bytes \<Rightarrow> 's control \<Rightarrow> unit outcome \<times> 's control" where
  "send_control payload c =
     (let packet_id = ct_next_packet_id c;
          c = c\<lparr>ct_next_packet_id := ct_next_packet_id c + 1\<rparr>;
          out = control_packet (ct_session_id c) (write_acks c) packet_id payload;
          c = c\<lparr>ct_last_payload := payload\<rparr> in
      on_net (send_raw out) c)"

function send_chunks :: "bytes \<Rightarrow> nat \<Rightarrow> 's control \<Rightarrow> unit outcome \<times> 's control" where
  "send_chunks data offset c =
     (if offset < length data
      then
        let stop = min (offset + MAX_CONTROL_PAYLOAD) (length data) in
        and_then (send_control (take (stop - offset) (drop offset data)) c) (\<lambda>_ c.
          send_chunks data stop c)
      else (Returns (), c))"
  by pat_completeness auto
termination
  by (relation "measure (\<lambda>(data, offset, c). length data - offset)") (auto simp: MAX_CONTROL_PAYLOAD_def)

declare send_chunks.simps [simp del]

definition send_control_chunks :: "bytes \<Rightarrow> 's control \<Rightarrow> unit outcome \<times> 's control" where
  "send_control_chunks data c = send_chunks data 0 c"

definition flush_tls :: "'s control \<Rightarrow> unit outcome \<times> 's control" where
  "flush_tls c =
     (let (outbound, c) = take_outbound c in
      if outbound = [] then (Returns (), c) else send_control_chunks outbound c)"

definition retransmit_control :: "'s control \<Rightarrow> unit outcome \<times> 's control" where
  "retransmit_control c =
     (let payload = ct_last_payload c in
      if payload = [] then (Returns (), c)
      else
        let packet_id = ct_next_packet_id c;
            c = c\<lparr>ct_next_packet_id := ct_next_packet_id c + 1\<rparr> in
        on_net (send_raw (control_packet (ct_session_id c) [0] packet_id payload)) c)"

section \<open>Receiving control packets\<close>

lemma delete_shrinks: "map_of xs k = Some v \<Longrightarrow> length (AList.delete k xs) < length xs"
  using length_filter_less [of "(k, v)" xs "\<lambda>(k', _). k \<noteq> k'"]
  by (simp add: AList.delete_eq map_of_SomeD)

text \<open>
  The loop that hands the packets of the reorder buffer to TLS while the next one is there.
  The buffer is an association list with distinct keys.
\<close>

function feed_ready :: "'s ssl \<Rightarrow> 's control \<Rightarrow> unit outcome \<times> 's control" where
  "feed_ready S c =
     (case map_of (ct_reorder c) (ct_recv_next c) of
        None \<Rightarrow> (Returns (), c)
      | Some payload \<Rightarrow>
          and_then (on_tls (tls_feed S payload)
                     (c\<lparr>ct_reorder := AList.delete (ct_recv_next c) (ct_reorder c)\<rparr>)) (\<lambda>_ c.
            feed_ready S (c\<lparr>ct_recv_next := ct_recv_next c + 1\<rparr>)))"
  by pat_completeness auto
termination
  by (relation "measure (\<lambda>(S, c). length (ct_reorder c))") (auto simp: on_tls_def delete_shrinks split: prod.splits)

declare feed_ready.simps [simp del]

definition accept_control :: "'s ssl \<Rightarrow> u32 \<Rightarrow> bytes \<Rightarrow> 's control \<Rightarrow> unit outcome \<times> 's control" where
  "accept_control S packet_id payload c =
     (if packet_id < ct_recv_next c then (Returns (), c)
      else if ct_recv_next c < packet_id then
        (Returns (),
         if length (ct_reorder c) < 32
         then c\<lparr>ct_reorder := AList.update packet_id payload (ct_reorder c)\<rparr> else c)
      else
        and_then (on_tls (tls_feed S payload) c) (\<lambda>_ c.
          feed_ready S (c\<lparr>ct_recv_next := ct_recv_next c + 1\<rparr>)))"

text \<open>What \<open>pump\<close> and \<open>recv_data\<close> do with a control packet.\<close>

definition handle_control :: "'s ssl \<Rightarrow> packet \<Rightarrow> 's control \<Rightarrow> unit outcome \<times> 's control" where
  "handle_control S p c =
     and_then (send_ack (pk_packet_id p) c) (\<lambda>_ c.
     and_then (accept_control S (pk_packet_id p) (pk_payload p) c) (\<lambda>_ c.
     and_then (on_tls (tls_drive S) c) (\<lambda>_ c.
       flush_tls c)))"

section \<open>What does not touch the input\<close>

text \<open>
  Only receiving takes input or time, and only installing keys and receiving data touch the
  keys and the replay window; everything else leaves them alone.
\<close>

definition idle :: "'s control \<Rightarrow> 's control \<Rightarrow> bool" where
  "idle c c' \<longleftrightarrow>
     net_in (ct_net c') = net_in (ct_net c) \<and> now c' = now c \<and> ct_keys c' = ct_keys c \<and>
     ct_replay c' = ct_replay c \<and> ct_cipher c' = ct_cipher c \<and> ct_auth c' = ct_auth c \<and>
     ct_send_counter c' = ct_send_counter c"

lemma idle_refl [simp]: "idle c c"
  by (simp add: idle_def)

lemma idle_trans: "idle a b \<Longrightarrow> idle b c \<Longrightarrow> idle a c"
  by (simp add: idle_def)

lemma idle_left: "idle c c' \<Longrightarrow> left c' = left c \<and> now c' = now c"
  by (simp add: idle_def net_left_def)

lemma on_net_send_idle: "on_net (send_raw b) c = (r, c') \<Longrightarrow> idle c c'"
  by (auto simp: on_net_def idle_def split: prod.splits dest: send_raw_same)

lemma on_tls_idle: "on_tls f c = (r, c') \<Longrightarrow> idle c c'"
  by (auto simp: on_tls_def idle_def split: prod.splits)

lemma and_then_idle:
  assumes "and_then m f = (r, c')" "\<And>x d. m = (x, d) \<Longrightarrow> idle c d"
    "\<And>x d. m = (Returns x, d) \<Longrightarrow> f x d = (r, c') \<Longrightarrow> idle d c'"
  shows "idle c c'"
proof -
  obtain x d where m: "m = (x, d)" by fastforce
  show ?thesis
    using assms(1) assms(2) [OF m] assms(3) idle_trans unfolding m by (cases x) auto
qed

lemma record_ack_idle: "idle c (record_ack n c)"
  by (simp add: record_ack_def idle_def)

lemma send_ack_idle: "send_ack n c = (r, c') \<Longrightarrow> idle c c'"
  unfolding send_ack_def Let_def by (metis idle_trans on_net_send_idle record_ack_idle)

lemma idle_update [simp]:
  "idle (c\<lparr>ct_next_packet_id := n\<rparr>) c' = idle c c'" "idle (c\<lparr>ct_last_payload := p\<rparr>) c' = idle c c'"
  "idle (c\<lparr>ct_tls := t\<rparr>) c' = idle c c'" "idle (c\<lparr>ct_recv_next := m\<rparr>) c' = idle c c'"
  "idle (c\<lparr>ct_reorder := b\<rparr>) c' = idle c c'" "idle c (c'\<lparr>ct_reorder := b\<rparr>) = idle c c'"
  "idle c (c'\<lparr>ct_tls := t\<rparr>) = idle c c'"
  by (simp_all add: idle_def)

lemma send_control_idle: "send_control p c = (r, c') \<Longrightarrow> idle c c'"
  unfolding send_control_def Let_def by (drule on_net_send_idle) simp

lemma send_chunks_idle: "send_chunks data offset c = (r, c') \<Longrightarrow> idle c c'"
proof (induction data offset c rule: send_chunks.induct)
  case (1 data offset c)
  show ?case
  proof (cases "offset < length data")
    case True
    let ?stop = "min (offset + MAX_CONTROL_PAYLOAD) (length data)"
    have "and_then (send_control (take (?stop - offset) (drop offset data)) c)
        (\<lambda>_ c. send_chunks data ?stop c) = (r, c')"
      using "1.prems" True by (simp add: send_chunks.simps [of data offset c] Let_def)
    then show ?thesis
      by (rule and_then_idle) (use "1.IH" [OF True refl] send_control_idle in force)+
  qed (use "1.prems" in \<open>simp add: send_chunks.simps [of data offset c]\<close>)
qed

lemma flush_tls_idle: "flush_tls c = (r, c') \<Longrightarrow> idle c c'"
  by (auto simp: flush_tls_def take_outbound_def send_control_chunks_def Let_def split: prod.splits if_splits
      dest: send_chunks_idle)

lemma retransmit_idle: "retransmit_control c = (r, c') \<Longrightarrow> idle c c'"
  by (auto simp: retransmit_control_def Let_def split: if_splits dest: on_net_send_idle)

lemma feed_ready_idle: "feed_ready S c = (r, c') \<Longrightarrow> idle c c'"
proof (induction S c rule: feed_ready.induct)
  case (1 S c)
  show ?case
  proof (cases "map_of (ct_reorder c) (ct_recv_next c)")
    case (Some payload)
    let ?c = "c\<lparr>ct_reorder := AList.delete (ct_recv_next c) (ct_reorder c)\<rparr>"
    have "and_then (on_tls (tls_feed S payload) ?c)
        (\<lambda>_ c. feed_ready S (c\<lparr>ct_recv_next := ct_recv_next c + 1\<rparr>)) = (r, c')"
      using "1.prems" Some by (simp add: feed_ready.simps [of S c])
    then have "idle ?c c'"
      by (rule and_then_idle) (use "1.IH" [OF Some] on_tls_idle in force)+
    then show ?thesis by simp
  qed (use "1.prems" in \<open>simp add: feed_ready.simps [of S c]\<close>)
qed

lemma accept_control_idle: "accept_control S n p c = (r, c') \<Longrightarrow> idle c c'"
  by (auto simp: accept_control_def split: if_splits elim!: and_then_idle dest: on_tls_idle feed_ready_idle)

lemma handle_control_idle: "handle_control S p c = (r, c') \<Longrightarrow> idle c c'"
  unfolding handle_control_def
  by (elim and_then_idle send_ack_idle accept_control_idle on_tls_idle flush_tls_idle)

lemma on_net_recv:
  assumes "on_net (recv_packet timeout) c = (r, c')"
  shows "recv_step timeout r (ct_net c) (ct_net c') \<and> c' = c\<lparr>ct_net := ct_net c'\<rparr>"
  using assms by (auto simp: on_net_def split: prod.splits dest: recv_packet_step)

text \<open>A round that returns and goes on with less input, or later on the clock.\<close>

definition ahead :: "nat \<Rightarrow> 's control \<Rightarrow> 's control \<Rightarrow> bool" where
  "ahead deadline c c' \<longleftrightarrow>
     left c' \<le> left c \<and> now c \<le> now c' \<and>
     (left c' < left c \<or> now c < now c' \<and> now c < deadline)"

lemma ahead_measure:
  "ahead deadline c c' \<Longrightarrow>
   ((left c', deadline - now c'), (left c, deadline - now c)) \<in> less_than <*lex*> less_than"
  by (auto simp: ahead_def)

lemma ahead_idle: "ahead deadline c d \<Longrightarrow> idle d c' \<Longrightarrow> ahead deadline c c'"
  by (auto simp: ahead_def dest: idle_left)

lemma recv_ahead:
  assumes "fst (on_net (recv_packet timeout) c) = Returns x" "0 < timeout" "now c + timeout \<le> deadline"
  shows "ahead deadline c (snd (on_net (recv_packet timeout) c))"
proof -
  obtain d where d: "on_net (recv_packet timeout) c = (Returns x, d)" using assms(1) by (metis prod.collapse)
  from on_net_recv [OF d] assms(2,3) show ?thesis by (auto simp: d ahead_def recv_step_def)
qed

section \<open>Loops over the network\<close>

text \<open>
  \<open>pump\<close>: wait for one control packet and handle it. While the handshake is going on, the
  last payload is sent again when two seconds have passed.
\<close>

function pump_loop :: "'s ssl \<Rightarrow> nat \<Rightarrow> nat \<Rightarrow> 's control \<Rightarrow> unit outcome \<times> 's control" where
  "pump_loop S deadline last_resend c =
     (if deadline \<le> now c then (Fails ETimeout, c)
      else
        and_then (on_net (recv_packet (min (deadline - now c) 500)) c) (\<lambda>packet c.
          case packet of
            None \<Rightarrow>
              if \<not> tls_is_ready (ct_tls c) \<and> 2000 < now c - last_resend
              then and_then (retransmit_control c) (\<lambda>_ c'. pump_loop S deadline (now c) c')
              else pump_loop S deadline last_resend c
          | Some p \<Rightarrow>
              if pk_opcode p = P_CONTROL_V1 then handle_control S p c
              else pump_loop S deadline last_resend c))"
  by pat_completeness auto
termination
proof (relation "inv_image (less_than <*lex*> less_than) (\<lambda>(S, deadline, lr, c). (left c, deadline - now c))",
    goal_cases)
  case 1
  show ?case by (intro wf_inv_image wf_lex_prod) simp_all
next
  case (2 S deadline lr c x2 x)
  have a: "ahead deadline c (snd (on_net (recv_packet (min (deadline - now c) 500)) c))"
    by (rule recv_ahead [OF 2(2)]) (use 2(1) in auto)
  have "idle (snd (on_net (recv_packet (min (deadline - now c) 500)) c))
      (snd (retransmit_control (snd (on_net (recv_packet (min (deadline - now c) 500)) c))))"
    by (metis prod.collapse retransmit_idle)
  from ahead_measure [OF ahead_idle [OF a this]] show ?case by simp
next
  case (3 S deadline lr c x2)
  have "ahead deadline c (snd (on_net (recv_packet (min (deadline - now c) 500)) c))"
    by (rule recv_ahead [OF 3(2)]) (use 3(1) in auto)
  from ahead_measure [OF this] show ?case by simp
next
  case (4 S deadline lr c x2)
  have "ahead deadline c (snd (on_net (recv_packet (min (deadline - now c) 500)) c))"
    by (rule recv_ahead [OF 4(2)]) (use 4(1) in auto)
  from ahead_measure [OF this] show ?case by simp
qed

declare pump_loop.simps [simp del]

definition pump :: "'s ssl \<Rightarrow> nat \<Rightarrow> 's control \<Rightarrow> unit outcome \<times> 's control" where
  "pump S timeout c = pump_loop S (now c + timeout) (now c) c"

lemma and_then_Returns:
  "and_then m f = (Returns y, s') \<longleftrightarrow> (\<exists>x s. m = (Returns x, s) \<and> f x s = (Returns y, s'))"
  by (cases m, cases "fst m") (auto simp: and_then_def)

text \<open>A pump that returns has taken a packet off the input.\<close>

lemma pump_loop_takes: "pump_loop S deadline lr c = (Returns u, c') \<Longrightarrow> left c' < left c \<and> now c \<le> now c'"
proof (induction S deadline lr c rule: pump_loop.induct)
  case (1 S deadline lr c)
  let ?recv = "on_net (recv_packet (min (deadline - now c) 500)) c"
  have t: "\<not> deadline \<le> now c" using "1.prems" by (auto simp: pump_loop.simps [of S deadline lr c])
  obtain x d where d: "?recv = (Returns x, d)" and
    rest: "(case x of
            None \<Rightarrow>
              if \<not> tls_is_ready (ct_tls d) \<and> 2000 < now d - lr
              then and_then (retransmit_control d) (\<lambda>_ c'. pump_loop S deadline (now d) c')
              else pump_loop S deadline lr d
          | Some p \<Rightarrow>
              if pk_opcode p = P_CONTROL_V1 then handle_control S p d
              else pump_loop S deadline lr d) = (Returns u, c')"
    using "1.prems" t by (auto simp: pump_loop.simps [of S deadline lr c] and_then_Returns)
  have fs: "fst ?recv = Returns x" "snd ?recv = d" by (simp_all add: d)
  have step: "left d \<le> left c" "now c \<le> now d" using on_net_recv [OF d] by (auto simp: recv_step_def)
  show ?case
  proof (cases x)
    case None
    show ?thesis
    proof (cases "\<not> tls_is_ready (ct_tls d) \<and> 2000 < now d - lr")
      case True
      then obtain v e where e: "retransmit_control d = (Returns v, e)" "pump_loop S deadline (now d) e = (Returns u, c')"
        using rest None by (auto simp: and_then_Returns)
      have "left c' < left e \<and> now e \<le> now c'"
        using "1.IH"(1) [OF t fs(1) None] True e fs(2) by simp
      then show ?thesis using idle_left [OF retransmit_idle [OF e(1)]] step by simp
    next
      case False
      then have "left c' < left d \<and> now d \<le> now c'"
        using "1.IH"(2) [OF t fs(1) None] rest None fs(2) by (auto split: if_splits)
      then show ?thesis using step by simp
    qed
  next
    case (Some p)
    have "left d < left c"
      using d Some by (auto simp: on_net_def split: prod.splits dest: recv_packet_takes)
    with Some show ?thesis
      using "1.IH"(3) [OF t fs(1) Some] rest fs(2) step idle_left [OF handle_control_idle [of S p d]]
      by (auto split: if_splits)
  qed
qed

text \<open>
  The rounds of \<open>drive_tls\<close>, \<open>push_request\<close> and \<open>exchange_keys\<close> that go on have pumped once.
\<close>

lemma pump_takes: "fst (pump S timeout c) = Returns u \<Longrightarrow> left (snd (pump S timeout c)) < left c"
  using pump_loop_takes [of S "now c + timeout" "now c" c u] by (metis pump_def prod.collapse)

lemma take_outbound_left: "left (snd (take_outbound c)) = left c"
  by (simp add: take_outbound_def split: prod.splits)

lemma take_plaintext_left: "left (snd (take_plaintext c)) = left c"
  by (simp add: take_plaintext_def split: prod.splits)

function drive_loop :: "'s ssl \<Rightarrow> nat \<Rightarrow> 's control \<Rightarrow> unit outcome \<times> 's control" where
  "drive_loop S deadline c =
     and_then (on_tls (tls_drive S) c) (\<lambda>_ c.
     and_then (flush_tls c) (\<lambda>_ c.
       if tls_is_ready (ct_tls c) then (Returns (), c)
       else if deadline \<le> now c then (Fails ETimeout, c)
       else and_then (pump S (deadline - now c) c) (\<lambda>_ c. drive_loop S deadline c)))"
  by pat_completeness auto
termination
proof (relation "measure (\<lambda>(S, deadline, c). left c)", goal_cases)
  case (2 S deadline c x1 x2 x3)
  let ?c1 = "snd (on_tls (tls_drive S) c)"
  have "left ?c1 = left c" by (metis idle_left on_tls_idle prod.collapse)
  moreover have "left (snd (flush_tls ?c1)) = left ?c1" by (metis idle_left flush_tls_idle prod.collapse)
  ultimately show ?case using pump_takes [OF 2(5)] by simp
qed simp

declare drive_loop.simps [simp del]

definition drive_tls :: "'s ssl \<Rightarrow> nat \<Rightarrow> 's control \<Rightarrow> unit outcome \<times> 's control" where
  "drive_tls S timeout c = drive_loop S (now c + timeout) c"

text \<open>One round of \<open>push_request\<close> and \<open>exchange_keys\<close>: pump, then take what was decrypted.\<close>

definition pump_plaintext :: "'s ssl \<Rightarrow> nat \<Rightarrow> 's control \<Rightarrow> bytes option outcome \<times> 's control" where
  "pump_plaintext S timeout c =
     and_then (pump S timeout c) (\<lambda>_ c. (Returns (fst (take_plaintext c)), snd (take_plaintext c)))"

lemma pump_plaintext_takes:
  assumes "fst (pump_plaintext S timeout c) = Returns x"
  shows "left (snd (pump_plaintext S timeout c)) < left c"
proof -
  obtain c' where "pump_plaintext S timeout c = (Returns x, c')" using assms by (metis prod.collapse)
  then obtain u d where d: "pump S timeout c = (Returns u, d)" "c' = snd (take_plaintext d)"
    by (auto simp: pump_plaintext_def and_then_Returns)
  then show ?thesis using pump_takes [of S timeout c u] take_plaintext_left [of d]
    by (simp add: pump_plaintext_def)
qed

definition add_chunk :: "bytes \<Rightarrow> bytes option \<Rightarrow> bytes" where
  "add_chunk buffer chunk = (case chunk of None \<Rightarrow> buffer | Some b \<Rightarrow> buffer @ b)"

text \<open>
  The receive loop of \<open>push_request\<close> collects plaintext until it holds one of the two
  messages.
\<close>

function push_loop :: "'s ssl \<Rightarrow> nat \<Rightarrow> bytes \<Rightarrow> 's control \<Rightarrow> string outcome \<times> 's control" where
  "push_loop S deadline buffer c =
     (if deadline \<le> now c then (Fails ETimeout, c)
      else
        and_then (pump_plaintext S (deadline - now c) c) (\<lambda>chunk c.
          let buffer = add_chunk buffer chunk in
          case take_message buffer (as_bytes ''PUSH_REPLY'') of
            Some (reply, _) \<Rightarrow> (Returns reply, c)
          | None \<Rightarrow>
              (case take_message buffer (as_bytes ''AUTH_FAILED'') of
                 Some _ \<Rightarrow> (Fails EAuth, c)
               | None \<Rightarrow> push_loop S deadline buffer c)))"
  by pat_completeness auto
termination
  by (relation "measure (\<lambda>(S, deadline, buffer, c). left c)") (simp_all add: pump_plaintext_takes)

declare push_loop.simps [simp del]

definition push_request :: "'s ssl \<Rightarrow> 's control \<Rightarrow> string outcome \<times> 's control" where
  "push_request S c =
     and_then (on_tls (tls_write S (as_bytes ''PUSH_REQUEST'' @ [0])) c) (\<lambda>_ c.
     and_then (flush_tls c) (\<lambda>_ c.
       push_loop S (now c + HANDSHAKE_TIMEOUT) [] c))"

definition apply_push :: "string \<Rightarrow> 's control \<Rightarrow> 's control" where
  "apply_push reply c =
     (let pushed = parse_push reply;
          c = (case pu_peer_id pushed of Some n \<Rightarrow> c\<lparr>ct_peer_id := n\<rparr> | None \<Rightarrow> c) in
      case pu_cipher pushed of Some ci \<Rightarrow> c\<lparr>ct_cipher := ci\<rparr> | None \<Rightarrow> c)"

definition install_keys :: "crypto \<Rightarrow> 's control \<Rightarrow> unit outcome \<times> 's control" where
  "install_keys C c =
     (case ct_seed c of
        None \<Rightarrow> (Fails (EControl ''keys already installed''), c)
      | Some seed \<Rightarrow>
          let c = c\<lparr>ct_seed := None\<rparr> in
          (case derive C seed (ct_cipher c) (auth_size (ct_auth c)) of
             None \<Rightarrow> (Hangs, c)
           | Some Panicked \<Rightarrow> (Panics, c)
           | Some (Done km) \<Rightarrow>
               (case data_cipher_new (ct_cipher c) (ct_auth c) (km_encrypt km) (km_mac_encrypt km) of
                  Inl e \<Rightarrow> (Fails e, c)
                | Inr enc \<Rightarrow>
                    (case data_cipher_new (ct_cipher c) (ct_auth c) (km_decrypt km) (km_mac_decrypt km) of
                       Inl e \<Rightarrow> (Fails e, c)
                     | Inr dec \<Rightarrow> (Returns (), c\<lparr>ct_keys := Some \<lparr>ky_encrypt = enc, ky_decrypt = dec\<rparr>\<rparr>)))))"

section \<open>The key exchange\<close>

definition key_options :: "profile \<Rightarrow> string" where
  "key_options profile =
     ''V4,dev-type tun,link-mtu 1557,tun-mtu 1500,proto UDPv4,auth '' @ auth_as_str (prof_auth profile) @
     '',keysize '' @ show_nat (key_len (prof_cipher profile) * 8) @ '',key-method 2,tls-client''"

definition newline :: string where
  "newline = [CHR 0x0A]"

definition peer_info :: string where
  "peer_info =
     ''IV_VER=2.6.9'' @ newline @ ''IV_PLAT=linux'' @ newline @ ''IV_TCPNL=1'' @ newline @
     ''IV_NCP=2'' @ newline @
     ''IV_CIPHERS=AES-256-GCM:AES-128-GCM:AES-256-CBC:AES-128-CBC'' @ newline @
     ''IV_PROTO=2180'' @ newline @ ''IV_MTU=1500'' @ newline @ ''IV_SSL=OpenSSL'' @ newline @
     ''IV_HWADDR=00:00:00:00:00:00'' @ newline @ ''IV_ACC=1,A:6,udp'' @ newline @
     ''IV_IPV6=1'' @ newline"

fun write_strings :: "bytes \<Rightarrow> string list \<Rightarrow> ovpn_error + bytes" where
  "write_strings out [] = Inr out"
| "write_strings out (s # ss) =
     (case write_string out s of Inl e \<Rightarrow> Inl e | Inr out \<Rightarrow> write_strings out ss)"

definition key_payload :: "profile \<Rightarrow> bytes \<Rightarrow> bytes \<Rightarrow> bytes \<Rightarrow> ovpn_error + bytes" where
  "key_payload profile pre_master random1 random2 =
     write_strings (u32_to_be_bytes 0 @ [2] @ pre_master @ random1 @ random2)
       [key_options profile, [], [], peer_info]"

text \<open>What is read of the server's half: \<open>None\<close> asks for more bytes.\<close>

definition read_key_reply :: "bytes \<Rightarrow> (ovpn_error + bytes \<times> bytes) option" where
  "read_key_reply buffer =
     (if buffer = [] then None
      else if length buffer < 5 + KEY_SOURCE_SERVER_LEN then None
      else
        let (_, r) = reader_u32 (reader_new buffer);
            (method, r) = reader_u8 r in
        if method \<noteq> 2 then Some (Inl (EControl (''key method '' @ show_nat (unat method))))
        else case reader_take r KEY_SOURCE_SERVER_LEN of
          (None, _) \<Rightarrow> None
        | (Some rest, _) \<Rightarrow> Some (Inr (take 32 rest, take 32 (drop 32 rest))))"

function key_loop :: "'s ssl \<Rightarrow> nat \<Rightarrow> bytes \<Rightarrow> 's control \<Rightarrow> (bytes \<times> bytes) outcome \<times> 's control" where
  "key_loop S deadline buffer c =
     (if deadline \<le> now c then (Fails ETimeout, c)
      else
        and_then (pump_plaintext S (deadline - now c) c) (\<lambda>chunk c.
          let buffer = add_chunk buffer chunk in
          case read_key_reply buffer of
            None \<Rightarrow> key_loop S deadline buffer c
          | Some (Inl e) \<Rightarrow> (Fails e, c)
          | Some (Inr randoms) \<Rightarrow> (Returns randoms, c)))"
  by pat_completeness auto
termination
  by (relation "measure (\<lambda>(S, deadline, buffer, c). left c)") (simp_all add: pump_plaintext_takes)

declare key_loop.simps [simp del]

definition exchange_keys ::
  "'s ssl \<Rightarrow> profile \<Rightarrow> bytes \<Rightarrow> bytes \<Rightarrow> bytes \<Rightarrow> 's control \<Rightarrow> unit outcome \<times> 's control" where
  "exchange_keys S profile pre_master random1 random2 c =
     (case key_payload profile pre_master random1 random2 of
        Inl e \<Rightarrow> (Fails e, c)
      | Inr payload \<Rightarrow>
          and_then (on_tls (tls_write S payload) c) (\<lambda>_ c.
          and_then (send_control_chunks (fst (take_outbound c)) (snd (take_outbound c))) (\<lambda>_ c.
          and_then (key_loop S (now c + HANDSHAKE_TIMEOUT) [] c) (\<lambda>randoms c.
            (Returns (),
             c\<lparr>ct_seed := Some
                 \<lparr>sd_pre_master = pre_master, sd_client_random1 = random1,
                  sd_server_random1 = fst randoms, sd_client_random2 = random2,
                  sd_server_random2 = snd randoms, sd_client_sid = ct_session_id c,
                  sd_server_sid = ct_remote_session_id c\<rparr>\<rparr>)))))"

section \<open>The data channel\<close>

definition send_data :: "crypto \<Rightarrow> bytes \<Rightarrow> bytes \<Rightarrow> 's control \<Rightarrow> unit outcome \<times> 's control" where
  "send_data C iv payload c =
     (let c = c\<lparr>ct_send_counter := ct_send_counter c + 1\<rparr>;
          counter = ct_send_counter c;
          header = data_header (ct_cipher c) 0 (ct_peer_id c) in
      case ct_keys c of
        None \<Rightarrow> (Fails (EControl ''data keys missing''), c)
      | Some keys \<Rightarrow>
          let header = header @ u32_to_be_bytes counter in
          (case encrypt C (ky_encrypt keys) iv header counter payload of
             Panicked \<Rightarrow> (Panics, c)
           | Done (Inl e) \<Rightarrow> (Fails e, c)
           | Done (Inr encrypted) \<Rightarrow> on_net (send_raw (header @ encrypted)) c))"

text \<open>
  The body of the loop of \<open>recv_data\<close> on one packet: a plaintext to return, or nothing when
  the loop goes on.
\<close>

definition handle_received ::
  "'s ssl \<Rightarrow> crypto \<Rightarrow> packet \<Rightarrow> 's control \<Rightarrow> bytes option outcome \<times> 's control" where
  "handle_received S C p c =
     (if pk_opcode p = P_DATA_V1 \<or> pk_opcode p = P_DATA_V2 then
        (case ct_keys c of
           None \<Rightarrow> (Returns None, c)
         | Some keys \<Rightarrow>
             (case decrypt C (ky_decrypt keys) (pk_header p) (pk_payload p) of
                Panicked \<Rightarrow> (Panics, c)
              | Done (Inl e) \<Rightarrow> (Fails e, c)
              | Done (Inr (counter, plaintext)) \<Rightarrow>
                  let (ok, window) = replay_accept (ct_replay c) counter in
                  (Returns (if ok then Some plaintext else None), c\<lparr>ct_replay := window\<rparr>)))
      else if pk_opcode p = P_CONTROL_V1 then
        and_then (handle_control S p c) (\<lambda>_ c. (Returns None, c))
      else if pk_opcode p = P_CONTROL_HARD_RESET_SERVER_V2 then
        and_then (send_ack (pk_packet_id p) c) (\<lambda>_ c. (Returns None, c))
      else (Returns None, c))"

lemma handle_received_net:
  assumes "handle_received S C p c = (r, c')"
  shows "net_in (ct_net c') = net_in (ct_net c) \<and> now c' = now c \<and> ct_keys c' = ct_keys c \<and>
    ct_send_counter c' = ct_send_counter c"
proof (cases "pk_opcode p = P_DATA_V1 \<or> pk_opcode p = P_DATA_V2")
  case True
  with assms show ?thesis
    by (auto simp: handle_received_def split: option.splits exec.splits sum.splits prod.splits)
next
  case False
  have "idle c c'"
    using assms False unfolding handle_received_def
    by (auto split: if_splits elim!: and_then_idle dest: handle_control_idle send_ack_idle)
  then show ?thesis by (simp add: idle_def)
qed

lemma recv_loop_left:
  "fst (on_net (recv_packet timeout) c) = Returns (Some p) \<Longrightarrow> left (snd (on_net (recv_packet timeout) c)) < left c"
  by (auto simp: on_net_def split: prod.splits dest: recv_packet_takes)

lemma handle_received_left: "left (snd (handle_received S C p c)) = left c"
  using handle_received_net [of S C p c] by (metis net_left_def prod.collapse)

text \<open>
  \<open>recv_data\<close>: the plaintext of the next data packet that is new, or nothing when the time is
  over or a packet could not be parsed. Control packets that come in between are handled.
\<close>

function recv_loop :: "'s ssl \<Rightarrow> crypto \<Rightarrow> nat \<Rightarrow> 's control \<Rightarrow> bytes option outcome \<times> 's control" where
  "recv_loop S C deadline c =
     (if deadline \<le> now c then (Returns None, c)
      else
        and_then (on_net (recv_packet (deadline - now c)) c) (\<lambda>packet c.
          case packet of
            None \<Rightarrow> (Returns None, c)
          | Some p \<Rightarrow>
              and_then (handle_received S C p c) (\<lambda>r c.
                case r of
                  Some plaintext \<Rightarrow> (Returns (Some plaintext), c)
                | None \<Rightarrow> recv_loop S C deadline c)))"
  by pat_completeness auto
termination
  by (relation "measure (\<lambda>(S, C, deadline, c). left c)")
    (auto simp: recv_loop_left handle_received_left)

declare recv_loop.simps [simp del]

definition recv_data :: "'s ssl \<Rightarrow> crypto \<Rightarrow> nat \<Rightarrow> 's control \<Rightarrow> bytes option outcome \<times> 's control" where
  "recv_data S C timeout c = recv_loop S C (now c + timeout) c"

section \<open>Connecting\<close>

text \<open>
  \<open>await_reset\<close> waits for the server's reset; other packets and unreadable ones are skipped.
  After a receive that timed out the whole time is over, so the next round ends the loop.
\<close>

function reset_loop :: "nat \<Rightarrow> net \<Rightarrow> (bytes \<times> u32) outcome \<times> net" where
  "reset_loop deadline w =
     (if deadline \<le> net_now w then (Fails ETimeout, w)
      else
        and_then (recv_raw (deadline - net_now w) w) (\<lambda>raw w.
          case raw of
            None \<Rightarrow> reset_loop deadline w
          | Some raw \<Rightarrow>
              (case packet_parse raw of
                 Panicked \<Rightarrow> (Panics, w)
               | Done None \<Rightarrow> reset_loop deadline w
               | Done (Some p) \<Rightarrow>
                   if pk_opcode p = P_CONTROL_HARD_RESET_SERVER_V2
                   then (Returns (pk_session_id p, pk_packet_id p), w)
                   else reset_loop deadline w)))"
  by pat_completeness auto
termination
  by (relation "measure (\<lambda>(deadline, w). net_left w + (deadline - net_now w))") (auto dest: recv_raw_less)

declare reset_loop.simps [simp del]

definition await_reset :: "nat \<Rightarrow> net \<Rightarrow> (bytes \<times> u32) outcome \<times> net" where
  "await_reset timeout w = reset_loop (net_now w + timeout) w"

text \<open>What \<open>rand::fill\<close> gives one connection attempt.\<close>

record random_bytes =
  ra_session_id :: bytes
  ra_pre_master :: bytes
  ra_random1 :: bytes
  ra_random2 :: bytes

definition control_new :: "profile \<Rightarrow> bytes \<Rightarrow> bytes \<Rightarrow> u32 \<Rightarrow> 's tls_state \<Rightarrow> net \<Rightarrow> 's control" where
  "control_new profile session_id remote_session_id reset_id tls w =
     \<lparr>ct_net = w, ct_tls = tls, ct_session_id = session_id,
      ct_remote_session_id = remote_session_id, ct_next_packet_id = 1,
      ct_cipher = prof_cipher profile, ct_auth = prof_auth profile, ct_keys = None, ct_seed = None,
      ct_peer_id = 0, ct_send_counter = 0, ct_replay = replay_new, ct_acked = [reset_id],
      ct_last_payload = [], ct_recv_next = reset_id + 1, ct_reorder = []\<rparr>"

text \<open>
  The environment of a connection attempt: opening the socket, and the random bytes.
\<close>

record dialer =
  dl_open :: "nat \<Rightarrow> server \<Rightarrow> ovpn_error + net"
  dl_random :: "nat \<Rightarrow> random_bytes"

definition connect_to ::
  "'s ssl \<Rightarrow> ('b, 'v, 'cert, 'k, 'x, 's) btls \<Rightarrow> dialer \<Rightarrow> profile \<Rightarrow> credential_store \<Rightarrow> nat \<Rightarrow> server \<Rightarrow> 's control outcome" where
  "connect_to S B D profile credentials i server =
     (let ra = dl_random D i in
      case dl_open D i server of
        Inl e \<Rightarrow> Fails e
      | Inr w \<Rightarrow>
          (case and_then (send_raw (reset_packet (ra_session_id ra)) w) (\<lambda>_ w. await_reset HANDSHAKE_TIMEOUT w) of
             (Returns (remote_session_id, reset_id), w) \<Rightarrow>
               (case (case ssl_context B credentials (srv_host server) of
                        Inl e \<Rightarrow> Inl e | Inr ctx \<Rightarrow> tls_start B ctx (srv_host server)) of
                  Inl e \<Rightarrow> Fails e
                | Inr tls \<Rightarrow>
                    let c = control_new profile (ra_session_id ra) remote_session_id reset_id tls w in
                    (case and_then (drive_tls S HANDSHAKE_TIMEOUT c) (\<lambda>_ c.
                            exchange_keys S profile (ra_pre_master ra) (ra_random1 ra) (ra_random2 ra) c) of
                       (Returns _, c) \<Rightarrow> Returns c
                     | (Fails e, _) \<Rightarrow> Fails e
                     | (Panics, _) \<Rightarrow> Panics
                     | (Hangs, _) \<Rightarrow> Hangs))
           | (Fails e, _) \<Rightarrow> Fails e
           | (Panics, _) \<Rightarrow> Panics
           | (Hangs, _) \<Rightarrow> Hangs))"

fun connect_loop :: "(nat \<Rightarrow> server \<Rightarrow> 'c outcome) \<Rightarrow> nat \<Rightarrow> server list \<Rightarrow> ovpn_error option \<Rightarrow> 'c outcome" where
  "connect_loop attempt i [] failure =
     Fails (case failure of Some e \<Rightarrow> e | None \<Rightarrow> EAccount ''no remote'')"
| "connect_loop attempt i (server # servers) failure =
     (case attempt i server of
        Fails e \<Rightarrow> connect_loop attempt (Suc i) servers (Some e)
      | r \<Rightarrow> r)"

definition connect ::
  "'s ssl \<Rightarrow> ('b, 'v, 'cert, 'k, 'x, 's) btls \<Rightarrow> dialer \<Rightarrow> profile \<Rightarrow> credential_store \<Rightarrow> 's control outcome" where
  "connect S B D profile credentials = connect_loop (connect_to S B D profile credentials) 0 (prof_servers profile) None"

end
