(* ===== verification/Ovpn_Reliable.thy ===== *)
theory Ovpn_Reliable
  imports Ovpn_Control
begin

text \<open>
  Properties of the control channel: in-order delivery of control packets to TLS, the
  acknowledgements, the fragmentation of outgoing TLS records, and the data channel.
\<close>

section \<open>In-order delivery\<close>

text \<open>Feeding a list of payloads to TLS, one after the other.\<close>

fun feeds :: "'s ssl \<Rightarrow> bytes list \<Rightarrow> 's tls_state \<Rightarrow> unit outcome \<times> 's tls_state" where
  "feeds S [] t = (Returns (), t)"
| "feeds S (p # ps) t = and_then (tls_feed S p t) (\<lambda>_ t. feeds S ps t)"

text \<open>The packet ids \<open>r\<close>, \<open>r + 1\<close>, and so on.\<close>

definition ids :: "u32 \<Rightarrow> nat \<Rightarrow> u32 list" where
  "ids r k = map (\<lambda>i. r + of_nat i) [0..<k]"

lemma ids_simps [simp]: "ids r 0 = []" "ids r (Suc k) = r # ids (r + 1) k"
proof -
  show "ids r 0 = []" by (simp add: ids_def)
  have "[0..<Suc k] = 0 # map Suc [0..<k]" by (simp only: map_Suc_upt upt_conv_Cons zero_less_Suc)
  then show "ids r (Suc k) = r # ids (r + 1) k" by (simp add: ids_def add.assoc)
qed

text \<open>
  The server's control stream gives every packet id one payload. The reorder buffer holds
  packets of that stream beyond the next one, each once.
\<close>

definition reorder_from :: "(u32 \<Rightarrow> bytes) \<Rightarrow> u32 \<Rightarrow> (u32 \<times> bytes) list \<Rightarrow> bool" where
  "reorder_from f r buf \<longleftrightarrow> distinct (map fst buf) \<and> (\<forall>(n, p) \<in> set buf. p = f n \<and> r \<le> n)"

definition reorder_ok :: "(u32 \<Rightarrow> bytes) \<Rightarrow> 's control \<Rightarrow> bool" where
  "reorder_ok f c \<longleftrightarrow>
     reorder_from f (ct_recv_next c) (ct_reorder c) \<and> ct_recv_next c \<notin> fst ` set (ct_reorder c)"

lemma word_succ_le: "(r :: u32) \<le> n \<Longrightarrow> n \<noteq> r \<Longrightarrow> r + 1 \<le> n"
  by unat_arith

lemma reorder_from_delete:
  "reorder_from f r buf \<Longrightarrow> reorder_from f (r + 1) (AList.delete r buf)"
  by (auto simp: reorder_from_def AList.delete_eq distinct_map_filter intro: word_succ_le)

lemma on_tls_Returns:
  "on_tls g c = (Returns u, d) \<longleftrightarrow> (\<exists>t. g (ct_tls c) = (Returns u, t) \<and> d = c\<lparr>ct_tls := t\<rparr>)"
  by (auto simp: on_tls_def split: prod.splits)

lemma feed_ready_delivers:
  assumes "feed_ready S c = (Returns u, c')" "reorder_from f (ct_recv_next c) (ct_reorder c)"
  shows "\<exists>k. feeds S (map f (ids (ct_recv_next c) k)) (ct_tls c) = (Returns (), ct_tls c') \<and>
    ct_recv_next c' = ct_recv_next c + of_nat k \<and> reorder_ok f c' \<and>
    fst ` set (ct_reorder c') = fst ` set (ct_reorder c) - set (ids (ct_recv_next c) k) \<and>
    set (ids (ct_recv_next c) k) \<subseteq> fst ` set (ct_reorder c)"
  using assms
proof (induction S c rule: feed_ready.induct)
  case (1 S c)
  let ?r = "ct_recv_next c" and ?buf = "ct_reorder c"
  show ?case
  proof (cases "map_of ?buf ?r")
    case None
    then have "c' = c" using "1.prems"(1) by (simp add: feed_ready.simps [of S c])
    moreover have "?r \<notin> fst ` set ?buf" using None by (simp add: map_of_eq_None_iff)
    ultimately show ?thesis using "1.prems"(2) by (intro exI [of _ 0]) (simp add: reorder_ok_def)
  next
    case (Some p)
    from map_of_SomeD [OF Some] have mem: "(?r, p) \<in> set ?buf" .
    have p: "p = f ?r" using "1.prems"(2) mem unfolding reorder_from_def by blast
    have r: "?r \<in> fst ` set ?buf" using mem by (metis fst_conv image_eqI)
    define d where "d = c\<lparr>ct_reorder := AList.delete ?r ?buf\<rparr>"
    obtain t where t: "tls_feed S p (ct_tls c) = (Returns (), t)"
      and rest: "feed_ready S (d\<lparr>ct_tls := t, ct_recv_next := ?r + 1\<rparr>) = (Returns u, c')"
      using "1.prems"(1) Some
      by (auto simp: feed_ready.simps [of S c] and_then_Returns on_tls_Returns d_def)
    let ?e = "d\<lparr>ct_tls := t, ct_recv_next := ?r + 1\<rparr>"
    have "reorder_from f (ct_recv_next ?e) (ct_reorder ?e)"
      using reorder_from_delete [OF "1.prems"(2)] by (simp add: d_def)
    moreover have "on_tls (tls_feed S p) d = (Returns (), d\<lparr>ct_tls := t\<rparr>)"
      using t by (simp add: on_tls_Returns d_def)
    ultimately obtain k where k: "feeds S (map f (ids (?r + 1) k)) t = (Returns (), ct_tls c')"
      "ct_recv_next c' = ?r + 1 + of_nat k" "reorder_ok f c'"
      "fst ` set (ct_reorder c') = fst ` set (AList.delete ?r ?buf) - set (ids (?r + 1) k)"
      "set (ids (?r + 1) k) \<subseteq> fst ` set (AList.delete ?r ?buf)"
      using "1.IH" [OF Some, of "()"] rest by (auto simp: d_def)
    have "fst ` set (AList.delete ?r ?buf) = fst ` set ?buf - {?r}"
      by (auto simp: AList.delete_eq)
    with k t p r show ?thesis by (intro exI [of _ "Suc k"]) (auto simp: ac_simps)
  qed
qed

lemma map_update_keys: "fst ` set (AList.update k v xs) = insert k (fst ` set xs)"
  by (induction xs) auto

lemma set_update_subset: "set (AList.update k v xs) \<subseteq> insert (k, v) (set xs)"
  by (induction xs) auto

lemma accept_control_step:
  assumes "reorder_ok f c" "accept_control S n (f n) c = (Returns u, c')"
  shows "\<exists>k. feeds S (map f (ids (ct_recv_next c) k)) (ct_tls c) = (Returns (), ct_tls c') \<and>
    ct_recv_next c' = ct_recv_next c + of_nat k \<and> reorder_ok f c' \<and>
    set (ids (ct_recv_next c) k) \<subseteq> insert n (fst ` set (ct_reorder c)) \<and>
    (n < ct_recv_next c \<and> c' = c \<or> n = ct_recv_next c \<and> 0 < k \<or>
     ct_recv_next c < n \<and> k = 0 \<and> (length (ct_reorder c) < 32 \<longrightarrow> n \<in> fst ` set (ct_reorder c'))) \<and>
    fst ` set (ct_reorder c') \<subseteq> insert n (fst ` set (ct_reorder c)) \<and>
    fst ` set (ct_reorder c) \<subseteq> fst ` set (ct_reorder c') \<union> set (ids (ct_recv_next c) k)"
proof -
  let ?r = "ct_recv_next c" and ?buf = "ct_reorder c"
  consider "n < ?r" | "?r < n" | "n = ?r" by (meson linorder_less_linear)
  then show ?thesis
  proof cases
    case 1
    with assms show ?thesis by (intro exI [of _ 0]) (auto simp: accept_control_def)
  next
    case 2
    let ?buf' = "AList.update n (f n) ?buf"
    have nl: "\<not> n < ?r" using 2 by order
    have c': "c' = (if length ?buf < 32 then c\<lparr>ct_reorder := ?buf'\<rparr> else c)"
      using assms(2) 2 nl by (simp add: accept_control_def split: if_splits)
    have "\<forall>(m, p) \<in> set ?buf'. p = f m \<and> ?r \<le> m"
      using assms(1) 2 set_update_subset [of n "f n" ?buf] unfolding reorder_ok_def reorder_from_def
      by (auto dest!: subsetD)
    moreover have "distinct (map fst ?buf')"
      using assms(1) by (simp add: reorder_ok_def reorder_from_def distinct_update)
    ultimately have ok: "reorder_ok f (c\<lparr>ct_reorder := ?buf'\<rparr>)"
      using assms(1) 2 by (simp add: reorder_ok_def reorder_from_def map_update_keys)
    with c' 2 assms(1) show ?thesis
      by (intro exI [of _ 0]) (auto simp: map_update_keys)
  next
    case 3
    then obtain t where t: "tls_feed S (f n) (ct_tls c) = (Returns (), t)"
      and rest: "feed_ready S (c\<lparr>ct_tls := t, ct_recv_next := ?r + 1\<rparr>) = (Returns u, c')"
      using assms(2) by (auto simp: accept_control_def and_then_Returns on_tls_Returns)
    have "AList.delete ?r ?buf = ?buf" using assms(1) by (simp add: reorder_ok_def)
    then have "reorder_from f (?r + 1) ?buf"
      using reorder_from_delete [of f ?r ?buf] assms(1) by (simp add: reorder_ok_def)
    from feed_ready_delivers [OF rest, of f] this obtain k where
      k: "feeds S (map f (ids (?r + 1) k)) t = (Returns (), ct_tls c')"
        "ct_recv_next c' = ?r + 1 + of_nat k" "reorder_ok f c'"
        "fst ` set (ct_reorder c') = fst ` set ?buf - set (ids (?r + 1) k)"
        "set (ids (?r + 1) k) \<subseteq> fst ` set ?buf"
      by auto
    with t 3 show ?thesis by (intro exI [of _ "Suc k"]) (auto simp: ac_simps)
  qed
qed

text \<open>
  Whatever control packets of the server's stream arrive, in whatever order and however
  often, accepting one hands TLS the payloads of consecutive packet ids starting at the next
  expected one, in order, and nothing else; the next expected id moves past exactly these.
\<close>

theorem accept_control_in_order:
  assumes "reorder_ok f c" "accept_control S n (f n) c = (Returns (), c')"
  shows "\<exists>k. feeds S (map f (ids (ct_recv_next c) k)) (ct_tls c) = (Returns (), ct_tls c') \<and>
    ct_recv_next c' = ct_recv_next c + of_nat k \<and> reorder_ok f c'"
  using accept_control_step [OF assms] by blast

section \<open>The handshake stream is reassembled\<close>

text \<open>
  A sink that takes every payload and keeps them in order. The client's lemma is about a
  whole list of payloads.
\<close>

locale tls_sink =
  fixes feed :: "bytes \<Rightarrow> 't \<Rightarrow> unit outcome \<times> 't"
    and live :: "'t \<Rightarrow> bool"
    and content :: "'t \<Rightarrow> bytes"
  assumes takes: "live t \<Longrightarrow> \<exists>t'. feed p t = (Returns (), t') \<and> live t' \<and> content t' = content t @ p"
begin

fun feed_list :: "bytes list \<Rightarrow> 't \<Rightarrow> unit outcome \<times> 't" where
  "feed_list [] t = (Returns (), t)"
| "feed_list (p # ps) t = and_then (feed p t) (\<lambda>_ t. feed_list ps t)"

lemma takes_list:
  "live t \<Longrightarrow> \<exists>t'. feed_list ps t = (Returns (), t') \<and> live t' \<and> content t' = content t @ concat ps"
proof (induction ps arbitrary: t)
  case (Cons p ps)
  obtain t1 where t1: "feed p t = (Returns (), t1)" "live t1" "content t1 = content t @ p"
    using takes [OF Cons.prems] by blast
  from Cons.IH [OF t1(2)] t1 show ?case by auto
qed simp

end

definition in_handshake :: "'s tls_state \<Rightarrow> bool" where
  "in_handshake t \<longleftrightarrow> tl_handshake t \<noteq> None"

definition handshake_input :: "'s tls_state \<Rightarrow> bytes" where
  "handshake_input t = (case tl_handshake t of Some (s, m) \<Rightarrow> ms_inbound m | None \<Rightarrow> [])"

interpretation hs: tls_sink "tls_feed S" in_handshake handshake_input
  by unfold_locales
    (auto simp: in_handshake_def handshake_input_def tls_feed_def memory_feed_def)

lemma feeds_is_feed_list: "feeds S ps t = hs.feed_list S ps t"
  by (induction ps arbitrary: t) (simp_all add: and_then_def split: outcome.splits)

lemma feed_ready_returns:
  "in_handshake (ct_tls c) \<Longrightarrow> \<exists>c'. feed_ready S c = (Returns (), c')"
proof (induction S c rule: feed_ready.induct)
  case (1 S c)
  show ?case
  proof (cases "map_of (ct_reorder c) (ct_recv_next c)")
    case (Some p)
    let ?d = "c\<lparr>ct_reorder := AList.delete (ct_recv_next c) (ct_reorder c)\<rparr>"
    obtain t where t: "tls_feed S p (ct_tls c) = (Returns (), t)" "in_handshake t"
      using hs.takes [OF "1.prems"] by blast
    then have on: "on_tls (tls_feed S p) ?d = (Returns (), ?d\<lparr>ct_tls := t\<rparr>)" by (simp add: on_tls_Returns)
    with "1.IH" [OF Some] t(2) show ?thesis by (simp add: feed_ready.simps [of S c] Some)
  qed (simp add: feed_ready.simps [of S c])
qed

lemma accept_control_returns:
  "in_handshake (ct_tls c) \<Longrightarrow> \<exists>c'. accept_control S n p c = (Returns (), c')"
proof -
  assume h: "in_handshake (ct_tls c)"
  obtain t where t: "tls_feed S p (ct_tls c) = (Returns (), t)" "in_handshake t"
    using hs.takes [OF h] by blast
  have "\<exists>c'. feed_ready S (c\<lparr>ct_tls := t, ct_recv_next := ct_recv_next c + 1\<rparr>) = (Returns (), c')"
    by (rule feed_ready_returns) (simp add: t(2))
  with t(1) show ?thesis by (simp add: accept_control_def on_tls_def)
qed

fun accept_run :: "'s ssl \<Rightarrow> (u32 \<Rightarrow> bytes) \<Rightarrow> u32 list \<Rightarrow> 's control \<Rightarrow> unit outcome \<times> 's control" where
  "accept_run S f [] c = (Returns (), c)"
| "accept_run S f (n # ns) c = and_then (accept_control S n (f n) c) (\<lambda>_ c. accept_run S f ns c)"

text \<open>Ids of a window that does not wrap are ordered like their indices.\<close>

lemma id_less_iff:
  assumes "unat r + k < 2 ^ 32" "i \<le> k" "j \<le> k"
  shows "(r + of_nat i < (r + of_nat j :: u32)) = (i < j)" "(r + of_nat i = (r + of_nat j :: u32)) = (i = j)"
proof -
  have u: "unat (r + of_nat l :: u32) = unat r + l" if "l \<le> k" for l
    using assms(1) that by (subst unat_add_lem [THEN iffD1]) (simp_all add: unat_of_nat)
  show "(r + of_nat i < (r + of_nat j :: u32)) = (i < j)" using assms by (simp add: word_less_nat_alt u)
  show "(r + of_nat i = (r + of_nat j :: u32)) = (i = j)"
    using assms u [of i] u [of j] by (metis add_left_cancel)
qed

lemma set_ids: "set (ids r k) = (\<lambda>i. r + of_nat i) ` {..<k}"
  by (auto simp: ids_def)

lemma ids_append: "ids r (j + k) = ids r j @ ids (r + of_nat j) k"
  by (induction j arbitrary: r) (simp_all add: ac_simps)

text \<open>
  What holds while the packets of one window arrive: everything up to some index has been
  handed over, and what arrived beyond it waits in the buffer.
\<close>

definition window_inv ::
  "(u32 \<Rightarrow> bytes) \<Rightarrow> u32 \<Rightarrow> nat \<Rightarrow> bytes \<Rightarrow> u32 set \<Rightarrow> nat \<Rightarrow> 's control \<Rightarrow> bool" where
  "window_inv f r k start seen j c \<longleftrightarrow>
     j \<le> k \<and> reorder_ok f c \<and> ct_recv_next c = r + of_nat j \<and> in_handshake (ct_tls c) \<and>
     handshake_input (ct_tls c) = start @ concat (map f (ids r j)) \<and>
     fst ` set (ct_reorder c) \<subseteq> set (ids r k) \<and>
     seen \<subseteq> set (ids r j) \<union> fst ` set (ct_reorder c)"

lemma reorder_ok_key: "reorder_ok f c \<Longrightarrow> n \<in> fst ` set (ct_reorder c) \<Longrightarrow> ct_recv_next c \<le> n \<and> n \<noteq> ct_recv_next c"
  unfolding reorder_ok_def reorder_from_def by (metis (mono_tags, lifting) case_prod_beta imageE)

lemma reorder_room:
  assumes "window_inv f r k start seen j c" "unat r + k < 2 ^ 32" "k \<le> 33" "j < i" "i < k"
    "r + of_nat i \<notin> fst ` set (ct_reorder c)"
  shows "length (ct_reorder c) < 32"
proof -
  let ?keys = "fst ` set (ct_reorder c)"
  have keys: "?keys \<subseteq> (\<lambda>i. r + of_nat i) ` ({j<..<k} - {i})"
  proof
    fix n assume n: "n \<in> ?keys"
    then obtain l where l: "n = r + of_nat l" "l < k" using assms(1) by (auto simp: window_inv_def set_ids)
    have "r + of_nat j \<le> n" "n \<noteq> r + of_nat j"
      using reorder_ok_key [of f c n] n assms(1) by (simp_all add: window_inv_def)
    then have "\<not> l \<le> j" using id_less_iff [OF assms(2), of l j] l assms(4,5) by (auto simp: le_less)
    then show "n \<in> (\<lambda>i. r + of_nat i) ` ({j<..<k} - {i})" using l n assms(6) by auto
  qed
  have "distinct (map fst (ct_reorder c))"
    using assms(1) by (simp add: window_inv_def reorder_ok_def reorder_from_def)
  then have "length (ct_reorder c) = card ?keys"
    by (metis distinct_card length_map list.set_map)
  also have "\<dots> \<le> card ({j<..<k} - {i})"
    using card_mono [OF _ keys] card_image_le [of "{j<..<k} - {i}"] by (meson finite_Diff finite_greaterThanLessThan finite_imageI order_trans)
  also have "\<dots> < 32" using assms(3-5) by simp
  finally show ?thesis .
qed

lemma window_step:
  assumes inv: "window_inv f r k start seen j c" and wrap: "unat r + k < 2 ^ 32" and "k \<le> 33" "i < k"
    and acc: "accept_control S (r + of_nat i) (f (r + of_nat i)) c = (Returns u, c')"
  shows "\<exists>j'. window_inv f r k start (insert (r + of_nat i) seen) j' c'"
proof -
  let ?n = "r + of_nat i" and ?keys = "fst ` set (ct_reorder c)"
  have ok: "reorder_ok f c" "ct_recv_next c = r + of_nat j" "in_handshake (ct_tls c)" "j \<le> k"
    "?keys \<subseteq> set (ids r k)" using inv by (simp_all add: window_inv_def)
  from accept_control_step [OF ok(1) acc] ok(2) obtain d where
    d: "feeds S (map f (ids (r + of_nat j) d)) (ct_tls c) = (Returns (), ct_tls c')"
      "ct_recv_next c' = r + of_nat (j + d)" "reorder_ok f c'"
      "set (ids (r + of_nat j) d) \<subseteq> insert ?n ?keys"
      "?n < r + of_nat j \<and> c' = c \<or> ?n = r + of_nat j \<and> 0 < d \<or>
       r + of_nat j < ?n \<and> d = 0 \<and> (length (ct_reorder c) < 32 \<longrightarrow> ?n \<in> fst ` set (ct_reorder c'))"
      "fst ` set (ct_reorder c') \<subseteq> insert ?n ?keys"
      "?keys \<subseteq> fst ` set (ct_reorder c') \<union> set (ids (r + of_nat j) d)"
    by (auto simp: add.assoc)
  have input: "in_handshake (ct_tls c')" "handshake_input (ct_tls c') = start @ concat (map f (ids r (j + d)))"
    using hs.takes_list [OF ok(3), of S "map f (ids (r + of_nat j) d)"] d(1) inv
    by (auto simp: feeds_is_feed_list window_inv_def ids_append)
  have sub: "insert ?n ?keys \<subseteq> set (ids r k)" using ok(5) assms(4) by (auto simp: set_ids)
  have jd: "j + d \<le> k"
  proof (rule ccontr)
    assume "\<not> j + d \<le> k"
    then have "k - j < d" using ok(4) by simp
    then have "r + of_nat k \<in> set (ids (r + of_nat j) d)"
      using ok(4) by (auto simp: set_ids image_iff intro!: bexI [of _ "k - j"])
    then have "r + of_nat k \<in> set (ids r k)" using d(4) sub by blast
    then show False using id_less_iff(2) [OF wrap] by (auto simp: set_ids)
  qed
  have seen: "?n \<in> set (ids r (j + d)) \<union> fst ` set (ct_reorder c')"
  proof (cases "?n \<in> ?keys")
    case True
    with d(7) show ?thesis by (auto simp: ids_append)
  next
    case False
    consider "i < j" | "i = j" | "j < i" by linarith
    then show ?thesis
    proof cases
      case 3
      then have "length (ct_reorder c) < 32" using reorder_room [OF inv wrap assms(3)] assms(4) False by simp
      with 3 d(5) id_less_iff [OF wrap, of i j] assms(4) ok(4) show ?thesis by auto
    next
      case 2
      with d(5) have "0 < d" by auto
      with 2 show ?thesis by (auto simp: set_ids)
    qed (auto simp: set_ids)
  qed
  have "seen \<subseteq> set (ids r (j + d)) \<union> fst ` set (ct_reorder c')"
    using inv d(7) unfolding window_inv_def ids_append set_append by blast
  then have "window_inv f r k start (insert ?n seen) (j + d) c'"
    unfolding window_inv_def using d(2,3) input jd seen order_trans [OF d(6) sub] by simp
  then show ?thesis ..
qed

lemma accept_run_window:
  assumes "window_inv f r k start seen j c" "unat r + k < 2 ^ 32" "k \<le> 33" "set ns \<subseteq> set (ids r k)"
  shows "\<exists>c' j'. accept_run S f ns c = (Returns (), c') \<and> window_inv f r k start (seen \<union> set ns) j' c'"
  using assms(1,4)
proof (induction ns arbitrary: seen j c)
  case (Cons n ns)
  obtain i where i: "n = r + of_nat i" "i < k" using Cons.prems(2) by (auto simp: set_ids)
  obtain c1 where c1: "accept_control S n (f n) c = (Returns (), c1)"
    using accept_control_returns Cons.prems(1) by (metis window_inv_def)
  obtain j1 where "window_inv f r k start (insert n seen) j1 c1"
    using window_step [OF Cons.prems(1) assms(2,3) i(2)] c1 i(1) by blast
  from Cons.IH [OF this] Cons.prems(2) c1 show ?case by simp
qed auto

text \<open>
  C4: the handshake survives reordering and duplication. If the packets of a window of up to
  33 consecutive ids arrive in any order, each at least once and any number of times, then
  accepting them succeeds, the TLS engine's input grows by exactly their payloads in the
  order of the ids, and nothing stays behind in the reorder buffer.
\<close>

theorem handshake_reassembled:
  assumes "ct_reorder c = []" "ct_recv_next c = r" "in_handshake (ct_tls c)"
    and "set ns = set (ids r k)" "k \<le> 33" "unat r + k < 2 ^ 32"
  shows "\<exists>c'. accept_run S f ns c = (Returns (), c') \<and> ct_recv_next c' = r + of_nat k \<and>
    ct_reorder c' = [] \<and>
    handshake_input (ct_tls c') = handshake_input (ct_tls c) @ concat (map f (ids r k))"
proof -
  have "window_inv f r k (handshake_input (ct_tls c)) {} 0 c"
    using assms(1-3) by (simp add: window_inv_def reorder_ok_def reorder_from_def)
  from accept_run_window [OF this assms(6,5), of ns S] assms(4) obtain c' j where
    c': "accept_run S f ns c = (Returns (), c')"
    and inv: "window_inv f r k (handshake_input (ct_tls c)) (set (ids r k)) j c'" by auto
  have nxt: "j \<le> k" "ct_recv_next c' = r + of_nat j" "reorder_ok f c'"
    "set (ids r k) \<subseteq> set (ids r j) \<union> fst ` set (ct_reorder c')"
    "handshake_input (ct_tls c') = handshake_input (ct_tls c) @ concat (map f (ids r j))"
    using inv by (simp_all add: window_inv_def)
  have "j = k"
  proof (rule ccontr)
    assume "j \<noteq> k"
    with nxt(1) have "j < k" by simp
    then have "r + of_nat j \<in> set (ids r k)" by (auto simp: set_ids)
    with nxt(2-4) reorder_ok_key [OF nxt(3), of "r + of_nat j"]
    have "r + of_nat j \<in> set (ids r j)" by auto
    then show False using id_less_iff(2) [OF assms(6)] \<open>j < k\<close> by (auto simp: set_ids)
  qed
  moreover have "ct_reorder c' = []"
  proof (rule ccontr)
    assume "ct_reorder c' \<noteq> []"
    then obtain n where n: "n \<in> fst ` set (ct_reorder c')" by (cases "ct_reorder c'") auto
    with inv obtain i where i: "n = r + of_nat i" "i < k" by (auto simp: window_inv_def set_ids)
    have "r + of_nat k \<le> n" using reorder_ok_key [OF nxt(3) n] nxt(2) \<open>j = k\<close> by simp
    then show False using id_less_iff(1) [OF assms(6), of i k] i by auto
  qed
  ultimately show ?thesis using c' nxt(2,5) by simp
qed

text \<open>A client just after the server's reset with packet id 0, for the evaluations below.\<close>

definition demo_net :: "bytes list \<Rightarrow> net" where
  "demo_net datagrams =
     \<lparr>net_in = UdpSocket (map (\<lambda>d. (0, Inr d)) datagrams), net_now = 0, net_sent = [],
      net_send_error = (\<lambda>_. None)\<rparr>"

definition demo_profile :: profile where
  "demo_profile =
     \<lparr>prof_servers = [], prof_cipher = Aes128Gcm, prof_auth = Sha1,
      prof_credentials = \<lparr>cred_ca = [], cred_cert = [], cred_key = []\<rparr>\<rparr>"

definition demo_control :: "bytes list \<Rightarrow> unit control" where
  "demo_control datagrams =
     control_new demo_profile (replicate 8 1) (replicate 8 2) 0 (tls_new ()) (demo_net datagrams)"

definition demo_ssl :: "unit ssl" where
  "demo_ssl =
     \<lparr>ssl_handshake = (\<lambda>s m. (HsWouldBlock, s, m)), ssl_read = (\<lambda>s m n. (None, s, m)),
      ssl_write = (\<lambda>s m b. (Some (length b), s, snd (memory_write b m))), ssl_reads = 0\<rparr>"

lemmas demo_defs = demo_control_def control_new_def demo_net_def demo_profile_def tls_new_def
  memory_default_def in_handshake_def handshake_input_def

theorem accept_control_in_order_witness:
  "\<exists>c' k. accept_control demo_ssl 2 [2] (demo_control []) = (Returns (), c') \<and>
     ct_recv_next c' = 1 + of_nat k"
proof -
  have ok: "reorder_ok (\<lambda>n. [ucast n]) (demo_control [])"
    by (simp add: demo_defs reorder_ok_def reorder_from_def)
  obtain c' where c': "accept_control demo_ssl 2 [2] (demo_control []) = (Returns (), c')"
    using accept_control_returns by (metis demo_defs in_handshake_def option.distinct(1) control.select_convs(2) tls_state.select_convs(1))
  then have "accept_control demo_ssl 2 ((\<lambda>n. [ucast n]) (2 :: u32)) (demo_control []) = (Returns (), c')" by simp
  from accept_control_in_order [OF ok this] c' show ?thesis by (auto simp: demo_defs)
qed

theorem handshake_reassembled_witness:
  "\<exists>c'. accept_run demo_ssl (\<lambda>n. [ucast n]) [3, 1, 3, 2] (demo_control []) = (Returns (), c') \<and>
     handshake_input (ct_tls c') = [1, 2, 3]"
proof -
  have ids123: "ids 1 3 = [1, 2, 3]" by (simp add: ids_def upt_rec)
  have "\<exists>c'. accept_run demo_ssl (\<lambda>n. [ucast n]) [3, 1, 3, 2] (demo_control []) = (Returns (), c') \<and>
      ct_recv_next c' = 1 + of_nat 3 \<and> ct_reorder c' = [] \<and>
      handshake_input (ct_tls c') = handshake_input (ct_tls (demo_control [])) @
        concat (map (\<lambda>n. [ucast n]) (ids 1 3))"
    by (rule handshake_reassembled) (auto simp: demo_defs ids123)
  then show ?thesis by (auto simp: demo_defs ids123)
qed

end
