(* ===== verification/Ovpn_Channel.thy ===== *)
theory Ovpn_Channel
  imports Ovpn_Reliable
begin

text \<open>
  Properties of the data channel and of sending on the control channel: no plaintext is
  delivered twice, receiving keeps its deadline, what one side sends the other receives,
  fragmentation, and two ways in which control packets get lost.
\<close>

section \<open>Receiving data\<close>

lemma on_net_frame: "on_net f c = (r, c') \<Longrightarrow> ct_keys c' = ct_keys c \<and> ct_replay c' = ct_replay c"
  by (auto simp: on_net_def split: prod.splits)

text \<open>What one receive does to the set \<open>A\<close> of counters let through so far.\<close>

definition received :: "crypto \<Rightarrow> 's control \<Rightarrow> nat set \<Rightarrow> bytes option outcome \<Rightarrow> 's control \<Rightarrow> bool" where
  "received C c A r c' \<longleftrightarrow> ct_keys c' = ct_keys c \<and>
     (case r of
        Returns (Some pt) \<Rightarrow>
          (\<exists>keys h b n. ct_keys c = Some keys \<and> decrypt C (ky_decrypt keys) h b = Done (Inr (n, pt)) \<and>
             unat n \<notin> A \<and> replay_rel (ct_replay c') (insert (unat n) A))
      | _ \<Rightarrow> replay_rel (ct_replay c') A)"

lemma received_nothing:
  "(\<And>pt. r \<noteq> Returns (Some pt)) \<Longrightarrow> received C c A r c' \<longleftrightarrow> ct_keys c' = ct_keys c \<and> replay_rel (ct_replay c') A"
  by (cases r) (auto simp: received_def split: option.splits)

lemma handle_received_received:
  assumes "handle_received S C p c = (r, c')" "replay_rel (ct_replay c) A"
  shows "received C c A r c'"
proof (cases "pk_opcode p = P_DATA_V1 \<or> pk_opcode p = P_DATA_V2")
  case False
  with assms(1) have none: "r \<noteq> Returns (Some pt)" for pt
    by (auto simp: handle_received_def and_then_Returns split: if_splits)
  have "idle c c'"
    using assms False unfolding handle_received_def
    by (auto split: if_splits elim!: and_then_idle dest: handle_control_idle send_ack_idle)
  with none assms(2) show ?thesis by (simp add: received_nothing idle_def)
next
  case True
  note acc = win.acc_rel [OF assms(2)] win.acc_fresh [OF assms(2)]
  show ?thesis
  proof (cases "\<exists>keys n pt. ct_keys c = Some keys \<and>
      decrypt C (ky_decrypt keys) (pk_header p) (pk_payload p) = Done (Inr (n, pt))")
    case False
    with assms True have "c' = c" "\<And>pt. r \<noteq> Returns (Some pt)"
      by (auto simp: handle_received_def split: option.splits exec.splits sum.splits)
    with assms(2) show ?thesis by (simp add: received_nothing)
  next
    case dec: True
    then obtain keys n pt where d: "ct_keys c = Some keys"
      "decrypt C (ky_decrypt keys) (pk_header p) (pk_payload p) = Done (Inr (n, pt))" by blast
    with assms(1) True have r: "r = Returns (if fst (replay_accept (ct_replay c) n) then Some pt else None)"
      "c' = c\<lparr>ct_replay := snd (replay_accept (ct_replay c) n)\<rparr>"
      by (auto simp: handle_received_def split: prod.splits)
    show ?thesis
    proof (cases "fst (replay_accept (ct_replay c) n)")
      case True
      with acc [of n] d r show ?thesis by (auto simp: received_def)
    next
      case False
      with acc(1) [of n] r show ?thesis by (simp add: received_def)
    qed
  qed
qed

lemma received_via: "received C d A r c' \<Longrightarrow> ct_keys d = ct_keys c \<Longrightarrow> received C c A r c'"
  by (simp add: received_def cong: option.case_cong outcome.case_cong)

lemma recv_loop_received:
  "recv_loop S C deadline c = (r, c') \<Longrightarrow> replay_rel (ct_replay c) A \<Longrightarrow> received C c A r c'"
proof (induction S C deadline c arbitrary: r c' rule: recv_loop.induct)
  case (1 S C deadline c)
  let ?recv = "on_net (recv_packet (deadline - now c)) c"
  note unfold = "1.prems"(1) [unfolded recv_loop.simps [of S C deadline c]]
  show ?case
  proof (cases "deadline \<le> now c")
    case True
    with unfold "1.prems"(2) show ?thesis by (auto simp: received_def)
  next
    case late: False
    obtain x d where d: "?recv = (x, d)" by fastforce
    note frame = on_net_frame [OF d]
    have rel: "replay_rel (ct_replay d) A" using frame "1.prems"(2) by simp
    show ?thesis
    proof (cases "\<exists>p. x = Returns (Some p)")
      case False
      with unfold d late have "c' = d" "\<And>pt. r \<noteq> Returns (Some pt)"
        by (cases x; auto split: option.splits)+
      then show ?thesis using rel frame by (simp add: received_nothing)
    next
      case True
      then obtain p where x: "x = Returns (Some p)" ..
      obtain y e where e: "handle_received S C p d = (y, e)" by fastforce
      note rec = handle_received_received [OF e rel]
      have keys: "ct_keys e = ct_keys c" using rec frame by (simp add: received_def)
      have step: "and_then (y, e) (\<lambda>r c. case r of Some plaintext \<Rightarrow> (Returns (Some plaintext), c)
          | None \<Rightarrow> recv_loop S C deadline c) = (r, c')"
        using unfold d late x e by simp
      show ?thesis
      proof (cases "y = Returns None")
        case True
        then have "recv_loop S C deadline e = (r, c')" "replay_rel (ct_replay e) A"
          using step rec by (simp_all add: received_def)
        then have "received C e A r c'"
          using "1.IH" [OF late, of "Some p" p "None"] d e x True by simp
        then show ?thesis using keys by (rule received_via)
      next
        case False
        then have "r = y" "c' = e" using step by (cases y; auto split: option.splits)+
        then show ?thesis using rec frame received_via [of C d A y e c] by simp
      qed
    qed
  qed
qed

text \<open>A client that calls \<open>recv_data\<close> again and again, as \<open>Stack::run\<close> does.\<close>

fun recv_calls :: "'s ssl \<Rightarrow> crypto \<Rightarrow> nat list \<Rightarrow> 's control \<Rightarrow> bytes option outcome list \<times> 's control" where
  "recv_calls S C [] c = ([], c)"
| "recv_calls S C (timeout # timeouts) c =
     (let (r, c) = recv_data S C timeout c; (rs, c) = recv_calls S C timeouts c in (r # rs, c))"

fun delivered :: "bytes option outcome list \<Rightarrow> bytes list" where
  "delivered [] = []"
| "delivered (r # rs) = (case r of Returns (Some pt) \<Rightarrow> pt # delivered rs | _ \<Rightarrow> delivered rs)"

definition authentic :: "crypto \<Rightarrow> keys option \<Rightarrow> u32 \<Rightarrow> bytes \<Rightarrow> bool" where
  "authentic C ks n pt \<longleftrightarrow>
     (\<exists>keys h b. ks = Some keys \<and> decrypt C (ky_decrypt keys) h b = Done (Inr (n, pt)))"

lemma recv_calls_received:
  assumes "recv_calls S C ts c = (rs, c')" "replay_rel (ct_replay c) A"
  shows "\<exists>ns. distinct ns \<and> unat ` set ns \<inter> A = {} \<and> list_all2 (authentic C (ct_keys c)) ns (delivered rs)"
  using assms
proof (induction ts arbitrary: c rs A)
  case (Cons t ts)
  obtain r d where d: "recv_data S C t c = (r, d)" by fastforce
  obtain rs' where rs': "recv_calls S C ts d = (rs', c')" "rs = r # rs'"
    using Cons.prems(1) d by (auto split: prod.splits)
  have rec: "received C c A r d"
    using recv_loop_received d Cons.prems(2) by (simp add: recv_data_def)
  then have keys: "ct_keys d = ct_keys c" by (simp add: received_def)
  show ?case
  proof (cases "\<exists>pt. r = Returns (Some pt)")
    case True
    then obtain pt where r: "r = Returns (Some pt)" ..
    with rec obtain n where n: "authentic C (ct_keys c) n pt" "unat n \<notin> A"
      "replay_rel (ct_replay d) (insert (unat n) A)" by (auto simp: received_def authentic_def)
    from Cons.IH [OF rs'(1) n(3)] obtain ns where "distinct ns" "unat ` set ns \<inter> insert (unat n) A = {}"
      "list_all2 (authentic C (ct_keys c)) ns (delivered rs')" by (auto simp: keys)
    with n(1,2) r rs'(2) show ?thesis by (intro exI [of _ "n # ns"]) auto
  next
    case False
    then have "delivered rs = delivered rs'" by (cases r) (auto simp: rs'(2) split: option.splits)
    with rec False Cons.IH [OF rs'(1)] show ?thesis by (simp add: received_nothing keys)
  qed
qed auto


lemma recv_loop_time:
  "recv_loop S C deadline c = (r, c') \<Longrightarrow> now c \<le> now c' \<and> now c' \<le> max (now c) deadline"
proof (induction S C deadline c arbitrary: r c' rule: recv_loop.induct)
  case (1 S C deadline c)
  let ?recv = "on_net (recv_packet (deadline - now c)) c"
  note unfold = "1.prems"(1) [unfolded recv_loop.simps [of S C deadline c]]
  show ?case
  proof (cases "deadline \<le> now c")
    case True
    with unfold show ?thesis by simp
  next
    case late: False
    obtain x d where d: "?recv = (x, d)" by fastforce
    have step: "now c \<le> now d" "now d \<le> deadline" using on_net_recv [OF d] late by (auto simp: recv_step_def)
    show ?thesis
    proof (cases "\<exists>p. x = Returns (Some p)")
      case False
      with unfold d late have "c' = d" by (cases x) (auto split: option.splits)
      with step show ?thesis by simp
    next
      case True
      then obtain p where x: "x = Returns (Some p)" ..
      obtain y e where e: "handle_received S C p d = (y, e)" by fastforce
      have now_e: "now e = now d" using handle_received_net [OF e] by simp
      show ?thesis
      proof (cases "y = Returns None")
        case True
        then have "recv_loop S C deadline e = (r, c')" using unfold d late x e by simp
        from "1.IH" [OF late, of "Some p" p "None" r c'] this d e x True step now_e show ?thesis by simp
      next
        case False
        then have "c' = e" using unfold d late x e by (cases y) (auto split: option.splits)
        with step now_e show ?thesis by simp
      qed
    qed
  qed
qed

text \<open>
  \<open>recv_data\<close> keeps its deadline: whatever arrives, it comes back no later than its
  timeout (time passes only while it waits for the network).
\<close>

theorem recv_data_in_time:
  "now (snd (recv_data S C timeout c)) \<le> now c + timeout"
  using recv_loop_time [of S C "now c + timeout" c] by (metis max.absorb2 le_add1 prod.collapse recv_data_def)

section \<open>Nonces\<close>

lemma recv_loop_counter:
  "recv_loop S C deadline c = (r, c') \<Longrightarrow> ct_send_counter c' = ct_send_counter c \<and> ct_keys c' = ct_keys c"
proof (induction S C deadline c arbitrary: r c' rule: recv_loop.induct)
  case (1 S C deadline c)
  let ?recv = "on_net (recv_packet (deadline - now c)) c"
  note unfold = "1.prems"(1) [unfolded recv_loop.simps [of S C deadline c]]
  show ?case
  proof (cases "deadline \<le> now c")
    case late: False
    obtain x d where d: "?recv = (x, d)" by fastforce
    have frame: "ct_send_counter d = ct_send_counter c \<and> ct_keys d = ct_keys c"
      using d by (auto simp: on_net_def split: prod.splits)
    show ?thesis
    proof (cases "\<exists>p. x = Returns (Some p)")
      case False
      with unfold d late have "c' = d" by (cases x) (auto split: option.splits)
      with frame show ?thesis by simp
    next
      case True
      then obtain p where x: "x = Returns (Some p)" ..
      obtain y e where e: "handle_received S C p d = (y, e)" by fastforce
      have step: "ct_send_counter e = ct_send_counter c \<and> ct_keys e = ct_keys c" using handle_received_net [OF e] frame by simp
      show ?thesis
      proof (cases "y = Returns None")
        case True
        then have "recv_loop S C deadline e = (r, c')" using unfold d late x e by simp
        from "1.IH" [OF late, of "Some p" p "None" r c'] this d e x True step show ?thesis by simp
      next
        case False
        then have "c' = e" using unfold d late x e by (cases y) (auto split: option.splits)
        with step show ?thesis by simp
      qed
    qed
  qed (use unfold in simp)
qed

text \<open>
  The nonce of the next data packet: \<open>send_data\<close> seals under no other, whatever the AEAD cipher does with
  other nonces.
\<close>

definition data_nonce :: "keys \<Rightarrow> 's control \<Rightarrow> bytes" where
  "data_nonce ks c = aead_nonce (dc_implicit_iv (ky_encrypt ks)) (ct_send_counter c + 1)"

definition only_nonce :: "bytes \<Rightarrow> crypto \<Rightarrow> crypto" where
  "only_nonce nonce C =
     C\<lparr>cr_gcm_seal := (\<lambda>n key x header pt. if x = nonce then cr_gcm_seal C n key x header pt else None)\<rparr>"

lemma send_data_nonce:
  assumes "ct_keys c = Some ks"
  shows "send_data (only_nonce (data_nonce ks c) C) iv pt c = send_data C iv pt c"
proof -
  have "aead_kind (only_nonce nonce C) d = aead_kind C d" for nonce d
    by (simp add: aead_kind_def only_nonce_def cong: cipher.case_cong)
  then have "encrypt (only_nonce (data_nonce ks c) C) (ky_encrypt ks) iv h (ct_send_counter c + 1) pt =
      encrypt C (ky_encrypt ks) iv h (ct_send_counter c + 1) pt" for h
    by (simp add: encrypt_def encrypt_aead_def encrypt_cbc_def only_nonce_def data_nonce_def split: sum.split
        cong: if_cong option.case_cong)
  then show ?thesis using assms by (simp add: send_data_def Let_def)
qed

text \<open>The calls of the data phase, as \<open>Stack::run\<close> makes them, and the nonces of the packets that are sent.\<close>

datatype data_call = SendData bytes bytes | RecvData nat

fun data_calls :: "'s ssl \<Rightarrow> crypto \<Rightarrow> keys \<Rightarrow> data_call list \<Rightarrow> 's control \<Rightarrow> bytes list \<times> 's control" where
  "data_calls S C ks [] c = ([], c)"
| "data_calls S C ks (SendData iv pt # calls) c =
     (let (nonces, c') = data_calls S C ks calls (snd (send_data C iv pt c)) in (data_nonce ks c # nonces, c'))"
| "data_calls S C ks (RecvData timeout # calls) c = data_calls S C ks calls (snd (recv_data S C timeout c))"

lemma send_data_counter: "ct_send_counter (snd (send_data C iv pt c)) = ct_send_counter c + 1"
  by (auto simp: send_data_def Let_def on_net_def split: option.splits exec.splits sum.splits prod.splits)

lemma recv_data_counter: "ct_send_counter (snd (recv_data S C timeout c)) = ct_send_counter c"
  using recv_loop_counter [of S C "now c + timeout" c] by (metis prod.collapse recv_data_def)

lemma data_calls_nonces:
  "fst (data_calls S C ks calls c) =
     map (\<lambda>i. aead_nonce (dc_implicit_iv (ky_encrypt ks)) (ct_send_counter c + of_nat (Suc i)))
       [0 ..< length (fst (data_calls S C ks calls c))]"
proof (induction S C ks calls c rule: data_calls.induct)
  case (2 S C ks iv pt calls c)
  let ?rest = "fst (data_calls S C ks calls (snd (send_data C iv pt c)))"
  have "?rest = map (\<lambda>i. aead_nonce (dc_implicit_iv (ky_encrypt ks)) (ct_send_counter c + of_nat (Suc (Suc i)))) [0 ..< length ?rest]"
    using "2.IH" by (simp add: send_data_counter add.assoc)
  then show ?case
    by (simp add: case_prod_beta data_nonce_def upt_rec [of 0 "Suc _"] map_Suc_upt [symmetric] o_def del: upt_Suc)
qed (simp_all add: recv_data_counter)

text \<open>
  C16: nonces are fresh for exactly \<open>2 ^ 32\<close> packets. In the data phase, whatever is sent and received in between
  and however the calls end, no nonce is used twice under the connection's key as long as at most
  \<open>2 ^ 32\<close> packets are sent; after that, because the counter wraps around and the keys are never renewed, nonces
  repeat. Every packet is sealed under its own nonce and no other.
\<close>

theorem nonces_fresh_until_wrap:
  "let c = start\<lparr>ct_keys := Some ks\<rparr>; nonces = fst (data_calls S C ks calls c) in
   (distinct nonces \<longleftrightarrow> length nonces \<le> 2 ^ 32) \<and>
   send_data (only_nonce (data_nonce ks c) C) iv pt c = send_data C iv pt c"
proof -
  define c where "c = start\<lparr>ct_keys := Some ks\<rparr>"
  let ?n = "length (fst (data_calls S C ks calls c))"
  let ?f = "\<lambda>i. aead_nonce (dc_implicit_iv (ky_encrypt ks)) (ct_send_counter c + of_nat (Suc i))"
  have inj: "?f i = ?f j \<longleftrightarrow> i mod 2 ^ 32 = j mod 2 ^ 32" for i j
  proof -
    have "?f i = ?f j \<longleftrightarrow> (of_nat i :: u32) = of_nat j" by simp
    then show ?thesis by (simp add: word_of_nat_eq_iff take_bit_eq_mod)
  qed
  define N :: nat where "N = 2 ^ 32"
  have "distinct (map ?f [0 ..< ?n]) \<longleftrightarrow> ?n \<le> N"
  proof
    assume "distinct (map ?f [0 ..< ?n])"
    then have "inj_on ?f {0 ..< ?n}" by (simp add: distinct_map)
    moreover have "?f 0 = ?f N" unfolding inj by (simp add: N_def)
    ultimately have "\<not> N < ?n" using inj_onD [of ?f "{0 ..< ?n}" 0 N] N_def by force
    then show "?n \<le> N" by simp
  next
    assume "?n \<le> N"
    then have "inj_on ?f {0 ..< ?n}" using inj by (auto simp: inj_on_def N_def)
    then show "distinct (map ?f [0 ..< ?n])" by (simp add: distinct_map)
  qed
  then have "distinct (fst (data_calls S C ks calls c)) \<longleftrightarrow> ?n \<le> N"
    using data_calls_nonces [of S C ks calls c] by metis
  then show ?thesis using send_data_nonce [of c ks C iv pt] unfolding Let_def c_def [symmetric] N_def by (simp add: c_def)
qed

section \<open>From sender to receiver\<close>

definition is_udp :: "net \<Rightarrow> bool" where
  "is_udp w \<longleftrightarrow> (\<exists>ds. net_in w = UdpSocket ds)"

lemma send_raw_udp:
  assumes "is_udp w"
  shows "send_raw b w = (case net_send_error w (length (net_sent w)) of
      Some e \<Rightarrow> (Fails (EIo e), w) | None \<Rightarrow> (Returns (), w\<lparr>net_sent := net_sent w @ [b]\<rparr>))"
  using assms by (auto simp: send_raw_def is_udp_def split: option.splits)

lemma send_data_sent:
  assumes "send_data C iv pt c = (Returns (), c')" "is_udp (ct_net c)" "ct_keys c = Some ks"
  obtains body where
    "encrypt C (ky_encrypt ks) iv (data_header (ct_cipher c) 0 (ct_peer_id c) @ u32_to_be_bytes (ct_send_counter c + 1))
       (ct_send_counter c + 1) pt = Done (Inr body)"
    "net_sent (ct_net c') = net_sent (ct_net c) @
       [data_header (ct_cipher c) 0 (ct_peer_id c) @ u32_to_be_bytes (ct_send_counter c + 1) @ body]"
  using assms
  by (auto simp: send_data_def Let_def on_net_def send_raw_udp split: exec.splits sum.splits option.splits)

lemma recv_udp_data:
  assumes "net_in (ct_net c) = UdpSocket ((t, Inr pkt) # rest)" "length pkt \<le> 2048" "t \<le> now c + timeout"
    "packet_parse pkt = Done (Some p)"
  shows "on_net (recv_packet timeout) c =
    (Returns (Some p), c\<lparr>ct_net := (ct_net c)\<lparr>net_in := UdpSocket rest, net_now := max (now c) t\<rparr>\<rparr>)"
  using assms by (simp add: on_net_def recv_packet_def recv_raw_def Let_def)

text \<open>
  C20: what one side sends the other receives. If the receiver decrypts with the key the
  sender encrypts with and its window lets the sender's counter through, then a packet that
  \<open>send_data\<close> put on the wire and that reaches the receiver in time and fits its buffer makes
  \<open>recv_data\<close> return the very payload.
\<close>

theorem data_channel_delivers:
  assumes "crypto_laws C" "data_cipher_new (ct_cipher a) au key mac = Inr dc" "length iv = 16"
    and "ct_keys a = Some ka" "ky_encrypt ka = dc" "is_udp (ct_net a)"
    and "send_data C iv pt a = (Returns (), a')" "pkt = last (net_sent (ct_net a'))"
    and "ct_keys b = Some kb" "ky_decrypt kb = dc" "fst (replay_accept (ct_replay b) (ct_send_counter a + 1))"
    and "net_in (ct_net b) = UdpSocket ((t, Inr pkt) # rest)" "length pkt \<le> 2048"
    and "t \<le> now b + timeout" "0 < timeout"
  shows "fst (recv_data S C timeout b) = Returns (Some pt)"
proof -
  let ?n = "ct_send_counter a + 1" and ?h = "data_header (ct_cipher a) 0 (ct_peer_id a)"
  obtain body where body: "encrypt C dc iv (?h @ u32_to_be_bytes ?n) ?n pt = Done (Inr body)"
    "pkt = ?h @ u32_to_be_bytes ?n @ body"
  proof (rule send_data_sent [OF assms(7,6,4)])
    fix body
    assume e: "encrypt C (ky_encrypt ka) iv (?h @ u32_to_be_bytes ?n) ?n pt = Done (Inr body)"
      and s: "net_sent (ct_net a') = net_sent (ct_net a) @ [?h @ u32_to_be_bytes ?n @ body]"
    show thesis by (rule that [of body]) (use e s assms(5,8) in simp_all)
  qed
  have dec: "decrypt C dc (?h @ u32_to_be_bytes ?n) body = Done (Inr (?n, pt))"
    using encrypt_decrypt_cases [OF assms(1-3) body(1)] .
  obtain p where p: "packet_parse pkt = Done (Some p)" "pk_header p = ?h @ u32_to_be_bytes ?n"
    "pk_payload p = body" "pk_opcode p = P_DATA_V1 \<or> pk_opcode p = P_DATA_V2"
    using data_packet_parse [of "ct_cipher a" 0 "ct_peer_id a" ?n body] body(2) by auto
  note recv = recv_udp_data [OF assms(12,13) _ p(1), of timeout]
  show ?thesis
    using assms(9-11,14,15) p(2-4) dec recv
    by (simp add: recv_data_def recv_loop.simps [of S C _ b] handle_received_def case_prod_beta Let_def)
qed

section \<open>Sending TLS records\<close>

text \<open>The pieces a record is cut into.\<close>

function pieces :: "bytes \<Rightarrow> bytes list" where
  "pieces data = (if data = [] then [] else take MAX_CONTROL_PAYLOAD data # pieces (drop MAX_CONTROL_PAYLOAD data))"
  by pat_completeness auto
termination by (relation "measure length") (auto simp: MAX_CONTROL_PAYLOAD_def)

declare pieces.simps [simp del]

lemma concat_pieces: "concat (pieces data) = data"
  by (induction data rule: pieces.induct) (subst pieces.simps, simp)

lemma pieces_size: "p \<in> set (pieces data) \<Longrightarrow> p \<noteq> [] \<and> length p \<le> MAX_CONTROL_PAYLOAD"
proof (induction data rule: pieces.induct)
  case (1 data)
  then show ?case by (subst (asm) (2) pieces.simps) (auto simp: MAX_CONTROL_PAYLOAD_def split: if_splits)
qed

definition control_packets :: "'s control \<Rightarrow> bytes list \<Rightarrow> bytes list" where
  "control_packets c ps =
     map (\<lambda>(n, p). control_packet (ct_session_id c) (write_acks c) n p)
       (zip (ids (ct_next_packet_id c) (length ps)) ps)"

lemma send_control_udp:
  assumes "is_udp (ct_net c)" "net_send_error (ct_net c) = (\<lambda>_. None)"
  shows "send_control p c = (Returns (), c\<lparr>ct_next_packet_id := ct_next_packet_id c + 1, ct_last_payload := p,
    ct_net := (ct_net c)\<lparr>net_sent := net_sent (ct_net c) @
      [control_packet (ct_session_id c) (write_acks c) (ct_next_packet_id c) p]\<rparr>\<rparr>)"
  using assms by (simp add: send_control_def on_net_def send_raw_udp write_acks_def)

lemma send_chunks_udp:
  assumes "is_udp (ct_net c)" "net_send_error (ct_net c) = (\<lambda>_. None)" "offset \<le> length data"
  shows "\<exists>c'. send_chunks data offset c = (Returns (), c') \<and>
    net_sent (ct_net c') = net_sent (ct_net c) @ control_packets c (pieces (drop offset data)) \<and>
    ct_next_packet_id c' = ct_next_packet_id c + of_nat (length (pieces (drop offset data)))"
  using assms
proof (induction "length data - offset" arbitrary: offset c rule: less_induct)
  case less
  show ?case
  proof (cases "offset < length data")
    case False
    then have "offset = length data" using less.prems by simp
    then show ?thesis
      by (subst send_chunks.simps) (simp add: pieces.simps [of "[]"] control_packets_def)
  next
    case True
    let ?stop = "min (offset + MAX_CONTROL_PAYLOAD) (length data)"
    let ?p = "take (?stop - offset) (drop offset data)"
    have p: "?p = take MAX_CONTROL_PAYLOAD (drop offset data)" by (simp add: min_def)
    have rest: "drop ?stop data = drop MAX_CONTROL_PAYLOAD (drop offset data)" by (simp add: min_def add.commute)
    define d where "d = snd (send_control ?p c)"
    have d: "send_control ?p c = (Returns (), d)" using send_control_udp [OF less.prems(1,2)] by (simp add: d_def)
    have d_eq: "is_udp (ct_net d)" "net_send_error (ct_net d) = (\<lambda>_. None)" "write_acks d = write_acks c"
      "ct_session_id d = ct_session_id c" "ct_next_packet_id d = ct_next_packet_id c + 1"
      "net_sent (ct_net d) = net_sent (ct_net c) @ [control_packet (ct_session_id c) (write_acks c) (ct_next_packet_id c) ?p]"
      using send_control_udp [OF less.prems(1,2), of ?p] less.prems(1,2) by (simp_all add: d_def is_udp_def write_acks_def)
    have "length data - ?stop < length data - offset" using True by (simp add: MAX_CONTROL_PAYLOAD_def)
    from less.hyps [OF this d_eq(1,2)] obtain c' where c': "send_chunks data ?stop d = (Returns (), c')"
      "net_sent (ct_net c') = net_sent (ct_net d) @ control_packets d (pieces (drop ?stop data))"
      "ct_next_packet_id c' = ct_next_packet_id d + of_nat (length (pieces (drop ?stop data)))" by auto
    have ps: "pieces (drop offset data) = ?p # pieces (drop ?stop data)"
      using True unfolding rest p by (subst pieces.simps) simp
    have "send_chunks data offset c = (Returns (), c')"
      using True d c'(1) by (simp add: send_chunks.simps [of data offset c] Let_def)
    then show ?thesis
      using c'(2,3) unfolding ps by (auto simp: control_packets_def d_eq ac_simps)
  qed
qed

text \<open>
  An outgoing TLS record is cut into pieces of 1 to 1184 bytes that make up the record in
  order, and the pieces are sent as control packets with consecutive packet ids.
\<close>

theorem send_control_chunks_fragments:
  assumes "is_udp (ct_net c)" "net_send_error (ct_net c) = (\<lambda>_. None)"
  shows "\<exists>c' ps. send_control_chunks data c = (Returns (), c') \<and> concat ps = data \<and>
    (\<forall>p \<in> set ps. p \<noteq> [] \<and> length p \<le> 1184) \<and>
    net_sent (ct_net c') = net_sent (ct_net c) @
      map (\<lambda>(n, p). control_packet (ct_session_id c) (write_acks c) n p)
        (zip (ids (ct_next_packet_id c) (length ps)) ps) \<and>
    ct_next_packet_id c' = ct_next_packet_id c + of_nat (length ps)"
proof -
  from send_chunks_udp [OF assms, of 0 data] obtain c' where
    "send_chunks data 0 c = (Returns (), c')"
    "net_sent (ct_net c') = net_sent (ct_net c) @ control_packets c (pieces data)"
    "ct_next_packet_id c' = ct_next_packet_id c + of_nat (length (pieces data))" by auto
  moreover have "\<forall>p \<in> set (pieces data). p \<noteq> [] \<and> length p \<le> 1184"
    using pieces_size by (auto simp: MAX_CONTROL_PAYLOAD_def)
  ultimately show ?thesis
    by (intro exI [of _ c'] exI [of _ "pieces data"])
      (simp add: send_control_chunks_def control_packets_def concat_pieces)
qed

section \<open>Two ways to lose a control packet\<close>

text \<open>
  A control packet that comes ahead of the next expected one while the reorder buffer is
  full is acknowledged to the server and then thrown away: the server will not send it again,
  and the packets behind it can never be delivered.
\<close>

theorem acked_packet_dropped:
  assumes "32 \<le> length (ct_reorder c)" "ct_recv_next c < n" "n \<notin> set (ct_acked c)"
    and "is_udp (ct_net c)" "net_send_error (ct_net c) = (\<lambda>_. None)"
  shows "\<exists>c'. send_ack n c = (Returns (), c') \<and> accept_control S n payload c' = (Returns (), c') \<and>
    net_sent (ct_net c') = net_sent (ct_net c) @
      [ack_packet (ct_session_id c) (encode_acks (n # take 3 (ct_acked c)) (ct_remote_session_id c))] \<and>
    ct_reorder c' = ct_reorder c \<and> ct_recv_next c' = ct_recv_next c \<and> ct_tls c' = ct_tls c"
proof -
  have "\<not> n < ct_recv_next c" using assms(2) by order
  with assms show ?thesis
    by (simp add: send_ack_def record_ack_def on_net_def send_raw_udp write_acks_def accept_control_def
        MAX_ACKS_def take_Cons')
qed

text \<open>
  A retransmission does not repeat the lost packet: the payload goes out again under a new
  packet id, so a server that waits for the lost id does not get it, and one that did get it
  receives the payload a second time as the next part of the TLS stream.
\<close>

theorem retransmit_new_id:
  assumes "is_udp (ct_net c)" "net_send_error (ct_net c) = (\<lambda>_. None)" "payload \<noteq> []"
  shows "\<exists>c' c''. send_control payload c = (Returns (), c') \<and> retransmit_control c' = (Returns (), c'') \<and>
    net_sent (ct_net c'') = net_sent (ct_net c) @
      [control_packet (ct_session_id c) (write_acks c) (ct_next_packet_id c) payload,
       control_packet (ct_session_id c) [0] (ct_next_packet_id c + 1) payload]"
proof -
  define c' where "c' = snd (send_control payload c)"
  have eq: "send_control payload c = (Returns (), c')" "is_udp (ct_net c')"
    "net_send_error (ct_net c') = (\<lambda>_. None)" "ct_last_payload c' = payload"
    "ct_next_packet_id c' = ct_next_packet_id c + 1" "ct_session_id c' = ct_session_id c"
    "net_sent (ct_net c') = net_sent (ct_net c) @
      [control_packet (ct_session_id c) (write_acks c) (ct_next_packet_id c) payload]"
    using send_control_udp [OF assms(1,2), of payload] assms(1,2) by (simp_all add: c'_def is_udp_def)
  then show ?thesis using assms(3)
    by (simp add: retransmit_control_def on_net_def send_raw_udp)
qed

section \<open>Evaluations\<close>

definition demo_cipher :: data_cipher where
  "demo_cipher =
     \<lparr>dc_cipher = Aes128Gcm, dc_auth = Sha1, dc_key = replicate 16 1, dc_mac = replicate 20 2,
      dc_implicit_iv = replicate 8 2\<rparr>"

lemma demo_cipher_new: "data_cipher_new Aes128Gcm Sha1 (replicate 16 1) (replicate 20 2) = Inr demo_cipher"
  by (simp add: data_cipher_new_def demo_cipher_def iv_len_def Let_def)

text \<open>A client with keys installed, and these datagrams waiting on its socket.\<close>

definition demo_peer :: "bytes list \<Rightarrow> unit control" where
  "demo_peer datagrams =
     (demo_control datagrams)\<lparr>ct_keys := Some \<lparr>ky_encrypt = demo_cipher, ky_decrypt = demo_cipher\<rparr>\<rparr>"

lemmas demo_peer_defs = demo_peer_def demo_defs is_udp_def


lemma demo_seal:
  "\<exists>body. encrypt demo_crypto demo_cipher iv h n pt = Done (Inr body) \<and> length body = length pt + 16"
  by (simp add: encrypt_def encrypt_aead_def aead_kind_def demo_cipher_def demo_crypto_def tag_first_def
      TAG_LEN_def Let_def)

theorem data_channel_delivers_witness:
  "\<exists>a'. send_data demo_crypto (replicate 16 0) [9] (demo_peer []) = (Returns (), a') \<and>
     fst (recv_data demo_ssl demo_crypto 100 (demo_peer [last (net_sent (ct_net a'))])) = Returns (Some [9])"
proof -
  let ?a = "demo_peer []"
  let ?h = "data_header Aes128Gcm 0 0 @ u32_to_be_bytes 1"
  obtain body where body: "encrypt demo_crypto demo_cipher (replicate 16 0) ?h 1 [9] = Done (Inr body)"
    "length body = 17" using demo_seal [of "replicate 16 0" ?h 1 "[9]"] by auto
  define a' where "a' = snd (send_data demo_crypto (replicate 16 0) [9] ?a)"
  have a': "send_data demo_crypto (replicate 16 0) [9] ?a = (Returns (), a')"
    "last (net_sent (ct_net a')) = ?h @ body"
    using body by (simp_all add: a'_def send_data_def demo_peer_defs on_net_def send_raw_def)
  have "fst (recv_data demo_ssl demo_crypto 100 (demo_peer [last (net_sent (ct_net a'))])) = Returns (Some [9])"
  proof (rule data_channel_delivers [OF demo_crypto_laws _ _ _ _ _ a'(1) refl, where au = Sha1 and
        key = "replicate 16 1" and mac = "replicate 20 2" and dc = demo_cipher and t = 0 and rest = "[]" and
        ka = "\<lparr>ky_encrypt = demo_cipher, ky_decrypt = demo_cipher\<rparr>" and
        kb = "\<lparr>ky_encrypt = demo_cipher, ky_decrypt = demo_cipher\<rparr>"])
    show "data_cipher_new (ct_cipher ?a) Sha1 (replicate 16 1) (replicate 20 2) = Inr demo_cipher"
      using demo_cipher_new by (simp add: demo_peer_defs)
    show "length (last (net_sent (ct_net a'))) \<le> 2048"
      using body(2) by (simp add: a'(2) data_header_def)
    show "fst (replay_accept (ct_replay (demo_peer [last (net_sent (ct_net a'))])) (ct_send_counter ?a + 1))"
      by (simp add: demo_peer_defs replay_new_def replay_accept_def)
  qed (simp_all add: demo_peer_defs)
  with a'(1) show ?thesis by blast
qed

definition demo_record :: bytes where
  "demo_record = replicate 2000 7"

theorem send_control_chunks_fragments_witness:
  "\<exists>c' ps. send_control_chunks demo_record (demo_control []) = (Returns (), c') \<and>
     concat ps = demo_record \<and> (\<forall>p \<in> set ps. length p \<le> 1184)"
proof -
  have "is_udp (ct_net (demo_control []))" "net_send_error (ct_net (demo_control [])) = (\<lambda>_. None)"
    by (simp_all add: demo_peer_defs)
  from send_control_chunks_fragments [OF this, of demo_record] obtain c' ps where
    "send_control_chunks demo_record (demo_control []) = (Returns (), c')"
    "concat ps = demo_record" "\<forall>p \<in> set ps. p \<noteq> [] \<and> length p \<le> 1184" by blast
  then show ?thesis by (intro exI [of _ c'] exI [of _ ps]) simp
qed

theorem acked_packet_dropped_witness:
  "\<exists>c'. send_ack 40 ((demo_control [])\<lparr>ct_reorder := replicate 32 (2, [])\<rparr>) = (Returns (), c') \<and>
     accept_control demo_ssl 40 [1] c' = (Returns (), c')"
  using acked_packet_dropped [of "(demo_control [])\<lparr>ct_reorder := replicate 32 (2, [])\<rparr>" 40 demo_ssl "[1]"]
  by (auto simp: demo_peer_defs)

theorem retransmit_new_id_witness:
  "\<exists>c' c''. send_control [5] (demo_control []) = (Returns (), c') \<and>
     retransmit_control c' = (Returns (), c'') \<and> length (net_sent (ct_net c'')) = 2"
proof -
  have "is_udp (ct_net (demo_control []))" "net_send_error (ct_net (demo_control [])) = (\<lambda>_. None)"
    "net_sent (ct_net (demo_control [])) = []" by (simp_all add: demo_peer_defs)
  with retransmit_new_id [of "demo_control []" "[5]"] show ?thesis by fastforce
qed

end
