(* ===== verification/Btree.thy ===== *)
theory Btree
  imports Rust_Str "HOL-Library.Char_ord" "HOL-Library.List_Lexorder"
begin

text \<open>
  \<open>BTreeMap\<close>, which the account loaders and the region tables use, as the list of its entries in
  key order. What its users rely on is the locale \<open>ordered_map\<close>: the effect of \<open>insert\<close> on lookups and
  that it keeps the representation well-formed. The two ways the program fills a map, entry by entry
  and by collecting the values of a key, are treated once, in the locale.
\<close>

section \<open>The interface\<close>

locale ordered_map =
  fixes get :: "'m \<Rightarrow> 'k \<Rightarrow> 'v option"
    and put :: "'k \<Rightarrow> 'v \<Rightarrow> 'm \<Rightarrow> 'm"
    and empty_map :: 'm
    and ok :: "'m \<Rightarrow> bool"
  assumes ok_empty: "ok empty_map"
    and get_empty: "get empty_map k = None"
    and ok_put: "ok m \<Longrightarrow> ok (put k v m)"
    and get_put: "ok m \<Longrightarrow> get (put k v m) r = (if r = k then Some v else get m r)"
begin

text \<open>Filling a map from a sequence: an item that gives no entry is skipped, a later one replaces.\<close>

definition fill :: "('x \<Rightarrow> ('k \<times> 'v) option) \<Rightarrow> 'x list \<Rightarrow> 'm \<Rightarrow> 'm" where
  "fill entry = fold (\<lambda>x m. case entry x of None \<Rightarrow> m | Some (k, v) \<Rightarrow> put k v m)"

lemma fill_ok: "ok m \<Longrightarrow> ok (fill entry xs m)"
  by (induction xs arbitrary: m) (auto simp: fill_def ok_put split: option.splits)

lemma fill_get:
  "ok m \<Longrightarrow> get (fill entry xs m) k =
     (case find (\<lambda>x. map_option fst (entry x) = Some k) (rev xs) of
        Some x \<Rightarrow> map_option snd (entry x)
      | None \<Rightarrow> get m k)"
proof (induction xs rule: rev_induct)
  case (snoc x xs)
  have step: "fill entry (xs @ [x]) m = (case entry x of None \<Rightarrow> fill entry xs m | Some (k, v) \<Rightarrow> put k v (fill entry xs m))"
    unfolding fill_def by simp
  show ?case unfolding step using snoc.IH [OF snoc.prems]
    by (auto simp: get_put [OF fill_ok [OF snoc.prems]] split: option.splits)
qed (simp add: fill_def)

end

text \<open>A map whose values are lists, filled by \<open>entry(k).or_default().push(v)\<close>.\<close>

locale list_map = ordered_map get put empty_map ok
  for get :: "'m \<Rightarrow> 'k \<Rightarrow> 'x list option" and put empty_map ok
begin

definition collect_by :: "('x \<Rightarrow> 'k option) \<Rightarrow> 'x list \<Rightarrow> 'm \<Rightarrow> 'm" where
  "collect_by key = fold (\<lambda>x m.
     case key x of None \<Rightarrow> m | Some k \<Rightarrow> put k ((case get m k of Some xs \<Rightarrow> xs | None \<Rightarrow> []) @ [x]) m)"

lemma collect_by_get:
  "ok (collect_by key xs empty_map) \<and>
   get (collect_by key xs empty_map) k =
     (let group = filter (\<lambda>x. key x = Some k) xs in if group = [] then None else Some group)"
proof (induction xs arbitrary: k rule: rev_induct)
  case Nil
  then show ?case by (simp add: collect_by_def ok_empty get_empty)
next
  case (snoc x xs)
  then show ?case by (auto simp: collect_by_def ok_put get_put Let_def split: option.splits)
qed

end

section \<open>The map\<close>

fun btree_insert :: "'k::linorder \<Rightarrow> 'v \<Rightarrow> ('k \<times> 'v) list \<Rightarrow> ('k \<times> 'v) list" where
  "btree_insert k v [] = [(k, v)]"
| "btree_insert k v ((k', v') # m) =
     (if k = k' then (k, v) # m
      else if k < k' then (k, v) # (k', v') # m
      else (k', v') # btree_insert k v m)"

definition btree_ok :: "('k::linorder \<times> 'v) list \<Rightarrow> bool" where
  "btree_ok m \<longleftrightarrow> sorted_wrt (<) (map fst m)"

lemma btree_insert_keys: "fst ` set (btree_insert k v m) = insert k (fst ` set m)"
  by (induction k v m rule: btree_insert.induct) auto

lemma btree_insert_ok: "btree_ok m \<Longrightarrow> btree_ok (btree_insert k v m)"
  unfolding btree_ok_def
proof (induction k v m rule: btree_insert.induct)
  case (2 k v k' v' m)
  have "\<forall>x \<in> fst ` set (btree_insert k v m). k' < x" if "\<not> k < k'" "k \<noteq> k'"
    unfolding btree_insert_keys using that 2(2) by auto
  with 2 show ?case by auto
qed simp

lemma btree_insert_lookup:
  "btree_ok m \<Longrightarrow> map_of (btree_insert k v m) r = (if r = k then Some v else map_of m r)"
  unfolding btree_ok_def by (induction k v m rule: btree_insert.induct) auto

lemma btree_distinct: "btree_ok m \<Longrightarrow> distinct (map fst m)"
  by (simp add: btree_ok_def strict_sorted_iff)

lemma btree_insert_fresh:
  assumes "map_of m k = None"
  shows "map_of (btree_insert k v m) r = (if r = k then Some v else map_of m r)"
    and "set (btree_insert k v m) = insert (k, v) (set m)"
  using assms by (induction k v m rule: btree_insert.induct) (auto split: if_splits)

interpretation bt: ordered_map map_of btree_insert "[]" btree_ok
  by unfold_locales (simp_all add: btree_insert_ok btree_insert_lookup, simp add: btree_ok_def)

interpretation bt_lists: list_map map_of btree_insert "[]" btree_ok
  by unfold_locales

end
