(* ===== verification/Embedded.thy ===== *)
theory Embedded
  imports Btree Utf8
begin

text \<open>
  The files the build embeds (\<open>include_dir!\<close>) and what the account loaders read of one: the stem of
  its name, which is the address of the account, and its text. Paths are byte strings, as they are on Unix.
\<close>

section \<open>Text\<close>

text \<open>\<open>str::from_utf8\<close>: every sequence has to be well-formed.\<close>

function utf8_valid :: "bytes \<Rightarrow> bool" where
  "utf8_valid bs =
     (if bs = [] then True else snd (next_seq bs) \<and> utf8_valid (drop (fst (next_seq bs)) bs))"
  by pat_completeness auto
termination
proof (relation "measure length")
  fix bs :: bytes
  assume "bs \<noteq> []"
  then show "(drop (fst (next_seq bs)) bs, bs) \<in> measure length" using next_seq_pos [of bs] by simp
qed simp

declare utf8_valid.simps [simp del]

definition from_utf8 :: "bytes \<Rightarrow> string option" where
  "from_utf8 bs = (if utf8_valid bs then Some (bytes_str bs) else None)"

lemma utf8_valid_lossy: "utf8_valid bs \<Longrightarrow> from_utf8_lossy bs = bytes_str bs"
proof (induction bs rule: utf8_valid.induct)
  case (1 bs)
  show ?case
  proof (cases "bs = []")
    case True
    then show ?thesis by (simp add: from_utf8_lossy.simps bytes_str_def)
  next
    case False
    with 1 have "snd (next_seq bs)" "from_utf8_lossy (drop (fst (next_seq bs)) bs) = bytes_str (drop (fst (next_seq bs)) bs)"
      by (auto simp: utf8_valid.simps [of bs])
    then show ?thesis using False
      by (subst from_utf8_lossy.simps) (simp add: case_prod_beta bytes_str_def flip: map_append)
  qed
qed

lemma utf8_valid_ascii: "is_ascii s \<Longrightarrow> utf8_valid (as_bytes s)"
proof (induction s)
  case (Cons c s)
  then have "byte_of c < 0x80" by (simp add: is_ascii_def byte_of_less)
  then have "next_seq (as_bytes (c # s)) = (1, True)" by (simp add: next_seq_def byte_at_def)
  with Cons show ?case by (subst utf8_valid.simps) (simp add: is_ascii_def)
qed (simp add: utf8_valid.simps [of "[]"])

lemma from_utf8_ascii: "is_ascii s \<Longrightarrow> from_utf8 (as_bytes s) = Some s"
  by (simp add: from_utf8_def utf8_valid_ascii)

section \<open>Paths\<close>

text \<open>\<open>Path::file_name\<close>: the last component, unless it is the parent or the root.\<close>

definition file_name :: "string \<Rightarrow> string option" where
  "file_name path =
     (let parts = filter (\<lambda>part. part \<noteq> [] \<and> part \<noteq> ''.'') (split_on (CHR ''/'') path) in
      if parts = [] \<or> last parts = ''..'' then None else Some (last parts))"

text \<open>\<open>Path::file_stem\<close>: the name up to its last dot; a name whose only dot is the first is kept whole.\<close>

definition file_stem :: "string \<Rightarrow> string option" where
  "file_stem path = map_option (\<lambda>name.
     case rsplit_once (CHR ''.'') name of
       None \<Rightarrow> name
     | Some (before, after) \<Rightarrow> if before = [] then name else before) (file_name path)"

lemma file_name_join:
  assumes "CHR ''/'' \<notin> set name" "name \<notin> {[], ''.'', ''..''}"
  shows "file_name name = Some name" "file_name (dir @ CHR ''/'' # name) = Some name"
proof -
  have one: "split_on (CHR ''/'') name = [name]" using assms(1) by (rule split_on_no_sep)
  have join: "\<exists>x front. split_on (CHR ''/'') (dir @ CHR ''/'' # name) = (x # front) @ [name]"
    by (induction dir) (auto simp: one split: list.splits)
  then have "\<exists>front. split_on (CHR ''/'') (dir @ CHR ''/'' # name) = front @ [name]"
    by blast
  then show "file_name name = Some name" "file_name (dir @ CHR ''/'' # name) = Some name"
    using assms(2) one by (auto simp: file_name_def)
qed

lemma file_stem_extension:
  assumes "CHR ''/'' \<notin> set (ip @ ext)" "ip \<noteq> []" "CHR ''.'' \<notin> set ext" "ip \<noteq> ''.'' \<or> ext \<noteq> []"
  shows "file_stem (ip @ CHR ''.'' # ext) = Some ip" "file_stem (dir @ CHR ''/'' # ip @ CHR ''.'' # ext) = Some ip"
proof -
  have "ip @ CHR ''.'' # ext \<notin> {[], ''.'', ''..''}" using assms(2,4) by (auto simp: append_eq_Cons_conv)
  then show "file_stem (ip @ CHR ''.'' # ext) = Some ip" "file_stem (dir @ CHR ''/'' # ip @ CHR ''.'' # ext) = Some ip"
    using assms(1-3) file_name_join [of "ip @ CHR ''.'' # ext"] by (simp_all add: file_stem_def)
qed

section \<open>Embedded files\<close>

record embedded_file =
  ef_path :: string
  ef_contents :: bytes

definition contents_utf8 :: "embedded_file \<Rightarrow> string option" where
  "contents_utf8 file = from_utf8 (ef_contents file)"

text \<open>\<open>file.path().file_stem().and_then(to_str)\<close>.\<close>

definition stem_of :: "embedded_file \<Rightarrow> string option" where
  "stem_of file = Option.bind (file_stem (ef_path file)) (\<lambda>stem. from_utf8 (as_bytes stem))"

text \<open>The account of the address \<open>ip\<close>, as the repository keeps it: \<open>ip.toml\<close>.\<close>

definition toml_file :: "string \<Rightarrow> string \<Rightarrow> embedded_file" where
  "toml_file ip text = \<lparr>ef_path = ip @ ''.toml'', ef_contents = as_bytes text\<rparr>"

lemma toml_file_read:
  assumes "is_ascii ip" "is_ascii text" "ip \<noteq> []" "CHR ''/'' \<notin> set ip"
  shows "stem_of (toml_file ip text) = Some ip" "contents_utf8 (toml_file ip text) = Some text"
  using assms file_stem_extension(1) [of ip "''toml''"]
  by (simp_all add: stem_of_def contents_utf8_def toml_file_def from_utf8_ascii)

end
