(* ===== verification/Vpn_Profile.thy ===== *)
theory Vpn_Profile
  imports Ovpn_Config Embedded
begin

text \<open>
  The OpenVPN account files (\<open>src/vpn/account.rs\<close>): loading the embedded ones into a map by address,
  and turning one into a connection profile. The TOML reader is a parameter, from a text to the record
  of an account; the embedded files are an argument.
\<close>

section \<open>Accounts and profiles\<close>

record remote =
  rm_port :: "u16 option"
  rm_protocol :: "string option"

record account_file =
  af_region :: string
  af_cipher :: "string option"
  af_auth :: "string option"
  af_ca :: string
  af_cert :: string
  af_key :: string
  af_remotes :: "remote list"

text \<open>\<open>parse\<close>: the reader's error becomes the account error \<open>account: ...\<close>.\<close>

datatype account_error = AccountError string

fun account_error_text :: "account_error \<Rightarrow> string" where
  "account_error_text (AccountError e) = ''account: '' @ e"

definition vpn_parse :: "(string \<Rightarrow> string + account_file) \<Rightarrow> string \<Rightarrow> account_error + account_file" where
  "vpn_parse toml text = (case toml text of Inl e \<Rightarrow> Inl (AccountError e) | Inr account \<Rightarrow> Inr account)"

definition embedded :: "(string \<Rightarrow> string + account_file) \<Rightarrow> embedded_file list \<Rightarrow> (string \<times> account_file) list" where
  "embedded toml files =
     fold (\<lambda>file accounts.
       case stem_of file of
         None \<Rightarrow> accounts
       | Some ip \<Rightarrow>
           (case contents_utf8 file of
              None \<Rightarrow> accounts
            | Some text \<Rightarrow>
                (case vpn_parse toml text of
                   Inr account \<Rightarrow> btree_insert ip account accounts
                 | Inl _ \<Rightarrow> accounts))) files []"

definition protocol_of :: "string option \<Rightarrow> ovpn_protocol" where
  "protocol_of v =
     (if v \<in> {Some ''tcp'', Some ''tcp-client'', Some ''tcp-server''} then Tcp else Udp)"

definition pem :: "string \<Rightarrow> string \<Rightarrow> string" where
  "pem value label =
     (let value = trim value;
          opening = ''-----BEGIN '' @ label @ ''-----''; closing = ''-----END '' @ label @ ''-----'' in
      if starts_with value opening \<and> ends_with value closing then value @ [CHR 0x0A] else value)"

text \<open>\<open>Vec::dedup_by\<close>: an element goes when it is the same as the one kept before it.\<close>

fun dedup_from :: "('a \<Rightarrow> 'a \<Rightarrow> bool) \<Rightarrow> 'a \<Rightarrow> 'a list \<Rightarrow> 'a list" where
  "dedup_from same kept [] = [kept]"
| "dedup_from same kept (x # xs) =
     (if same x kept then dedup_from same kept xs else kept # dedup_from same x xs)"

fun dedup_by :: "('a \<Rightarrow> 'a \<Rightarrow> bool) \<Rightarrow> 'a list \<Rightarrow> 'a list" where
  "dedup_by same [] = []"
| "dedup_by same (x # xs) = dedup_from same x xs"

definition server_of :: "string \<Rightarrow> remote \<Rightarrow> server" where
  "server_of host r =
     \<lparr>srv_host = host, srv_port = (case rm_port r of Some p \<Rightarrow> p | None \<Rightarrow> 1194),
      srv_protocol = protocol_of (rm_protocol r)\<rparr>"

definition same_server :: "server \<Rightarrow> server \<Rightarrow> bool" where
  "same_server a b \<longleftrightarrow> srv_port a = srv_port b \<and> srv_protocol a = srv_protocol b"

definition servers_of :: "string \<Rightarrow> remote list \<Rightarrow> server list" where
  "servers_of host remotes =
     (let servers = map (server_of host) remotes;
          servers = (if servers = [] then [\<lparr>srv_host = host, srv_port = 1194, srv_protocol = Udp\<rparr>] else servers) in
      dedup_by same_server (sort_key (\<lambda>s. if srv_protocol s \<noteq> Udp then 1 else 0 :: nat) servers))"

definition account_profile :: "account_file \<Rightarrow> string \<Rightarrow> account_error + profile" where
  "account_profile file host =
     (case (case af_cipher file of Some name \<Rightarrow> (case cipher_parse name of Some c \<Rightarrow> Inr c | None \<Rightarrow> Inl (AccountError (''cipher '' @ name)))
            | None \<Rightarrow> Inr Aes256Gcm) of
        Inl e \<Rightarrow> Inl e
      | Inr cipher \<Rightarrow>
          Inr \<lparr>prof_servers = servers_of host (af_remotes file), prof_cipher = cipher,
               prof_auth = (case Option.bind (af_auth file) auth_parse of Some a \<Rightarrow> a | None \<Rightarrow> Sha1),
               prof_credentials =
                 \<lparr>cred_ca = pem (af_ca file) ''CERTIFICATE'', cred_cert = pem (af_cert file) ''CERTIFICATE'',
                  cred_key = pem (af_key file) ''PRIVATE KEY''\<rparr>\<rparr>)"

section \<open>The accounts that are loaded\<close>

text \<open>The entry a file stands for, if it can be read.\<close>

definition vpn_entry :: "(string \<Rightarrow> string + account_file) \<Rightarrow> embedded_file \<Rightarrow> (string \<times> account_file) option" where
  "vpn_entry toml file =
     Option.bind (stem_of file) (\<lambda>ip. Option.bind (contents_utf8 file) (\<lambda>text.
       case toml text of Inl _ \<Rightarrow> None | Inr account \<Rightarrow> Some (ip, account)))"

lemma embedded_fill: "embedded toml files = bt.fill (vpn_entry toml) files []"
proof -
  have step: "(\<lambda>file accounts.
       case stem_of file of
         None \<Rightarrow> accounts
       | Some ip \<Rightarrow>
           (case contents_utf8 file of
              None \<Rightarrow> accounts
            | Some text \<Rightarrow>
                (case vpn_parse toml text of
                   Inr account \<Rightarrow> btree_insert ip account accounts
                 | Inl _ \<Rightarrow> accounts))) =
    (\<lambda>file accounts. case vpn_entry toml file of None \<Rightarrow> accounts | Some (k, v) \<Rightarrow> btree_insert k v accounts)"
    by (intro ext) (simp add: vpn_entry_def vpn_parse_def split: option.splits sum.splits)
  show ?thesis unfolding embedded_def bt.fill_def step ..
qed

text \<open>
  The loaded accounts are in the order of their addresses, each once; the account of an address
  is that of the last file that can be read and has the address as its stem. A file that cannot be
  read takes no other account away.
\<close>

theorem embedded_exact:
  "btree_ok (embedded toml files) \<and>
   map_of (embedded toml files) ip =
     Option.bind (find (\<lambda>file. map_option fst (vpn_entry toml file) = Some ip) (rev files))
       (\<lambda>file. map_option snd (vpn_entry toml file))"
  unfolding embedded_fill using bt.fill_ok [OF bt.ok_empty] bt.fill_get [OF bt.ok_empty, of "vpn_entry toml" files ip]
  by (cases "find (\<lambda>file. map_option fst (vpn_entry toml file) = Some ip) (rev files)") simp_all

section \<open>The servers of a profile\<close>

lemma dedup_from_key:
  assumes "\<forall>a b. same a b \<longleftrightarrow> key a = key b"
  shows "key ` set (dedup_from same kept xs) = insert (key kept) (key ` set xs)"
  using assms by (induction same kept xs rule: dedup_from.induct) auto

lemma dedup_from_subset: "set (dedup_from same kept xs) \<subseteq> insert kept (set xs)"
  by (induction same kept xs rule: dedup_from.induct) auto

lemma dedup_from_sorted: "sorted (map f (kept # xs)) \<Longrightarrow> sorted (map f (dedup_from same kept xs))"
proof (induction same kept xs rule: dedup_from.induct)
  case (2 same kept x xs)
  have "\<forall>y \<in> set (dedup_from same x xs). f kept \<le> f y"
    using "2.prems" dedup_from_subset [of same x xs] by auto
  with 2 show ?case by auto
qed simp

lemma dedup_from_Cons: "\<exists>ys. dedup_from same kept xs = kept # ys"
  by (induction same kept xs rule: dedup_from.induct) auto

lemma same_server_key: "\<forall>a b. same_server a b \<longleftrightarrow> (srv_port a, srv_protocol a) = (srv_port b, srv_protocol b)"
  by (auto simp: same_server_def)

lemma dedup_by_key: "(\<forall>a b. same a b \<longleftrightarrow> key a = key b) \<Longrightarrow> key ` set (dedup_by same xs) = key ` set xs"
  by (cases xs) (auto simp: dedup_from_key)

lemma dedup_by_subset: "set (dedup_by same xs) \<subseteq> set xs"
  using dedup_from_subset by (cases xs) (simp, fastforce)

lemma dedup_by_sorted: "sorted (map f xs) \<Longrightarrow> sorted (map f (dedup_by same xs))"
  using dedup_from_sorted by (cases xs) (simp, fastforce)

lemma dedup_by_empty: "dedup_by same xs = [] \<longleftrightarrow> xs = []"
proof (cases xs)
  case (Cons y ys)
  then show ?thesis using dedup_from_Cons [of same y ys] by auto
qed simp

text \<open>
  The profile of an account. It is refused only for a cipher name that is not known. Otherwise
  it has at least one server (so that taking the first is safe), all on the account's host, UDP
  servers first; and, up to order and repetition, they are the remotes of the file, with
  port 1194 where none is given, or the default when the file lists none.
\<close>

theorem account_profile_servers:
  "case account_profile file host of
     Inl e \<Rightarrow> (\<exists>name. af_cipher file = Some name \<and> cipher_parse name = None \<and> e = AccountError (''cipher '' @ name))
   | Inr p \<Rightarrow>
       prof_servers p \<noteq> [] \<and> srv_host ` set (prof_servers p) = {host} \<and>
       sorted (map (\<lambda>s. srv_protocol s \<noteq> Udp) (prof_servers p)) \<and>
       (\<lambda>s. (srv_port s, srv_protocol s)) ` set (prof_servers p) =
         (if af_remotes file = [] then {(1194, Udp)}
          else (\<lambda>r. (case rm_port r of Some p \<Rightarrow> p | None \<Rightarrow> 1194, protocol_of (rm_protocol r))) ` set (af_remotes file))"
proof -
  let ?rank = "\<lambda>s. if srv_protocol s \<noteq> Udp then 1 else 0 :: nat"
  let ?base = "if map (server_of host) (af_remotes file) = [] then [\<lparr>srv_host = host, srv_port = 1194, srv_protocol = Udp\<rparr>]
    else map (server_of host) (af_remotes file)"
  let ?servers = "servers_of host (af_remotes file)"
  have s: "?servers = dedup_by same_server (sort_key ?rank ?base)" by (simp add: servers_of_def Let_def)
  have ne: "?servers \<noteq> []"
    unfolding s dedup_by_empty by (simp add: set_empty [symmetric] del: set_empty)
  have "\<forall>s \<in> set ?servers. srv_host s = host"
    unfolding s using dedup_by_subset [of same_server "sort_key ?rank ?base"]
    by (auto simp: server_of_def split: if_splits)
  then have host: "srv_host ` set ?servers = {host}" using ne by (cases ?servers) auto
  have "sorted (map ?rank ?servers)" unfolding s by (rule dedup_by_sorted) simp
  then have sorted: "sorted (map (\<lambda>s. srv_protocol s \<noteq> Udp) ?servers)"
    by (auto simp: sorted_iff_nth_mono split: if_splits)
  have keys: "(\<lambda>s. (srv_port s, srv_protocol s)) ` set ?servers =
      (if af_remotes file = [] then {(1194, Udp)}
       else (\<lambda>r. (case rm_port r of Some p \<Rightarrow> p | None \<Rightarrow> 1194, protocol_of (rm_protocol r))) ` set (af_remotes file))"
    unfolding s dedup_by_key [OF same_server_key] by (auto simp: server_of_def image_image)
  show ?thesis
  proof (cases "account_profile file host")
    case (Inl e)
    then show ?thesis by (auto simp: account_profile_def split: option.splits sum.splits)
  next
    case (Inr p)
    then have "prof_servers p = ?servers" by (auto simp: account_profile_def split: option.splits sum.splits)
    with Inr show ?thesis using ne host sorted keys by simp
  qed
qed

end
