(* ===== verification/Http_Route.thy ===== *)
theory Http_Route
  imports Ip_Addr Utf8
begin

text \<open>
  How a request selects its region, its protocol and its target (\<open>src/proxy/server.rs\<close>):
  the credentials, the authority of a \<open>CONNECT\<close>, and the path of a rewritten request. A
  \<open>Uri\<close> belongs to the \<open>http\<close> crate; the functions take the path and the query it returns.
  The base64 decoder and the header lookup are parameters for the same reason.
\<close>

section \<open>Data\<close>

datatype protocol = Ssh | Vpn

record target =
  t_scheme :: string
  t_host :: string
  t_path :: string
  t_query :: string

record route =
  r_region :: "string option"
  r_protocol :: "protocol option"

definition protocol_parse :: "string \<Rightarrow> protocol option" where
  "protocol_parse value =
     (if eq_ignore_ascii_case value ''ssh'' then Some Ssh
      else if eq_ignore_ascii_case value ''vpn'' then Some Vpn
      else None)"

fun protocol_as_str :: "protocol \<Rightarrow> string" where
  "protocol_as_str Ssh = ''ssh''"
| "protocol_as_str Vpn = ''vpn''"

definition route_region :: "route \<Rightarrow> string" where
  "route_region r = (case r_region r of None \<Rightarrow> [] | Some s \<Rightarrow> s)"

text \<open>The text that \<open>Target::uri\<close> hands to the \<open>Uri\<close> parser.\<close>

definition target_uri :: "target \<Rightarrow> string" where
  "target_uri t =
     t_scheme t @ ''://'' @ t_host t @ t_path t @
     (if t_query t \<noteq> [] then ''?'' @ t_query t else [])"

section \<open>Domains\<close>

definition valid_label :: "string \<Rightarrow> bool" where
  "valid_label part \<longleftrightarrow>
     part \<noteq> [] \<and> length part \<le> 63 \<and> \<not> starts_with part ''-'' \<and> \<not> ends_with part ''-'' \<and>
     list_all (\<lambda>c. is_ascii_alphanumeric c \<or> c = CHR ''-'') part"

definition is_valid_domain :: "string \<Rightarrow> bool" where
  "is_valid_domain domain =
     (if domain = [] \<or> 253 < length domain then False
      else if parse_ip_addr domain \<noteq> None then True
      else if CHR ''.'' \<notin> set domain then False
      else list_all valid_label (split_on CHR ''.'' domain))"

section \<open>The rewritten path\<close>

text \<open>The loop \<open>for _ in 0..2\<close> that takes the protocol and the region off the path.\<close>

fun take_route ::
  "nat \<Rightarrow> protocol option \<Rightarrow> string option \<Rightarrow> string \<Rightarrow> protocol option \<times> string option \<times> string" where
  "take_route 0 protocol region rest = (protocol, region, rest)"
| "take_route (Suc k) protocol region rest =
     (case split_once CHR ''/'' rest of
        None \<Rightarrow> (protocol, region, rest)
      | Some (head, tail) \<Rightarrow>
          if head = [] \<or> CHR ''.'' \<in> set head \<or> CHR '':'' \<in> set head
          then (protocol, region, rest)
          else if protocol = None \<and> protocol_parse head \<noteq> None
          then take_route k (protocol_parse head) region tail
          else if region = None
          then take_route k protocol (Some (to_ascii_uppercase head)) tail
          else (protocol, region, rest))"

definition take_scheme :: "string \<Rightarrow> string \<times> string" where
  "take_scheme rest =
     (let lower = to_ascii_lowercase rest in
      if starts_with lower ''https://'' then (''https'', drop (length ''https://'') rest)
      else if starts_with lower ''http://'' then (''http'', drop (length ''http://'') rest)
      else if starts_with lower ''https:'' then (''https'', drop (length ''https:'') rest)
      else if starts_with lower ''http:'' then (''http'', drop (length ''http:'') rest)
      else (''https'', rest))"

definition parse_path :: "string \<Rightarrow> string option \<Rightarrow> (route \<times> target) option" where
  "parse_path path query =
     (let rest = trim_start_matches (\<lambda>c. c = CHR ''/'') path in
      if rest = [] then None
      else
        let (protocol, region, rest) = take_route 2 None None rest;
            (scheme, rest) = take_scheme rest;
            rest = trim_start_matches (\<lambda>c. c = CHR ''/'') rest
        in
        if rest = [] then None
        else
          let (domain, path) =
                (case find_char CHR ''/'' rest of
                   Some index \<Rightarrow> (take index rest, drop index rest)
                 | None \<Rightarrow> (rest, ''/''));
              domain = List.last (split_on CHR ''@'' domain)
          in
          if \<not> is_valid_domain domain then None
          else Some
            (\<lparr>r_region = region, r_protocol = protocol\<rparr>,
             \<lparr>t_scheme = scheme, t_host = domain, t_path = path,
              t_query = (case query of None \<Rightarrow> [] | Some q \<Rightarrow> q)\<rparr>))"

section \<open>Authorities and credentials\<close>

definition is_bracket :: "char \<Rightarrow> bool" where
  "is_bracket c \<longleftrightarrow> c = CHR ''['' \<or> c = CHR '']''"

definition default_port :: "string \<Rightarrow> u16" where
  "default_port scheme = (if scheme = ''https'' then 443 else 80)"

definition split_authority :: "string \<Rightarrow> string \<Rightarrow> string \<times> u16" where
  "split_authority authority scheme =
     (case rsplit_once CHR '':'' authority of
        Some (host, port_text) \<Rightarrow>
          (case parse_u16 port_text of
             Some port \<Rightarrow>
               if CHR '']'' \<notin> set host \<or> ends_with host '']''
               then (trim_matches is_bracket host, port)
               else (trim_matches is_bracket authority, default_port scheme)
           | None \<Rightarrow> (trim_matches is_bracket authority, default_port scheme))
      | None \<Rightarrow> (trim_matches is_bracket authority, default_port scheme))"

text \<open>
  \<open>b64\<close> is the standard base64 decoder, \<open>get\<close> the header lookup followed by
  \<open>HeaderValue::to_str\<close>: the outer option says whether the header is present, the inner one
  whether its value is visible ASCII.
\<close>

definition decode_username :: "(string \<Rightarrow> bytes option) \<Rightarrow> string \<Rightarrow> string" where
  "decode_username b64 encoded =
     (case b64 encoded of
        None \<Rightarrow> []
      | Some decoded \<Rightarrow> hd (split_on CHR '':'' (from_utf8_lossy decoded)))"

definition auth_username ::
  "(string \<Rightarrow> bytes option) \<Rightarrow> (string \<Rightarrow> string option option) \<Rightarrow> string" where
  "auth_username b64 get =
     (let header = (case get ''proxy-authorization'' of
                      Some v \<Rightarrow> Some v | None \<Rightarrow> get ''authorization'') in
      case header of
        None \<Rightarrow> []
      | Some None \<Rightarrow> []
      | Some (Some value) \<Rightarrow>
          (case strip_prefix value ''Basic '' of
             None \<Rightarrow> []
           | Some encoded \<Rightarrow> decode_username b64 (trim encoded)))"

section \<open>Facts about domains\<close>

definition host_char :: "char \<Rightarrow> bool" where
  "host_char c \<longleftrightarrow> is_ascii_alphanumeric c \<or> c = CHR ''-'' \<or> c = CHR ''.'' \<or> c = CHR '':''"

lemma host_char_not [simp]:
  "\<not> host_char CHR ''/''" "\<not> host_char CHR ''@''" "\<not> host_char CHR ''['' " "\<not> host_char CHR '']''"
  by (simp_all add: host_char_def is_ascii_alphanumeric_def is_ascii_upper_def is_ascii_lower_def
      is_ascii_digit_def)

lemma ip_char_host_char: "ip_char c \<Longrightarrow> host_char c"
  by (auto simp: ip_char_def host_char_def is_ascii_alphanumeric_def is_ascii_upper_def
      is_ascii_lower_def is_ascii_digit_def to_digit_def Let_def split: if_splits)

lemma set_split_on: "set s \<subseteq> insert c (\<Union> (set ` set (split_on c s)))"
proof (induction s)
  case (Cons a s)
  obtain p ps where "split_on c s = p # ps" using split_on_nonempty by (meson list.exhaust)
  with Cons show ?case by auto
qed simp

lemma valid_domain_chars:
  assumes v: "is_valid_domain d" and c: "c \<in> set d"
  shows "host_char c"
proof (cases "parse_ip_addr d")
  case (Some a)
  then have "ip_char c" using parse_ip_addr_chars [of d a] c by (simp add: list_all_iff)
  then show ?thesis by (rule ip_char_host_char)
next
  case None
  then have lab: "\<forall>part \<in> set (split_on CHR ''.'' d). valid_label part"
    using v by (auto simp: is_valid_domain_def list_all_iff split: if_splits)
  from set_split_on [of d "CHR ''.''"] c
  have "c = CHR ''.'' \<or> (\<exists>part \<in> set (split_on CHR ''.'' d). c \<in> set part)" by blast
  then show ?thesis
    using lab by (fastforce simp: host_char_def valid_label_def list_all_iff)
qed

lemma valid_domain_not_in:
  "is_valid_domain d \<Longrightarrow> CHR ''/'' \<notin> set d \<and> CHR ''@'' \<notin> set d"
  using valid_domain_chars host_char_not by blast

lemma valid_domain_nonempty: "is_valid_domain d \<Longrightarrow> d \<noteq> []"
  by (auto simp: is_valid_domain_def)

section \<open>Facts about the route prefix\<close>

lemma char_lower_eq: "char_lower c = d \<Longrightarrow> \<not> is_ascii_lower d \<Longrightarrow> c = d"
  by (auto simp: char_lower_def is_ascii_lower_def is_ascii_upper_def split: if_splits)

lemma protocol_parse_Some:
  assumes "protocol_parse p = Some q"
  shows "p \<noteq> []" "CHR ''/'' \<notin> set p" "CHR ''.'' \<notin> set p" "CHR '':'' \<notin> set p"
proof -
  from assms have m: "map char_lower p = ''ssh'' \<or> map char_lower p = ''vpn''"
    by (auto simp: protocol_parse_def eq_ignore_ascii_case_def to_ascii_lowercase_def
        char_lower_def is_ascii_upper_def split: if_splits)
  then show "p \<noteq> []" by auto
  have "c \<in> set p \<Longrightarrow> char_lower c \<in> set ''ssh'' \<union> set ''vpn''" for c
    using m by (metis Un_iff image_eqI set_map)
  then show "CHR ''/'' \<notin> set p" "CHR ''.'' \<notin> set p" "CHR '':'' \<notin> set p"
    by (fastforce simp: char_lower_def is_ascii_upper_def)+
qed

definition region_word :: "string \<Rightarrow> bool" where
  "region_word g \<longleftrightarrow>
     g \<noteq> [] \<and> CHR ''/'' \<notin> set g \<and> CHR ''.'' \<notin> set g \<and> CHR '':'' \<notin> set g \<and> protocol_parse g = None"

lemma take_route_protocol:
  "protocol_parse p = Some q \<Longrightarrow>
     take_route (Suc k) None region (p @ CHR ''/'' # rest) = take_route k (Some q) region rest"
  using protocol_parse_Some [of p q] by simp

lemma take_route_region:
  "region_word g \<Longrightarrow>
     take_route (Suc k) protocol None (g @ CHR ''/'' # rest) =
     take_route k protocol (Some (to_ascii_uppercase g)) rest"
  by (simp add: region_word_def)

lemma no_scheme:
  assumes u: "CHR ''/'' \<notin> set u" "CHR '':'' \<notin> set d"
  shows "\<not> starts_with (to_ascii_lowercase (d @ CHR ''/'' # t)) (u @ CHR '':'' # v)"
proof
  let ?s = "d @ CHR ''/'' # t"
  assume "starts_with (to_ascii_lowercase ?s) (u @ CHR '':'' # v)"
  then obtain z where z: "map char_lower ?s = u @ CHR '':'' # v @ z"
    by (auto simp: to_ascii_lowercase_def elim: starts_withE)
  then have len: "length u < length ?s"
    by (metis length_append length_map add_less_cancel_left length_greater_0_conv list.simps(3)
        add.right_neutral)
  have colon: "char_lower (?s ! length u) = CHR '':''"
    using len by (metis z nth_append_length nth_map)
  then have at: "?s ! length u = CHR '':''"
    by (rule char_lower_eq) (simp add: is_ascii_lower_def)
  show False
  proof (cases "length u < length d")
    case True
    then have "CHR '':'' \<in> set d" using at by (simp add: nth_append) (metis nth_mem)
    then show False using u by simp
  next
    case False
    then have "length d < length u"
      using at by (cases "length u = length d") auto
    moreover have "map char_lower ?s ! length d = char_lower CHR ''/''"
      by (simp add: nth_append)
    ultimately have "u ! length d = char_lower CHR ''/''"
      unfolding z by (simp add: nth_append)
    then have "u ! length d = CHR ''/''" by (simp add: char_lower_def is_ascii_upper_def)
    then show False using \<open>length d < length u\<close> u(1) nth_mem by metis
  qed
qed

lemma take_scheme_plain:
  assumes "CHR '':'' \<notin> set d"
  shows "take_scheme (d @ CHR ''/'' # t) = (''https'', d @ CHR ''/'' # t)"
proof -
  have *: "\<not> starts_with (to_ascii_lowercase (d @ CHR ''/'' # t)) (u @ CHR '':'' # v)"
    if "CHR ''/'' \<notin> set u" for u v
    using no_scheme [OF that assms] .
  show ?thesis
    using * [of "''https''" "''//''"] * [of "''http''" "''//''"]
      * [of "''https''" "[]"] * [of "''http''" "[]"]
    by (simp add: take_scheme_def)
qed

lemma trim_start_slash:
  "s \<noteq> [] \<Longrightarrow> CHR ''/'' \<notin> set s \<Longrightarrow>
     trim_start_matches (\<lambda>c. c = CHR ''/'') (s @ t) = s @ t"
  by (cases s) (auto simp: trim_start_matches_def)

lemma parse_path_after_route:
  assumes d: "is_valid_domain d" "CHR '':'' \<notin> set d"
    and rest: "trim_start_matches (\<lambda>c. c = CHR ''/'') path = rest" "rest \<noteq> []"
    and route: "take_route 2 None None rest = (pr, rg, d @ CHR ''/'' # t)"
  shows "parse_path path query =
     Some (\<lparr>r_region = rg, r_protocol = pr\<rparr>,
           \<lparr>t_scheme = ''https'', t_host = d, t_path = CHR ''/'' # t,
            t_query = (case query of None \<Rightarrow> [] | Some q \<Rightarrow> q)\<rparr>)"
  using assms valid_domain_not_in [OF d(1)] valid_domain_nonempty [OF d(1)]
  by (simp add: parse_path_def take_scheme_plain trim_start_slash split_on_no_sep)

lemma is_valid_domain_name:
  "\<not> list_all ip_char d \<Longrightarrow>
     is_valid_domain d \<longleftrightarrow>
     d \<noteq> [] \<and> length d \<le> 253 \<and> CHR ''.'' \<in> set d \<and> list_all valid_label (split_on CHR ''.'' d)"
  using parse_ip_addr_chars [of d] by (cases "parse_ip_addr d") (auto simp: is_valid_domain_def)

lemmas char_eval =
  is_ascii_upper_def is_ascii_lower_def is_ascii_digit_def is_ascii_alphanumeric_def
  char_upper_def char_lower_def to_ascii_uppercase_def to_ascii_lowercase_def
  eq_ignore_ascii_case_def starts_with_def ends_with_def split_once_def

lemma example_domain: "is_valid_domain ''example.com''"
  by (subst is_valid_domain_name) (simp_all add: ip_char_def to_digit_def valid_label_def char_eval)

section \<open>Properties\<close>

text \<open>
  C18: whatever path a client sends, a target that \<open>parse_path\<close> returns has a valid domain
  made of letters, digits, dashes, dots and colons only (so no credentials, no path
  separator and no control character reaches the outgoing request), the scheme is http or
  https, and the path is absolute.
\<close>

theorem parse_path_sound:
  assumes "parse_path path query = Some (r, t)"
  shows "is_valid_domain (t_host t) \<and> list_all host_char (t_host t) \<and>
    (t_scheme t = ''http'' \<or> t_scheme t = ''https'') \<and> starts_with (t_path t) ''/''"
proof -
  have sch: "fst (take_scheme s) = ''http'' \<or> fst (take_scheme s) = ''https''" for s
    by (simp add: take_scheme_def Let_def)
  have slash: "starts_with (drop i s) ''/''" if "find_char CHR ''/'' s = Some i" for i s
    using find_char_Some [OF that] by (simp add: starts_with_def take_Suc_conv_app_nth hd_drop_conv_nth
        flip: Cons_nth_drop_Suc)
  from assms have "is_valid_domain (t_host t)" "starts_with (t_path t) ''/''"
    "\<exists>s. t_scheme t = fst (take_scheme s)"
    by (auto simp: parse_path_def Let_def case_prod_beta starts_with_def split: if_splits option.splits
        dest!: slash)
  moreover have "list_all host_char (t_host t)"
    using valid_domain_chars [OF \<open>is_valid_domain (t_host t)\<close>] by (simp add: list_all_iff)
  ultimately show ?thesis using sch by metis
qed

theorem parse_path_sound_witness:
  "is_valid_domain ''example.com'' \<and> starts_with ''/a'' ''/''"
proof -
  have "parse_path ''/user:pw@example.com/a'' None =
    Some (\<lparr>r_region = None, r_protocol = None\<rparr>,
          \<lparr>t_scheme = ''https'', t_host = ''example.com'', t_path = ''/a'', t_query = []\<rparr>)"
    using example_domain
    by (simp add: parse_path_def numeral_2_eq_2 take_scheme_def trim_start_matches_def char_eval)
  from parse_path_sound [OF this] show ?thesis by simp
qed

text \<open>
  C19: a path of the form protocol/region/domain/rest selects that protocol and the region in
  upper case, and the same request with region and protocol swapped selects the same route
  and target.
\<close>

theorem parse_path_route:
  assumes "protocol_parse p = Some pr" and "region_word g"
    and "is_valid_domain d" and "CHR '':'' \<notin> set d"
  shows "parse_path (''/'' @ p @ ''/'' @ g @ ''/'' @ d @ ''/'' @ t) query =
      Some (\<lparr>r_region = Some (to_ascii_uppercase g), r_protocol = Some pr\<rparr>,
            \<lparr>t_scheme = ''https'', t_host = d, t_path = ''/'' @ t,
             t_query = (case query of None \<Rightarrow> [] | Some q \<Rightarrow> q)\<rparr>) \<and>
    parse_path (''/'' @ g @ ''/'' @ p @ ''/'' @ d @ ''/'' @ t) query =
    parse_path (''/'' @ p @ ''/'' @ g @ ''/'' @ d @ ''/'' @ t) query"
proof -
  have g: "g \<noteq> []" "CHR ''/'' \<notin> set g" using assms(2) by (simp_all add: region_word_def)
  note p = protocol_parse_Some [OF assms(1)]
  have slash: "trim_start_matches (\<lambda>c. c = CHR ''/'') (''/'' @ s @ u) = s @ u"
    if "s \<noteq> []" "CHR ''/'' \<notin> set s" for s u
    using trim_start_slash [OF that] by (simp add: trim_start_matches_def)
  have "parse_path (''/'' @ p @ ''/'' @ g @ ''/'' @ d @ ''/'' @ t) query =
      Some (\<lparr>r_region = Some (to_ascii_uppercase g), r_protocol = Some pr\<rparr>,
            \<lparr>t_scheme = ''https'', t_host = d, t_path = CHR ''/'' # t,
             t_query = (case query of None \<Rightarrow> [] | Some q \<Rightarrow> q)\<rparr>)"
    by (rule parse_path_after_route [OF assms(3,4) slash])
      (simp_all add: p numeral_2_eq_2 take_route_protocol [OF assms(1)]
        take_route_region [OF assms(2)] del: take_route.simps(2))
  moreover have "parse_path (''/'' @ g @ ''/'' @ p @ ''/'' @ d @ ''/'' @ t) query =
      Some (\<lparr>r_region = Some (to_ascii_uppercase g), r_protocol = Some pr\<rparr>,
            \<lparr>t_scheme = ''https'', t_host = d, t_path = CHR ''/'' # t,
             t_query = (case query of None \<Rightarrow> [] | Some q \<Rightarrow> q)\<rparr>)"
    by (rule parse_path_after_route [OF assms(3,4) slash])
      (simp_all add: g numeral_2_eq_2 take_route_protocol [OF assms(1)]
        take_route_region [OF assms(2)] del: take_route.simps(2))
  ultimately show ?thesis by simp
qed

theorem parse_path_route_witness:
  "parse_path ''/ca/SSH/example.com/a'' None = parse_path ''/SSH/ca/example.com/a'' None"
proof -
  have "protocol_parse ''SSH'' = Some Ssh" "region_word ''ca''"
    "is_valid_domain ''example.com''" "CHR '':'' \<notin> set ''example.com''"
    using example_domain by (simp_all add: protocol_parse_def region_word_def char_eval char_of_def
        bit_Suc_0_iff)
  from parse_path_route [OF this, of "''a''" None] show ?thesis by simp
qed

text \<open>
  The authority of a \<open>CONNECT\<close> is split correctly in its three written forms: a host
  and a port, a bracketed IPv6 address and a port, and a bracketed IPv6 address alone, which
  gets the default port of the scheme.
\<close>

theorem split_authority_forms:
  assumes "\<forall>c \<in> set host. \<not> is_bracket c" and "host \<noteq> []"
  shows "split_authority (host @ '':'' @ show_nat (unat port)) scheme = (host, port) \<and>
    split_authority (''['' @ host @ '']:'' @ show_nat (unat port)) scheme = (host, port) \<and>
    split_authority (''['' @ host @ '']'') scheme = (host, default_port scheme)"
proof -
  have digits: "\<forall>c \<in> set (show_nat n). is_ascii_digit c" for n
    using show_nat_digits by blast
  have colon: "CHR '':'' \<notin> set (show_nat n)" for n
    using digits [of n] by (auto simp: is_ascii_digit_def)
  have nb: "CHR '']'' \<notin> set host" using assms by (auto simp: is_bracket_def)
  have un: "trim_matches is_bracket (''['' @ host @ '']'') = host"
    using assms trim_matches_none [of host is_bracket]
    by (cases host) (auto simp: trim_matches_def is_bracket_def dropWhile_append)
  have "rsplit_once CHR '':'' (host @ '':'' @ show_nat (unat port)) = Some (host, show_nat (unat port))"
    using colon by (simp add: rsplit_once_append)
  then have 1: "split_authority (host @ '':'' @ show_nat (unat port)) scheme = (host, port)"
    using nb trim_matches_none [OF assms(1)] by (simp add: split_authority_def)
  have "rsplit_once CHR '':'' (''['' @ host @ '']:'' @ show_nat (unat port)) =
      Some (''['' @ host @ '']'', show_nat (unat port))"
    using colon rsplit_once_append [of "CHR '':''" "show_nat (unat port)" "''['' @ host @ '']''"] by simp
  then have 2: "split_authority (''['' @ host @ '']:'' @ show_nat (unat port)) scheme = (host, port)"
    using un by (simp add: split_authority_def ends_with_def)
  have no_port: "parse_u16 (s @ '']'') = None" for s
  proof -
    have "digits_value n (s @ '']'') = None" for n s
      by (simp add: digits_value_append is_ascii_digit_def split: bind_split)
    then show ?thesis
      by (cases s) (auto simp: parse_u16_def parse_unsigned_def Let_def is_ascii_digit_def)
  qed
  have 3: "split_authority (''['' @ host @ '']'') scheme = (host, default_port scheme)"
  proof (cases "rsplit_once CHR '':'' (''['' @ host @ '']'')")
    case None
    then show ?thesis using un by (simp add: split_authority_def)
  next
    case (Some ab)
    then obtain a b where ab: "ab = (a, b)" "''['' @ host @ '']'' = a @ CHR '':'' # b"
      by (cases ab) (auto simp: rsplit_once_Some)
    then have "List.last (a @ CHR '':'' # b) = CHR '']''"
      by (simp flip: ab(2))
    then have "List.last b = CHR '']''" "b \<noteq> []" by (auto split: if_splits)
    then have "b = butlast b @ '']''" using append_butlast_last_id [of b] by simp
    then have "parse_u16 b = None" using no_port [of "butlast b"] by simp
    then show ?thesis using Some ab un by (simp add: split_authority_def)
  qed
  show ?thesis using 1 2 3 by blast
qed

theorem split_authority_forms_witness:
  "split_authority ''[::1]:1194'' ''https'' = (''::1'', 1194)"
proof -
  have "\<forall>c \<in> set ''::1''. \<not> is_bracket c" "''::1'' \<noteq> []" by (simp_all add: is_bracket_def)
  from split_authority_forms [OF this, of 1194 "''https''"]
  have "split_authority (''['' @ ''::1'' @ '']:'' @ show_nat (unat (1194 :: u16))) ''https'' = (''::1'', 1194)"
    by blast
  then show ?thesis by (simp add: show_nat.simps char_of_def bit_Suc_0_iff)
qed

text \<open>
  With basic credentials in either header, the region name is the user part before the
  first colon; \<open>Proxy-Authorization\<close> wins over \<open>Authorization\<close>, and a header that is not
  basic authentication gives the empty name. \<open>b64\<close> stands for the base64 decoder and is
  only assumed to decode the given text.
\<close>

theorem auth_username_basic:
  assumes hdr: "get ''proxy-authorization'' = Some (Some (''Basic '' @ enc)) \<or>
      (get ''proxy-authorization'' = None \<and> get ''authorization'' = Some (Some (''Basic '' @ enc)))"
    and dec: "b64 (trim enc) = Some (as_bytes (user @ '':'' @ password))"
    and ascii: "is_ascii (user @ '':'' @ password)" and "CHR '':'' \<notin> set user"
  shows "auth_username b64 get = user"
proof -
  have "from_utf8_lossy (as_bytes (user @ '':'' @ password)) = user @ '':'' @ password"
    using ascii by (rule from_utf8_lossy_ascii)
  then have "decode_username b64 (trim enc) = user"
    using assms(4) by (simp add: decode_username_def dec split_on_append_sep)
  moreover have "strip_prefix (''Basic '' @ enc) ''Basic '' = Some enc"
    by (rule strip_prefix_append)
  ultimately show ?thesis using hdr by (auto simp: auth_username_def simp del: append_Cons append_Nil)
qed

theorem auth_username_basic_witness:
  "auth_username (\<lambda>_. Some (as_bytes ''sg:secret''))
     [''authorization'' \<mapsto> Some ''Basic c2c6c2VjcmV0''] = ''sg''"
proof (rule auth_username_basic [where enc = "''c2c6c2VjcmV0''" and password = "''secret''"])
  show "is_ascii (''sg'' @ '':'' @ ''secret'')" by (simp add: is_ascii_def)
qed simp_all

end
