(* ===== verification/Pool.thy ===== *)
theory Pool
  imports Http_Route "HOL-Library.Multiset"
begin

text \<open>
  The proxy pool (\<open>src/proxy/pool.rs\<close>). Pools are shared (\<open>Arc\<close>) and a pool sees its
  children live, so pools are objects in a heap: an address stands for the \<open>Arc\<close>, and two
  \<open>Arc\<close>s are pointer-equal when the addresses are. A tunnel is a value of a type variable;
  its trait methods are the arguments \<open>is_ready\<close>, \<open>target_pool\<close> and \<open>active_tunnels\<close>.
\<close>

section \<open>Data\<close>

record 't pool_proxy =
  pp_key :: string
  pp_tunnel :: 't
  pp_priority :: nat
  pp_protocol :: protocol

record 't candidate =
  c_key :: string
  c_tunnel :: 't
  c_priority :: nat
  c_protocol :: protocol

type_synonym pool_addr = nat

record 't proxy_pool =
  pool_proxies :: "'t pool_proxy list"
  pool_children :: "pool_addr list"
  pool_rotation :: u64

type_synonym 't heap = "pool_addr \<Rightarrow> 't proxy_pool option"

section \<open>Operations\<close>

definition pool_new :: "'t pool_proxy list \<Rightarrow> 't proxy_pool" where
  "pool_new proxies = \<lparr>pool_proxies = proxies, pool_children = [], pool_rotation = 0\<rparr>"

definition to_candidate :: "'t pool_proxy \<Rightarrow> 't candidate" where
  "to_candidate p =
     \<lparr>c_key = pp_key p, c_tunnel = pp_tunnel p, c_priority = pp_priority p,
      c_protocol = pp_protocol p\<rparr>"

definition pool_local :: "'t proxy_pool \<Rightarrow> protocol option \<Rightarrow> 't candidate list" where
  "pool_local p protocol =
     map to_candidate
       (filter (\<lambda>x. case protocol of None \<Rightarrow> True | Some wanted \<Rightarrow> pp_protocol x = wanted)
          (pool_proxies p))"

text \<open>The inner loop of \<open>filtered\<close> and of \<open>all\<close>: append what has a new key.\<close>

fun add_new :: "('a \<Rightarrow> string) \<Rightarrow> 'a list \<Rightarrow> 'a list \<Rightarrow> 'a list" where
  "add_new key known [] = known"
| "add_new key known (c # cs) =
     add_new key (if key c \<in> key ` set known then known else known @ [c]) cs"

definition rotate_left :: "nat \<Rightarrow> 'a list \<Rightarrow> 'a list" where
  "rotate_left k xs = drop k xs @ take k xs"

text \<open>
  \<open>filtered\<close> recurses into the children and advances the rotation counter of every pool it
  visits. The first argument bounds the depth of the recursion; \<open>None\<close> is a recursion that
  does not end (a cycle of pools), which no acyclic heap has.
\<close>

function (sequential)
  filtered :: "nat \<Rightarrow> 't heap \<Rightarrow> pool_addr \<Rightarrow> protocol option \<Rightarrow> ('t candidate list \<times> 't heap) option"
and filtered_children ::
  "nat \<Rightarrow> 't heap \<Rightarrow> pool_addr list \<Rightarrow> protocol option \<Rightarrow> 't candidate list \<Rightarrow>
   ('t candidate list \<times> 't heap) option"
where
  "filtered 0 h a protocol = None"
| "filtered (Suc n) h a protocol =
     (case h a of
        None \<Rightarrow> None
      | Some self \<Rightarrow>
          (case filtered_children n h (pool_children self) protocol (pool_local self protocol) of
             None \<Rightarrow> None
           | Some (ready, h') \<Rightarrow>
               let ready = sort_key c_priority ready in
               if 1 < length ready then
                 (case h' a of
                    None \<Rightarrow> None
                  | Some self' \<Rightarrow>
                      let offset = unat (pool_rotation self') mod length ready in
                      Some (rotate_left offset ready,
                            h'(a \<mapsto> self'\<lparr>pool_rotation := pool_rotation self' + 1\<rparr>)))
               else Some (ready, h')))"
| "filtered_children n h [] protocol ready = Some (ready, h)"
| "filtered_children n h (c # cs) protocol ready =
     (case filtered n h c protocol of
        None \<Rightarrow> None
      | Some (found, h') \<Rightarrow> filtered_children n h' cs protocol (add_new c_key ready found))"
  by pat_completeness auto
termination
  by (relation "measures
       [\<lambda>x. case x of Inl (n, _) \<Rightarrow> n | Inr (n, _) \<Rightarrow> n,
        \<lambda>x. case x of Inl _ \<Rightarrow> 0 | Inr (n, h, cs, _) \<Rightarrow> Suc (length cs)]") auto

definition candidates :: "nat \<Rightarrow> 't heap \<Rightarrow> pool_addr \<Rightarrow> ('t candidate list \<times> 't heap) option" where
  "candidates n h a = filtered n h a None"

definition candidates_for ::
  "nat \<Rightarrow> 't heap \<Rightarrow> pool_addr \<Rightarrow> protocol \<Rightarrow> ('t candidate list \<times> 't heap) option" where
  "candidates_for n h a protocol = filtered n h a (Some protocol)"

definition add_child :: "'t heap \<Rightarrow> pool_addr \<Rightarrow> pool_addr \<Rightarrow> 't heap" where
  "add_child h a child =
     (case h a of
        None \<Rightarrow> h
      | Some self \<Rightarrow>
          if child \<in> set (pool_children self) then h
          else h(a \<mapsto> self\<lparr>pool_children := pool_children self @ [child]\<rparr>))"

text \<open>
  \<open>select\<close> polls: every round asks \<open>filtered\<close> again and waits 200 ms when no candidate is
  ready. The readiness of a tunnel changes under the loop, so it is a function of the round.
  The first argument bounds the number of rounds; \<open>None\<close> means no answer within it.
\<close>

fun select ::
  "nat \<Rightarrow> nat \<Rightarrow> (nat \<Rightarrow> 't \<Rightarrow> bool) \<Rightarrow> nat \<Rightarrow> 't heap \<Rightarrow> pool_addr \<Rightarrow> protocol option \<Rightarrow>
   ('t candidate option \<times> 't heap) option" where
  "select 0 round is_ready n h a protocol = None"
| "select (Suc k) round is_ready n h a protocol =
     (case filtered n h a protocol of
        None \<Rightarrow> None
      | Some (found, h') \<Rightarrow>
          if found = [] then Some (None, h')
          else
            (case find (\<lambda>c. is_ready round (c_tunnel c)) found of
               Some c \<Rightarrow> Some (Some c, h')
             | None \<Rightarrow> select k (Suc round) is_ready n h' a protocol))"

definition pick ::
  "nat \<Rightarrow> (nat \<Rightarrow> 't \<Rightarrow> bool) \<Rightarrow> nat \<Rightarrow> 't heap \<Rightarrow> pool_addr \<Rightarrow>
   ('t candidate option \<times> 't heap) option" where
  "pick k is_ready n h a = select k 0 is_ready n h a None"

definition push :: "'t proxy_pool \<Rightarrow> 't pool_proxy \<Rightarrow> 't proxy_pool" where
  "push p proxy =
     (if pp_key proxy \<in> pp_key ` set (pool_proxies p) then p
      else p\<lparr>pool_proxies := pool_proxies p @ [proxy]\<rparr>)"

definition remove :: "'t proxy_pool \<Rightarrow> string \<Rightarrow> 't proxy_pool" where
  "remove p key = p\<lparr>pool_proxies := filter (\<lambda>x. pp_key x \<noteq> key) (pool_proxies p)\<rparr>"

function (sequential)
  pool_all :: "nat \<Rightarrow> 't heap \<Rightarrow> pool_addr \<Rightarrow> 't pool_proxy list option"
and pool_all_children ::
  "nat \<Rightarrow> 't heap \<Rightarrow> pool_addr list \<Rightarrow> 't pool_proxy list \<Rightarrow> 't pool_proxy list option"
where
  "pool_all 0 h a = None"
| "pool_all (Suc n) h a =
     (case h a of
        None \<Rightarrow> None
      | Some self \<Rightarrow> pool_all_children n h (pool_children self) (pool_proxies self))"
| "pool_all_children n h [] proxies = Some proxies"
| "pool_all_children n h (c # cs) proxies =
     (case pool_all n h c of
        None \<Rightarrow> None
      | Some found \<Rightarrow> pool_all_children n h cs (add_new pp_key proxies found))"
  by pat_completeness auto
termination
  by (relation "measures
       [\<lambda>x. case x of Inl (n, _) \<Rightarrow> n | Inr (n, _) \<Rightarrow> n,
        \<lambda>x. case x of Inl _ \<Rightarrow> 0 | Inr (n, h, cs, _) \<Rightarrow> Suc (length cs)]") auto

definition contains :: "nat \<Rightarrow> 't heap \<Rightarrow> pool_addr \<Rightarrow> string \<Rightarrow> bool option" where
  "contains n h a key = map_option (\<lambda>ps. key \<in> pp_key ` set ps) (pool_all n h a)"

definition pool_count :: "nat \<Rightarrow> 't heap \<Rightarrow> pool_addr \<Rightarrow> nat option" where
  "pool_count n h a = map_option length (pool_all n h a)"

definition tunnel_count :: "('t \<Rightarrow> nat) \<Rightarrow> nat \<Rightarrow> 't heap \<Rightarrow> pool_addr \<Rightarrow> nat option" where
  "tunnel_count target_pool n h a =
     map_option (\<lambda>ps. sum_list (map (\<lambda>p. target_pool (pp_tunnel p)) ps)) (pool_all n h a)"

definition usable_count :: "('t \<Rightarrow> nat) \<Rightarrow> nat \<Rightarrow> 't heap \<Rightarrow> pool_addr \<Rightarrow> nat option" where
  "usable_count active_tunnels n h a =
     map_option (\<lambda>ps. sum_list (map (\<lambda>p. active_tunnels (pp_tunnel p)) ps)) (pool_all n h a)"

section \<open>Lists\<close>

lemma mset_rotate_left [simp]: "mset (rotate_left k xs) = mset xs"
  by (metis append_take_drop_id mset_append rotate_left_def union_commute)

lemma set_rotate_left [simp]: "set (rotate_left k xs) = set xs"
  by (metis mset_rotate_left set_mset_mset)

lemma length_rotate_left [simp]: "length (rotate_left k xs) = length xs"
  by (metis mset_rotate_left size_mset)

lemma distinct_map_rotate_left [simp]:
  "distinct (map f (rotate_left k xs)) \<longleftrightarrow> distinct (map f xs)"
proof -
  have "mset (map f (rotate_left k xs)) = mset (map f xs)" by simp
  then show ?thesis by (metis mset_eq_imp_distinct_iff)
qed

lemma distinct_map_sort_key [simp]: "distinct (map f (sort_key k xs)) \<longleftrightarrow> distinct (map f xs)"
proof -
  have "mset (map f (sort_key k xs)) = mset (map f xs)" by simp
  then show ?thesis by (metis mset_eq_imp_distinct_iff)
qed

lemma hd_rotate_left: "k < length xs \<Longrightarrow> hd (rotate_left k xs) = xs ! k"
  by (simp add: rotate_left_def hd_append hd_drop_conv_nth)

lemma sort_key_const: "\<forall>x \<in> set xs. f x = k \<Longrightarrow> sort_key f xs = xs"
  by (induction xs) (auto simp: insort_is_Cons)

lemma add_new_keys: "key ` set (add_new key known cs) = key ` set known \<union> key ` set cs"
  by (induction key known cs rule: add_new.induct) auto

lemma add_new_set: "set (add_new key known cs) \<subseteq> set known \<union> set cs"
  by (induction key known cs rule: add_new.induct) (auto split: if_splits)

lemma add_new_distinct:
  "distinct (map key known) \<Longrightarrow> distinct (map key (add_new key known cs))"
  by (induction key known cs rule: add_new.induct) (auto split: if_splits)

section \<open>Shape of the heap\<close>

text \<open>
  \<open>ranked r h\<close>: every child exists and has a smaller rank, so there is no cycle.
  \<open>same_shape\<close>: two heaps differ in the rotation counters only.
\<close>

definition ranked :: "(pool_addr \<Rightarrow> nat) \<Rightarrow> 't heap \<Rightarrow> bool" where
  "ranked r h \<longleftrightarrow>
     (\<forall>a p. h a = Some p \<longrightarrow> (\<forall>c \<in> set (pool_children p). h c \<noteq> None \<and> r c < r a))"

definition keys_ok :: "'t heap \<Rightarrow> bool" where
  "keys_ok h \<longleftrightarrow> (\<forall>a p. h a = Some p \<longrightarrow> distinct (map pp_key (pool_proxies p)))"

definition shape_of :: "'t proxy_pool \<Rightarrow> 't pool_proxy list \<times> pool_addr list" where
  "shape_of p = (pool_proxies p, pool_children p)"

definition same_shape :: "'t heap \<Rightarrow> 't heap \<Rightarrow> bool" where
  "same_shape h h' \<longleftrightarrow> (\<forall>a. map_option shape_of (h a) = map_option shape_of (h' a))"

lemma same_shape_refl [simp]: "same_shape h h"
  by (simp add: same_shape_def)

lemma same_shape_sym: "same_shape h h' \<Longrightarrow> same_shape h' h"
  by (simp add: same_shape_def)

lemma same_shape_trans: "same_shape h h' \<Longrightarrow> same_shape h' h'' \<Longrightarrow> same_shape h h''"
  by (simp add: same_shape_def)

lemma same_shape_at:
  assumes "same_shape h h'" and "h a = Some p"
  shows "\<exists>p'. h' a = Some p' \<and> pool_proxies p' = pool_proxies p \<and> pool_children p' = pool_children p"
proof -
  have "map_option shape_of (h' a) = Some (shape_of p)"
    using assms by (simp add: same_shape_def flip: assms(1) [unfolded same_shape_def, rule_format])
  then show ?thesis by (auto simp: shape_of_def)
qed

lemma same_shape_None:
  assumes "same_shape h h'"
  shows "h a = None \<longleftrightarrow> h' a = None"
  using assms [unfolded same_shape_def, rule_format, of a] by (cases "h a"; cases "h' a") auto

lemma ranked_shape:
  assumes sh: "same_shape h h'" and "ranked r h"
  shows "ranked r h'"
  unfolding ranked_def
proof (intro allI impI ballI)
  fix a p c
  assume "h' a = Some p" and c: "c \<in> set (pool_children p)"
  then obtain q where "h a = Some q" "pool_children q = pool_children p"
    using same_shape_at [OF same_shape_sym [OF sh]] by metis
  then show "h' c \<noteq> None \<and> r c < r a"
    using assms(2) c same_shape_None [OF sh, of c] by (fastforce simp: ranked_def)
qed

lemma keys_ok_shape: "same_shape h h' \<Longrightarrow> keys_ok h \<Longrightarrow> keys_ok h'"
  unfolding keys_ok_def by (fastforce dest: same_shape_at [OF same_shape_sym])

lemma same_shape_bump:
  "h' a = Some p \<Longrightarrow> same_shape h h' \<Longrightarrow> same_shape h (h'(a \<mapsto> p\<lparr>pool_rotation := k\<rparr>))"
  by (auto simp: same_shape_def shape_of_def)

lemma pool_all_shape:
  "same_shape h h' \<Longrightarrow> pool_all n h a = pool_all n h' a"
  "same_shape h h' \<Longrightarrow> pool_all_children n h cs ps = pool_all_children n h' cs ps"
proof (induction n h a and n h cs ps rule: pool_all_pool_all_children.induct)
  case (2 n h a)
  show ?case
  proof (cases "h a")
    case None
    then show ?thesis using same_shape_None [OF "2.prems", of a] by simp
  next
    case (Some p)
    then obtain p' where "h' a = Some p'" "pool_proxies p' = pool_proxies p"
      "pool_children p' = pool_children p"
      using same_shape_at [OF "2.prems"] by blast
    with Some "2.IH" [OF Some "2.prems"] show ?thesis by simp
  qed
qed (auto split: option.splits)

section \<open>What filtered returns\<close>

lemma filtered_shape:
  "filtered n h a pr = Some (res, h') \<Longrightarrow> same_shape h h'"
  "filtered_children n h cs pr ready = Some (res, h') \<Longrightarrow> same_shape h h'"
proof (induction n h a pr and n h cs pr ready arbitrary: res h' and res h'
    rule: filtered_filtered_children.induct)
  case (2 n h a protocol)
  then show ?case
    by (fastforce simp: Let_def split: option.splits if_splits intro: same_shape_bump)
next
  case (4 n h c cs protocol ready)
  then show ?case by (fastforce split: option.splits intro: same_shape_trans)
qed auto

lemma filtered_total:
  "ranked r h \<Longrightarrow> h a \<noteq> None \<Longrightarrow> r a < n \<Longrightarrow> filtered n h a pr \<noteq> None"
  "ranked r h \<Longrightarrow> \<forall>c \<in> set cs. h c \<noteq> None \<and> r c < n \<Longrightarrow>
     filtered_children n h cs pr ready \<noteq> None"
proof (induction n h a pr and n h cs pr ready rule: filtered_filtered_children.induct)
  case (2 n h a protocol)
  then obtain self where self: "h a = Some self" by blast
  then have "\<forall>c \<in> set (pool_children self). h c \<noteq> None \<and> r c < n"
    using "2.prems" by (fastforce simp: ranked_def)
  then obtain ready h' where ch:
    "filtered_children n h (pool_children self) protocol (pool_local self protocol) = Some (ready, h')"
    using "2.IH" [OF self "2.prems"(1)] by auto
  then obtain self' where "h' a = Some self'"
    using same_shape_at [OF filtered_shape(2) [OF ch] self] by blast
  then show ?case by (simp add: self ch Let_def)
next
  case (4 n h c cs protocol ready)
  then obtain found h' where f: "filtered n h c protocol = Some (found, h')" by force
  then have sh: "same_shape h h'" by (rule filtered_shape)
  have "filtered_children n h' cs protocol (add_new c_key ready found) \<noteq> None"
    using "4.IH"(2) [OF f] "4.prems" ranked_shape [OF sh] same_shape_None [OF sh] by auto
  then show ?case by (simp add: f)
qed auto

text \<open>The counter bump and the final order leave the elements alone.\<close>

lemma filtered_SucD:
  assumes "filtered (Suc n) h a pr = Some (res, h')"
  obtains self ready h1 where "h a = Some self"
    "filtered_children n h (pool_children self) pr (pool_local self pr) = Some (ready, h1)"
    "mset res = mset ready"
  using assms by (auto simp: Let_def split: option.splits if_splits)

lemma pool_local_keys_distinct:
  "distinct (map pp_key (pool_proxies p)) \<Longrightarrow> distinct (map c_key (pool_local p pr))"
  by (simp add: pool_local_def to_candidate_def o_def distinct_map_filter)

lemma mset_distinct_keys: "mset xs = mset ys \<Longrightarrow> distinct (map f xs) \<longleftrightarrow> distinct (map f ys)"
  by (metis mset_eq_imp_distinct_iff mset_map)

lemma filtered_distinct:
  "filtered n h a pr = Some (res, h') \<Longrightarrow> keys_ok h \<Longrightarrow> distinct (map c_key res)"
  "filtered_children n h cs pr ready = Some (res, h') \<Longrightarrow> distinct (map c_key ready) \<Longrightarrow>
     distinct (map c_key res)"
proof (induction n h a pr and n h cs pr ready arbitrary: res h' and res h'
    rule: filtered_filtered_children.induct)
  case (2 n h a protocol)
  from "2.prems"(1) show ?case
  proof (rule filtered_SucD)
    fix self ready h1
    assume self: "h a = Some self" and m: "mset res = mset ready"
      and ch: "filtered_children n h (pool_children self) protocol (pool_local self protocol) = Some (ready, h1)"
    have "distinct (map c_key (pool_local self protocol))"
      using "2.prems"(2) self by (auto simp: keys_ok_def intro: pool_local_keys_distinct)
    from "2.IH" [OF self ch this] show ?thesis using mset_distinct_keys [OF m] by blast
  qed
next
  case (4 n h c cs protocol ready)
  from "4.prems"(1) obtain found h1 where f: "filtered n h c protocol = Some (found, h1)"
    and rest: "filtered_children n h1 cs protocol (add_new c_key ready found) = Some (res, h')"
    by (auto split: option.splits)
  show ?case
    using "4.IH"(2) [OF f refl rest] "4.prems"(2) by (simp add: add_new_distinct)
qed auto

lemma local_keys_None: "c_key ` set (pool_local p None) = pp_key ` set (pool_proxies p)"
  by (force simp: pool_local_def to_candidate_def)

lemma filtered_keys:
  "filtered n h a None = Some (res, h') \<Longrightarrow>
     \<exists>ps. pool_all n h a = Some ps \<and> pp_key ` set ps = c_key ` set res"
  "filtered_children n h cs None ready = Some (res, h') \<Longrightarrow> pp_key ` set ps = c_key ` set ready \<Longrightarrow>
     \<exists>ps'. pool_all_children n h cs ps = Some ps' \<and> pp_key ` set ps' = c_key ` set res"
proof (induction n h a "None :: protocol option" and n h cs "None :: protocol option" ready
    arbitrary: res h' and res h' ps rule: filtered_filtered_children.induct)
  case (2 n h a)
  from "2.prems" show ?case
  proof (rule filtered_SucD)
    fix self ready h1
    assume self: "h a = Some self" and m: "mset res = mset ready"
      and ch: "filtered_children n h (pool_children self) None (pool_local self None) = Some (ready, h1)"
    from "2.hyps" [OF self ch local_keys_None [symmetric]] self mset_eq_setD [OF m]
    show ?thesis by simp
  qed
next
  case (4 n h c cs ready)
  from "4.prems"(1) obtain found h1 where f: "filtered n h c None = Some (found, h1)"
    and rest: "filtered_children n h1 cs None (add_new c_key ready found) = Some (res, h')"
    by (auto split: option.splits)
  from "4.hyps"(1) [OF f] obtain fs where fs: "pool_all n h c = Some fs"
    "pp_key ` set fs = c_key ` set found" by blast
  have "pp_key ` set (add_new pp_key ps fs) = c_key ` set (add_new c_key ready found)"
    using "4.prems"(2) fs(2) by (simp add: add_new_keys)
  from "4.hyps"(2) [OF f refl rest this] fs(1) show ?case
    using pool_all_shape(2) [OF filtered_shape(1) [OF f]] by simp
qed auto

section \<open>Candidates and their tunnels\<close>

definition heap_proxies :: "'t heap \<Rightarrow> 't pool_proxy set" where
  "heap_proxies h = (\<Union>p \<in> ran h. set (pool_proxies p))"

lemma heap_proxies_at: "h a = Some p \<Longrightarrow> set (pool_proxies p) \<subseteq> heap_proxies h"
  by (auto simp: heap_proxies_def ran_def)

lemma heap_proxies_shape:
  assumes sh: "same_shape h h'"
  shows "heap_proxies h' = heap_proxies h"
proof -
  have "heap_proxies g \<subseteq> heap_proxies g'" if "same_shape g g'" for g g' :: "'a heap"
    using same_shape_at [OF that] by (fastforce simp: heap_proxies_def ran_def)
  then show ?thesis using sh same_shape_sym [OF sh] by blast
qed

lemma local_subset: "h a = Some p \<Longrightarrow> set (pool_local p pr) \<subseteq> to_candidate ` heap_proxies h"
  using heap_proxies_at by (fastforce simp: pool_local_def)

lemma filtered_subset:
  "filtered n h a pr = Some (res, h') \<Longrightarrow> set res \<subseteq> to_candidate ` heap_proxies h"
  "filtered_children n h cs pr ready = Some (res, h') \<Longrightarrow>
     set ready \<subseteq> to_candidate ` heap_proxies h \<Longrightarrow> set res \<subseteq> to_candidate ` heap_proxies h"
proof (induction n h a pr and n h cs pr ready arbitrary: res h' and res h'
    rule: filtered_filtered_children.induct)
  case (2 n h a protocol)
  from "2.prems" show ?case
  proof (rule filtered_SucD)
    fix self ready h1
    assume self: "h a = Some self" and m: "mset res = mset ready"
      and ch: "filtered_children n h (pool_children self) protocol (pool_local self protocol) = Some (ready, h1)"
    from "2.IH" [OF self ch local_subset [of h a, OF self]] mset_eq_setD [OF m] show ?thesis by simp
  qed
next
  case (4 n h c cs protocol ready)
  from "4.prems"(1) obtain found h1 where f: "filtered n h c protocol = Some (found, h1)"
    and rest: "filtered_children n h1 cs protocol (add_new c_key ready found) = Some (res, h')"
    by (auto split: option.splits)
  have hp: "heap_proxies h1 = heap_proxies h"
    using heap_proxies_shape [OF filtered_shape(1) [OF f]] .
  have "set (add_new c_key ready found) \<subseteq> to_candidate ` heap_proxies h"
    using "4.IH"(1) [OF f] "4.prems"(2) add_new_set [of c_key ready found] by blast
  then show ?case using "4.IH"(2) [OF f refl rest] by (simp add: hp)
qed auto

lemma pool_all_subset:
  "pool_all n h a = Some ps \<Longrightarrow> set ps \<subseteq> heap_proxies h"
  "pool_all_children n h cs qs = Some ps \<Longrightarrow> set qs \<subseteq> heap_proxies h \<Longrightarrow> set ps \<subseteq> heap_proxies h"
proof (induction n h a and n h cs qs arbitrary: ps and ps rule: pool_all_pool_all_children.induct)
  case (2 n h a)
  then show ?case using heap_proxies_at [of h a] by (auto split: option.splits)
next
  case (4 n h c cs proxies)
  from "4.prems"(1) obtain found where f: "pool_all n h c = Some found"
    and rest: "pool_all_children n h cs (add_new pp_key proxies found) = Some ps"
    by (auto split: option.splits)
  show ?case
    using "4.IH"(2) [OF f rest] "4.IH"(1) [OF f] "4.prems"(2) add_new_set [of pp_key proxies found]
    by blast
qed auto

text \<open>
  When a key names one proxy in the whole heap, the candidates are exactly the proxies that
  \<open>all\<close> counts.
\<close>

lemma filtered_set:
  assumes inj: "inj_on pp_key (heap_proxies h)"
    and f: "filtered n h a None = Some (res, h')" and all: "pool_all n h a = Some ps"
  shows "set res = to_candidate ` set ps"
proof -
  have sub: "set res \<subseteq> to_candidate ` heap_proxies h" "set ps \<subseteq> heap_proxies h"
    using filtered_subset(1) [OF f] pool_all_subset(1) [OF all] by auto
  have keys: "pp_key ` set ps = c_key ` set res"
    using filtered_keys(1) [OF f] all by auto
  have key: "c_key (to_candidate p) = pp_key p" for p :: "'a pool_proxy"
    by (simp add: to_candidate_def)
  show ?thesis
  proof (intro equalityI subsetI)
    fix c assume c: "c \<in> set res"
    then obtain p where p: "p \<in> heap_proxies h" "c = to_candidate p" using sub(1) by blast
    have "c_key c \<in> pp_key ` set ps" using c keys by simp
    then obtain q where q: "q \<in> set ps" "pp_key q = pp_key p" using p(2) key by auto
    then have "q = p" using inj_onD [OF inj] p(1) sub(2) by blast
    then show "c \<in> to_candidate ` set ps" using p(2) q(1) by simp
  next
    fix c assume "c \<in> to_candidate ` set ps"
    then obtain q where q: "q \<in> set ps" "c = to_candidate q" by blast
    then have "pp_key q \<in> c_key ` set res" using keys by blast
    then obtain d where d: "d \<in> set res" "c_key d = pp_key q" by auto
    then obtain p where p: "p \<in> heap_proxies h" "d = to_candidate p" using sub(1) by blast
    then have "p = q" using inj_onD [OF inj, of p q] d(2) key q(1) sub(2) by auto
    then show "c \<in> set res" using d(1) p(2) q(2) by simp
  qed
qed

lemma find_ready_Some:
  "find P xs = Some c \<Longrightarrow> c \<in> set xs \<and> P c"
  by (auto simp: find_Some_iff)

lemma select_ready:
  assumes "ranked r h" "h a \<noteq> None" "r a < n" and inj: "inj_on pp_key (heap_proxies h)"
    and "pool_all n h a = Some ps" and "p \<in> set ps" "is_ready (round + j) (pp_tunnel p)" "j < k"
  shows "\<exists>c h'. select k round is_ready n h a None = Some (Some c, h') \<and>
    c \<in> to_candidate ` set ps \<and> (\<exists>i \<le> j. is_ready (round + i) (c_tunnel c))"
  using assms
proof (induction k arbitrary: round j h)
  case (Suc k)
  obtain res h' where f: "filtered n h a None = Some (res, h')"
    using filtered_total(1) [OF Suc.prems(1-3)] by fastforce
  note sh = filtered_shape(1) [OF f]
  have res: "set res = to_candidate ` set ps"
    by (rule filtered_set [OF Suc.prems(4) f Suc.prems(5)])
  then have ne: "res \<noteq> []" using Suc.prems(6) by auto
  show ?case
  proof (cases "find (\<lambda>c. is_ready round (c_tunnel c)) res")
    case (Some c)
    then have "c \<in> set res" "is_ready round (c_tunnel c)" using find_ready_Some by fastforce+
    then show ?thesis using f ne Some res by auto
  next
    case None
    have "to_candidate p \<in> set res" using res Suc.prems(6) by blast
    then have "\<not> is_ready round (pp_tunnel p)"
      using None by (auto simp: find_None_iff to_candidate_def)
    then obtain j' where j': "j = Suc j'" using Suc.prems(7) by (cases j) auto
    have "\<exists>c h''. select k (Suc round) is_ready n h' a None = Some (Some c, h'') \<and>
      c \<in> to_candidate ` set ps \<and> (\<exists>i \<le> j'. is_ready (Suc round + i) (c_tunnel c))"
    proof (rule Suc.IH)
      show "ranked r h'" "h' a \<noteq> None" "r a < n"
        using ranked_shape [OF sh] same_shape_None [OF sh] Suc.prems by auto
      show "inj_on pp_key (heap_proxies h')" using heap_proxies_shape [OF sh] Suc.prems(4) by simp
      show "pool_all n h' a = Some ps" using pool_all_shape(1) [OF sh] Suc.prems(5) by simp
    qed (use Suc.prems j' in auto)
    then obtain c h'' i where "select k (Suc round) is_ready n h' a None = Some (Some c, h'')"
      "c \<in> to_candidate ` set ps" "i \<le> j'" "is_ready (Suc round + i) (c_tunnel c)" by blast
    then show ?thesis
      using f ne None j' by (intro exI [of _ c] exI [of _ h'']) (auto intro!: exI [of _ "Suc i"])
  qed
qed simp

lemma select_never_ready:
  assumes "\<forall>i t. \<not> is_ready i t" and "filtered n h a None = Some (res, h')" "res \<noteq> []"
  shows "select k round is_ready n h a None = None"
  using assms
proof (induction k arbitrary: round h h' res)
  case (Suc k)
  have "find (\<lambda>c. is_ready round (c_tunnel c)) res = None"
    using Suc.prems(1) by (simp add: find_None_iff)
  moreover have "select k (Suc round) is_ready n h' a None = None"
  proof (cases "filtered n h' a None")
    case None
    then show ?thesis by (cases k) auto
  next
    case (Some rh)
    obtain res' h'' where rh: "rh = (res', h'')" by fastforce
    have "c_key ` set res' = c_key ` set res"
      using filtered_keys(1) [OF Suc.prems(2)] filtered_keys(1) [OF Some [unfolded rh]]
        pool_all_shape(1) [OF filtered_shape(1) [OF Suc.prems(2)]] by force
    then have "res' \<noteq> []" using Suc.prems(3) by auto
    then show ?thesis using Suc.IH [OF Suc.prems(1) Some [unfolded rh]] by blast
  qed
  ultimately show ?case using Suc.prems(2,3) by simp
qed simp

section \<open>Rotation\<close>

text \<open>The answers of successive calls on one pool.\<close>

fun filtered_calls ::
  "nat \<Rightarrow> nat \<Rightarrow> 't heap \<Rightarrow> pool_addr \<Rightarrow> protocol option \<Rightarrow> 't candidate list list option" where
  "filtered_calls 0 n h a protocol = Some []"
| "filtered_calls (Suc k) n h a protocol =
     (case filtered n h a protocol of
        None \<Rightarrow> None
      | Some (found, h') \<Rightarrow> map_option ((#) found) (filtered_calls k n h' a protocol))"

lemma filtered_flat:
  assumes "h a = Some p" "pool_children p = []" "sort_key c_priority (pool_local p pr) = ready"
    "1 < length ready"
  shows "filtered (Suc n) h a pr =
    Some (rotate_left (unat (pool_rotation p) mod length ready) ready,
          h(a \<mapsto> p\<lparr>pool_rotation := pool_rotation p + 1\<rparr>))"
  using assms(1,2,4) by (simp add: Let_def flip: assms(3))

lemma filtered_calls_flat:
  assumes "h a = Some p" "pool_children p = []" "sort_key c_priority (pool_local p pr) = ready"
    "1 < length ready" "unat (pool_rotation p) + k < 2 ^ 64"
  shows "filtered_calls k (Suc n) h a pr =
    Some (map (\<lambda>i. rotate_left ((unat (pool_rotation p) + i) mod length ready) ready) [0..<k])"
  using assms
proof (induction k arbitrary: h p)
  case (Suc k)
  let ?p = "p\<lparr>pool_rotation := pool_rotation p + 1\<rparr>"
  have un: "unat (pool_rotation p + 1) = Suc (unat (pool_rotation p))"
    using Suc.prems(5) by (simp add: unat_word_ariths)
  have "filtered_calls k (Suc n) (h(a \<mapsto> ?p)) a pr =
    Some (map (\<lambda>i. rotate_left ((unat (pool_rotation ?p) + i) mod length ready) ready) [0..<k])"
    using Suc.prems un by (intro Suc.IH) (auto simp: pool_local_def)
  then show ?case
    using filtered_flat [of h a, OF Suc.prems(1-4), of n] un
    by (simp add: upt_rec [of 0 "Suc k"] map_Suc_upt [symmetric] o_def del: upt_Suc filtered.simps)
qed simp

section \<open>The keys a pool offers\<close>

text \<open>
  Which exits a request may use, said without the recursion: the exits, of the wanted protocol, of
  all pools that can be reached from the pool.
\<close>

definition pool_edges :: "'t heap \<Rightarrow> (pool_addr \<times> pool_addr) set" where
  "pool_edges h = {(a, b). \<exists>self. h a = Some self \<and> b \<in> set (pool_children self)}"

definition pool_keys :: "'t heap \<Rightarrow> pool_addr \<Rightarrow> protocol option \<Rightarrow> string set" where
  "pool_keys h a pr =
     {k. \<exists>b self. (a, b) \<in> (pool_edges h)\<^sup>* \<and> h b = Some self \<and> k \<in> c_key ` set (pool_local self pr)}"

lemma pool_keysI:
  "(a, b) \<in> (pool_edges h)\<^sup>* \<Longrightarrow> h b = Some self \<Longrightarrow> k \<in> c_key ` set (pool_local self pr) \<Longrightarrow>
   k \<in> pool_keys h a pr"
  unfolding pool_keys_def by blast

lemma pool_keys_unfold:
  assumes "h a = Some self"
  shows "pool_keys h a pr =
    c_key ` set (pool_local self pr) \<union> (\<Union>c \<in> set (pool_children self). pool_keys h c pr)"
proof -
  have edge: "(a, b) \<in> pool_edges h \<longleftrightarrow> b \<in> set (pool_children self)" for b
    using assms by (simp add: pool_edges_def)
  show ?thesis
  proof (intro equalityI subsetI)
    fix k assume "k \<in> pool_keys h a pr"
    then obtain b p where b: "(a, b) \<in> (pool_edges h)\<^sup>*" "h b = Some p" "k \<in> c_key ` set (pool_local p pr)"
      unfolding pool_keys_def by blast
    from b(1) show "k \<in> c_key ` set (pool_local self pr) \<union> (\<Union>c \<in> set (pool_children self). pool_keys h c pr)"
    proof (cases rule: converse_rtranclE)
      case base
      then show ?thesis using b assms by simp
    next
      case (step c)
      then have "k \<in> pool_keys h c pr" using b(2,3) pool_keysI [of c b h] by blast
      then show ?thesis using step(1) edge by blast
    qed
  next
    fix k assume k: "k \<in> c_key ` set (pool_local self pr) \<union> (\<Union>c \<in> set (pool_children self). pool_keys h c pr)"
    show "k \<in> pool_keys h a pr"
    proof (cases "k \<in> c_key ` set (pool_local self pr)")
      case True
      then show ?thesis using assms pool_keysI [of a a h] by simp
    next
      case False
      then obtain c b p where "c \<in> set (pool_children self)" "(c, b) \<in> (pool_edges h)\<^sup>*" "h b = Some p"
        "k \<in> c_key ` set (pool_local p pr)"
        using k unfolding pool_keys_def by blast
      then show ?thesis
        using edge converse_rtrancl_into_rtrancl [of a c "pool_edges h" b] pool_keysI [of a b h] by blast
    qed
  qed
qed

lemma pool_keys_shape:
  assumes "same_shape h h'"
  shows "pool_keys h' a pr = pool_keys h a pr"
proof -
  have e: "pool_edges g \<subseteq> pool_edges g'" if "same_shape g g'" for g g' :: "'a heap"
    using same_shape_at [OF that] by (fastforce simp: pool_edges_def)
  have edges: "pool_edges h' = pool_edges h" using e assms same_shape_sym by blast
  have local_eq: "pool_local p pr = pool_local q pr" if "pool_proxies p = pool_proxies q" for p q :: "'a proxy_pool"
    using that by (simp add: pool_local_def)
  have "pool_keys g a pr \<subseteq> pool_keys g' a pr" if sh: "same_shape g g'" and eq: "pool_edges g = pool_edges g'"
    for g g' :: "'a heap"
  proof
    fix k assume "k \<in> pool_keys g a pr"
    then obtain b p where b: "(a, b) \<in> (pool_edges g)\<^sup>*" "g b = Some p" "k \<in> c_key ` set (pool_local p pr)"
      unfolding pool_keys_def by blast
    from same_shape_at [OF sh b(2)] obtain q where "g' b = Some q" "pool_proxies q = pool_proxies p" by blast
    then show "k \<in> pool_keys g' a pr" using b local_eq [of q p] eq pool_keysI [of a b g' q k pr] by simp
  qed
  then show ?thesis using assms edges same_shape_sym [OF assms] by (metis subset_antisym)
qed

lemma filtered_pool_keys:
  "filtered n h a pr = Some (res, h') \<Longrightarrow> c_key ` set res = pool_keys h a pr"
  "filtered_children n h cs pr ready = Some (res, h') \<Longrightarrow>
     c_key ` set res = c_key ` set ready \<union> (\<Union>c \<in> set cs. pool_keys h c pr)"
proof (induction n h a pr and n h cs pr ready arbitrary: res h' and res h'
    rule: filtered_filtered_children.induct)
  case (2 n h a protocol)
  from "2.prems" show ?case
  proof (rule filtered_SucD)
    fix self ready h1
    assume self: "h a = Some self" and m: "mset res = mset ready"
      and ch: "filtered_children n h (pool_children self) protocol (pool_local self protocol) = Some (ready, h1)"
    from "2.IH" [OF self ch] mset_eq_setD [OF m] pool_keys_unfold [of h a, OF self] show ?thesis by simp
  qed
next
  case (4 n h c cs protocol ready)
  from "4.prems"(1) obtain found h1 where f: "filtered n h c protocol = Some (found, h1)"
    and rest: "filtered_children n h1 cs protocol (add_new c_key ready found) = Some (res, h')"
    by (auto split: option.splits)
  from "4.IH"(1) [OF f] "4.IH"(2) [OF f refl rest] pool_keys_shape [OF filtered_shape(1) [OF f]]
  show ?case by (auto simp: add_new_keys)
qed auto

section \<open>Properties\<close>

text \<open>
  C6: on an acyclic pool graph \<open>filtered\<close> returns (depth rank + 1 is enough), it names
  every proxy that \<open>all\<close> and \<open>count\<close> see and no other, it names none twice, and it changes
  nothing but rotation counters.
\<close>

theorem filtered_complete:
  assumes "ranked r h" "keys_ok h" "h a \<noteq> None" "r a < n"
  shows "\<exists>res h' ps. filtered n h a None = Some (res, h') \<and> pool_all n h a = Some ps \<and>
    distinct (map c_key res) \<and> c_key ` set res = pp_key ` set ps \<and> same_shape h h'"
proof -
  obtain res h' where f: "filtered n h a None = Some (res, h')"
    using filtered_total(1) [OF assms(1,3,4)] by fastforce
  then show ?thesis
    using filtered_distinct(1) [OF f assms(2)] filtered_keys(1) [OF f] filtered_shape(1) [OF f]
    by force
qed

definition demo_proxy :: "string \<Rightarrow> nat pool_proxy" where
  "demo_proxy k = \<lparr>pp_key = k, pp_tunnel = length k, pp_priority = 0, pp_protocol = Ssh\<rparr>"

definition demo_heap :: "nat heap" where
  "demo_heap =
     [0 \<mapsto> (pool_new [])\<lparr>pool_children := [1]\<rparr>, 1 \<mapsto> pool_new [demo_proxy ''a'', demo_proxy ''bb'']]"

lemma demo_heap_ok: "ranked (\<lambda>a. 1 - a) demo_heap" "keys_ok demo_heap"
  "inj_on pp_key (heap_proxies demo_heap)"
  by (auto simp: ranked_def keys_ok_def demo_heap_def pool_new_def demo_proxy_def heap_proxies_def
      inj_on_def ran_def split: if_splits)

theorem filtered_complete_witness:
  "\<exists>res h' ps. filtered 2 demo_heap 0 None = Some (res, h') \<and> pool_all 2 demo_heap 0 = Some ps \<and>
    distinct (map c_key res) \<and> c_key ` set res = pp_key ` set ps \<and> same_shape demo_heap h'"
  by (rule filtered_complete [OF demo_heap_ok(1,2)]) (simp_all add: demo_heap_def)

text \<open>
  Rotation is fair on a pool without children: over as many successive calls as there
  are candidates, every candidate comes first exactly once (while the 64-bit counter does
  not wrap).
\<close>

theorem rotation_fair:
  assumes "h a = Some p" "pool_children p = []" "sort_key c_priority (pool_local p pr) = ready"
    "1 < length ready" "unat (pool_rotation p) + length ready < 2 ^ 64"
  shows "\<exists>answers. filtered_calls (length ready) (Suc n) h a pr = Some answers \<and>
    mset (map hd answers) = mset ready"
proof -
  let ?m = "unat (pool_rotation p)"
  have "map (\<lambda>i. hd (rotate_left ((?m + i) mod length ready) ready)) [0..<length ready] = rotate ?m ready"
    using assms(4) by (intro nth_equalityI) (auto simp: nth_rotate intro!: hd_rotate_left mod_less_divisor)
  moreover have "mset (rotate ?m ready) = mset ready"
    using mset_rotate_left [of "?m mod length ready" ready] by (simp add: rotate_drop_take rotate_left_def)
  ultimately have "mset (map hd (map (\<lambda>i. rotate_left ((?m + i) mod length ready) ready)
      [0..<length ready])) = mset ready"
    by (simp only: map_map o_def)
  then show ?thesis using filtered_calls_flat [of h a, OF assms] by blast
qed

theorem rotation_fair_witness:
  "\<exists>answers. filtered_calls 2 1 demo_heap 1 None = Some answers \<and>
    mset (map hd answers) = {# to_candidate (demo_proxy ''a''), to_candidate (demo_proxy ''bb'') #}"
proof -
  let ?p = "pool_new [demo_proxy ''a'', demo_proxy ''bb'']"
  let ?cs = "[to_candidate (demo_proxy ''a''), to_candidate (demo_proxy ''bb'')]"
  have "sort_key c_priority (pool_local ?p None) = ?cs"
    by (simp add: pool_local_def pool_new_def demo_proxy_def to_candidate_def)
  then have "\<exists>answers. filtered_calls (length ?cs) (Suc 0) demo_heap 1 None = Some answers \<and>
      mset (map hd answers) = mset ?cs"
    by (intro rotation_fair [where p = ?p]) (simp_all add: demo_heap_def pool_new_def)
  then show ?thesis by (simp add: numeral_2_eq_2 del: filtered_calls.simps)
qed

text \<open>A parent pool with one child that holds two exits, as \<open>Region::add\<close> builds it.\<close>

definition pair_heap :: "'t pool_proxy \<Rightarrow> 't pool_proxy \<Rightarrow> u64 \<Rightarrow> 't heap" where
  "pair_heap a b m =
     [0 \<mapsto> \<lparr>pool_proxies = [], pool_children = [1], pool_rotation = m\<rparr>,
      1 \<mapsto> \<lparr>pool_proxies = [a, b], pool_children = [], pool_rotation = m\<rparr>]"

lemma pair_heap_step:
  assumes "pp_key a \<noteq> pp_key b" "pp_priority a = pp_priority b"
  shows "filtered 2 (pair_heap a b m) 0 None =
    Some ([to_candidate a, to_candidate b], pair_heap a b (m + 1))"
proof -
  have "unat m mod 2 = 0 \<or> unat m mod 2 = 1" by arith
  then show ?thesis
    using assms
    by (auto simp: pair_heap_def numeral_2_eq_2 Let_def pool_local_def to_candidate_def
        rotate_left_def fun_eq_iff)
qed

text \<open>
  Rotation does not reach every exit through a parent pool. A pool whose only child
  holds two exits of equal priority, with both counters at the same value (as after
  creation), answers every call with the same first exit: the child and the parent each
  rotate by the same amount, and the two rotations cancel.
\<close>

theorem merged_pool_rotation_cancels:
  assumes "pp_key a \<noteq> pp_key b" "pp_priority a = pp_priority b"
  shows "filtered_calls k 2 (pair_heap a b m) 0 None =
    Some (replicate k [to_candidate a, to_candidate b])"
  by (induction k arbitrary: m) (simp_all add: pair_heap_step [OF assms])

theorem merged_pool_rotation_cancels_witness:
  "filtered_calls 5 2 (pair_heap (demo_proxy ''a'') (demo_proxy ''bb'') 0) 0 None =
    Some (replicate 5 [to_candidate (demo_proxy ''a''), to_candidate (demo_proxy ''bb'')])"
  by (rule merged_pool_rotation_cancels) (simp_all add: demo_proxy_def)

text \<open>
  C27: \<open>pick\<close> finds a ready exit. If some exit of the pool is ready in round \<open>j\<close> of the
  polling loop, the loop has returned an exit of the pool by then, and that exit was ready
  when it was chosen.
\<close>

theorem pick_finds_ready:
  assumes "ranked r h" "h a \<noteq> None" "r a < n" "inj_on pp_key (heap_proxies h)"
    "pool_all n h a = Some ps" "p \<in> set ps" "is_ready j (pp_tunnel p)" "j < k"
  shows "\<exists>c h'. pick k is_ready n h a = Some (Some c, h') \<and> c \<in> to_candidate ` set ps \<and>
    (\<exists>i \<le> j. is_ready i (c_tunnel c))"
  using select_ready [OF assms(1-6), of is_ready 0 j k] assms(7,8) by (simp add: pick_def)

theorem pick_finds_ready_witness:
  "\<exists>c h'. pick 4 (\<lambda>i t. i = 3 \<and> t = 2) 2 demo_heap 0 = Some (Some c, h') \<and>
     (\<exists>i \<le> 3. i = (3 :: nat) \<and> c_tunnel c = 2)"
proof -
  have "pool_all 2 demo_heap 0 = Some [demo_proxy ''a'', demo_proxy ''bb'']"
    by (simp add: numeral_2_eq_2 demo_heap_def pool_new_def demo_proxy_def)
  from pick_finds_ready [OF demo_heap_ok(1) _ _ demo_heap_ok(3) this,
      of "demo_proxy ''bb''" "\<lambda>i t. i = 3 \<and> t = 2" 3 4]
  show ?thesis by (fastforce simp: demo_heap_def demo_proxy_def)
qed

text \<open>
  C40: \<open>pick\<close> has no timeout. On a pool that has exits but none that ever becomes ready, no
  number of polling rounds gives an answer, so the caller waits for ever.
\<close>

theorem pick_waits_forever:
  assumes "ranked r h" "h a \<noteq> None" "r a < n" "pool_all n h a = Some ps" "ps \<noteq> []"
    and never: "\<forall>i t. \<not> is_ready i t"
  shows "pick k is_ready n h a = None"
proof -
  obtain res h' where f: "filtered n h a None = Some (res, h')"
    using filtered_total(1) [OF assms(1-3)] by fastforce
  then have "res \<noteq> []" using filtered_keys(1) [OF f] assms(4,5) by auto
  then show ?thesis using select_never_ready [OF never f] by (simp add: pick_def)
qed

theorem pick_waits_forever_witness: "pick 1000 (\<lambda>_ _. False) 2 demo_heap 0 = None"
  by (rule pick_waits_forever [OF demo_heap_ok(1), where ps = "[demo_proxy ''a'', demo_proxy ''bb'']"])
    (simp_all add: numeral_2_eq_2 demo_heap_def pool_new_def demo_proxy_def)

end
