(* ===== verification/Proxy_Server.thy ===== *)
theory Proxy_Server
  imports Pool
begin

text \<open>
  The routing tables and the request handlers of the HTTP front end (\<open>src/proxy/server.rs\<close>):
  regions with their protocol variants, the proxy's tables, and what happens to a request.
  Pools live in a store (a heap and the next free address). The forwarder type is a type
  variable; hyper's request is the record of the parts the handlers look at, and header maps
  are a parameter.
\<close>

section \<open>Allocation\<close>

record 't store =
  st_heap :: "'t heap"
  st_next :: pool_addr

definition new_pool :: "'t pool_proxy list \<Rightarrow> 't store \<Rightarrow> pool_addr \<times> 't store" where
  "new_pool proxies st =
     (st_next st,
      st\<lparr>st_heap := (st_heap st)(st_next st \<mapsto> pool_new proxies), st_next := Suc (st_next st)\<rparr>)"

section \<open>Regions\<close>

record 'f variant =
  va_protocol :: protocol
  va_pool :: pool_addr
  va_forward :: "'f option"

record 'f region =
  rg_name :: string
  rg_username :: string
  rg_variants :: "'f variant list"
  rg_merged :: pool_addr

definition region_new :: "string \<Rightarrow> string \<Rightarrow> 't store \<Rightarrow> 'f region \<times> 't store" where
  "region_new name username st =
     (let (merged, st) = new_pool [] st in
      (\<lparr>rg_name = name, rg_username = username, rg_variants = [], rg_merged = merged\<rparr>, st))"

text \<open>\<open>add\<close>: the first variant of the protocol gets a forwarder if it has none, or there is a new one.\<close>

fun add_variant :: "protocol \<Rightarrow> pool_addr \<Rightarrow> 'f option \<Rightarrow> 'f variant list \<Rightarrow> 'f variant list" where
  "add_variant protocol pool forward [] =
     [\<lparr>va_protocol = protocol, va_pool = pool, va_forward = forward\<rparr>]"
| "add_variant protocol pool forward (v # vs) =
     (if va_protocol v = protocol
      then (if va_forward v = None then v\<lparr>va_forward := forward\<rparr> else v) # vs
      else v # add_variant protocol pool forward vs)"

definition region_add ::
  "protocol \<Rightarrow> pool_addr \<Rightarrow> 'f option \<Rightarrow> 'f region \<Rightarrow> 't store \<Rightarrow> 'f region \<times> 't store" where
  "region_add protocol pool forward rg st =
     (rg\<lparr>rg_variants := add_variant protocol pool forward (rg_variants rg)\<rparr>,
      st\<lparr>st_heap := add_child (st_heap st) (rg_merged rg) pool\<rparr>)"

definition find_variant :: "protocol \<Rightarrow> 'f region \<Rightarrow> 'f variant option" where
  "find_variant protocol rg = find (\<lambda>v. va_protocol v = protocol) (rg_variants rg)"

definition region_pool :: "protocol option \<Rightarrow> 'f region \<Rightarrow> 't store \<Rightarrow> pool_addr \<times> 't store" where
  "region_pool protocol rg st =
     (case protocol of
        Some wanted \<Rightarrow>
          (case find_variant wanted rg of Some v \<Rightarrow> (va_pool v, st) | None \<Rightarrow> new_pool [] st)
      | None \<Rightarrow> (rg_merged rg, st))"

definition region_forward :: "protocol option \<Rightarrow> 'f region \<Rightarrow> 'f option" where
  "region_forward protocol rg =
     (case protocol of
        Some wanted \<Rightarrow> Option.bind (find_variant wanted rg) va_forward
      | None \<Rightarrow>
          (case find_variant Ssh rg of
             Some v \<Rightarrow> va_forward v
           | None \<Rightarrow> (case rg_variants rg of [] \<Rightarrow> None | v # _ \<Rightarrow> va_forward v)))"

definition region_protocols :: "'f region \<Rightarrow> protocol list" where
  "region_protocols rg = map va_protocol (rg_variants rg)"

section \<open>The proxy's tables\<close>

record 'f proxy =
  px_default_pool :: pool_addr
  px_default_forward :: "'f option"
  px_protocol_pools :: "(protocol \<times> pool_addr) list"
  px_protocol_forwards :: "(protocol \<times> 'f) list"
  px_regions :: "'f region list"

definition proxy_new :: "pool_addr \<Rightarrow> 'f option \<Rightarrow> 'f proxy" where
  "proxy_new default_pool default_forward =
     \<lparr>px_default_pool = default_pool, px_default_forward = default_forward, px_protocol_pools = [],
      px_protocol_forwards = [], px_regions = []\<rparr>"

definition set_protocol_route :: "protocol \<Rightarrow> pool_addr \<Rightarrow> 'f \<Rightarrow> 'f proxy \<Rightarrow> 'f proxy" where
  "set_protocol_route protocol pool forward px =
     px\<lparr>px_protocol_pools := filter (\<lambda>(known, _). known \<noteq> protocol) (px_protocol_pools px) @ [(protocol, pool)],
        px_protocol_forwards :=
          filter (\<lambda>(known, _). known \<noteq> protocol) (px_protocol_forwards px) @ [(protocol, forward)]\<rparr>"

text \<open>Merging a region into an existing one: the loop over its protocols.\<close>

fun merge_protocols ::
  "protocol list \<Rightarrow> 'f region \<Rightarrow> 'f region \<Rightarrow> 't store \<Rightarrow> 'f region \<times> 't store" where
  "merge_protocols [] rg existing st = (existing, st)"
| "merge_protocols (p # ps) rg existing st =
     (let (pool, st) = region_pool (Some p) rg st;
          (existing, st) = region_add p pool (region_forward (Some p) rg) existing st in
      merge_protocols ps rg existing st)"

fun add_region_to :: "'f region \<Rightarrow> 'f region list \<Rightarrow> 't store \<Rightarrow> 'f region list \<times> 't store" where
  "add_region_to rg [] st = ([rg], st)"
| "add_region_to rg (current # regions) st =
     (if eq_ignore_ascii_case (rg_username current) (rg_username rg)
      then let (existing, st) = merge_protocols (region_protocols rg) rg current st in
        (existing # regions, st)
      else let (regions, st) = add_region_to rg regions st in (current # regions, st))"

definition add_region :: "'f region \<Rightarrow> 'f proxy \<Rightarrow> 't store \<Rightarrow> 'f proxy \<times> 't store" where
  "add_region rg px st =
     (let (regions, st) = add_region_to rg (px_regions px) st in (px\<lparr>px_regions := regions\<rparr>, st))"

definition region_of :: "string \<Rightarrow> 'f proxy \<Rightarrow> 'f region option" where
  "region_of username px =
     (if username = [] then None
      else find (\<lambda>rg. eq_ignore_ascii_case (rg_username rg) username) (px_regions px))"

definition forward_for :: "string \<Rightarrow> protocol option \<Rightarrow> 'f proxy \<Rightarrow> 'f option" where
  "forward_for username protocol px =
     (case Option.bind (region_of username px) (region_forward protocol) of
        Some forward \<Rightarrow> Some forward
      | None \<Rightarrow>
          (case protocol of
             Some p \<Rightarrow> map_option snd (find (\<lambda>(known, _). known = p) (px_protocol_forwards px))
           | None \<Rightarrow> px_default_forward px))"

definition pool_for :: "string \<Rightarrow> protocol option \<Rightarrow> 'f proxy \<Rightarrow> 't store \<Rightarrow> pool_addr \<times> 't store" where
  "pool_for username protocol px st =
     (case region_of username px of
        Some rg \<Rightarrow> region_pool protocol rg st
      | None \<Rightarrow>
          (case protocol of
             Some p \<Rightarrow>
               (case find (\<lambda>(known, _). known = p) (px_protocol_pools px) of
                  Some (_, pool) \<Rightarrow> (pool, st)
                | None \<Rightarrow> new_pool [] st)
           | None \<Rightarrow> (px_default_pool px, st)))"

record pool_stat =
  ps_name :: string
  ps_protocols :: "protocol list"
  ps_proxies :: nat
  ps_tunnels :: nat
  ps_usable :: nat

text \<open>Reading a pool of an acyclic heap always gives a number; \<open>the\<close> reads it.\<close>

definition region_stat :: "('t \<Rightarrow> nat) \<Rightarrow> ('t \<Rightarrow> nat) \<Rightarrow> nat \<Rightarrow> 't store \<Rightarrow> 'f region \<Rightarrow> pool_stat" where
  "region_stat target_pool active_tunnels n st rg =
     (let pool = rg_merged rg; h = st_heap st in
      \<lparr>ps_name = rg_name rg, ps_protocols = region_protocols rg,
       ps_proxies = the (pool_count n h pool), ps_tunnels = the (tunnel_count target_pool n h pool),
       ps_usable = the (usable_count active_tunnels n h pool)\<rparr>)"

definition stats :: "('t \<Rightarrow> nat) \<Rightarrow> ('t \<Rightarrow> nat) \<Rightarrow> nat \<Rightarrow> 't store \<Rightarrow> 'f proxy \<Rightarrow> pool_stat list" where
  "stats target_pool active_tunnels n st px = map (region_stat target_pool active_tunnels n st) (px_regions px)"

section \<open>Requests and responses\<close>

datatype server_error =
    UnknownRegion | UnsupportedScheme | MissingTarget | ForwardUnavailable
  | TunnelError string | Upstream string | Io string | ForwardError string

fun error_text :: "server_error \<Rightarrow> string" where
  "error_text UnknownRegion = ''unknown proxy region''"
| "error_text UnsupportedScheme = ''unsupported scheme''"
| "error_text MissingTarget = ''missing target host''"
| "error_text ForwardUnavailable = ''forwarding unavailable''"
| "error_text (TunnelError e) = ''ssh: '' @ e"
| "error_text (Upstream e) = ''upstream: '' @ e"
| "error_text (Io e) = ''io: '' @ e"
| "error_text (ForwardError e) = ''forward: '' @ e"

fun error_status :: "server_error \<Rightarrow> nat" where
  "error_status UnsupportedScheme = 400"
| "error_status MissingTarget = 400"
| "error_status ForwardUnavailable = 501"
| "error_status UnknownRegion = 502"
| "error_status (TunnelError _) = 502"
| "error_status (ForwardError _) = 502"
| "error_status (Upstream _) = 502"
| "error_status (Io _) = 503"

text \<open>
  The operations of \<open>http::HeaderMap\<close> the code uses: \<open>get\<close> followed by \<open>to_str\<close> (the inner option is
  \<open>None\<close> for a value that is not visible ASCII), \<open>remove\<close>, \<open>insert\<close>, and whether a text can be
  a header value.
\<close>

record 'h header_map =
  hm_empty :: 'h
  hm_get :: "string \<Rightarrow> 'h \<Rightarrow> string option option"
  hm_remove :: "string \<Rightarrow> 'h \<Rightarrow> 'h"
  hm_insert :: "string \<Rightarrow> string \<Rightarrow> 'h \<Rightarrow> 'h"
  hm_value :: "string \<Rightarrow> bool"

record 'h response =
  rs_status :: nat
  rs_headers :: 'h
  rs_body :: string

definition error_response :: "'h header_map \<Rightarrow> server_error \<Rightarrow> 'h response" where
  "error_response H e = \<lparr>rs_status = error_status e, rs_headers = hm_empty H, rs_body = error_text e\<rparr>"

text \<open>A request, with its URI in parts.\<close>

record 'h request =
  rq_method :: string
  rq_scheme :: "string option"
  rq_authority :: "string option"
  rq_path :: string
  rq_query :: "string option"
  rq_headers :: 'h
  rq_body :: string

definition host_header :: "'h header_map \<Rightarrow> 'h \<Rightarrow> string option" where
  "host_header H h = (case hm_get H ''host'' h of Some v \<Rightarrow> v | None \<Rightarrow> None)"

section \<open>The exit cache\<close>

text \<open>
  \<open>ExitCache\<close> of \<open>src/proxy/exit.rs\<close> remembers through which exit a host was last reached. The
  map under it (\<open>lru\<close>) and Unicode lower-casing are parameters.
\<close>

record exit =
  ex_ip :: string
  ex_region :: string
  ex_protocol :: string

definition exit_is_empty :: "exit \<Rightarrow> bool" where
  "exit_is_empty e \<longleftrightarrow> ex_ip e = []"

record 'l lru =
  lru_put :: "string \<Rightarrow> exit \<Rightarrow> 'l \<Rightarrow> 'l"
  lru_peek :: "string \<Rightarrow> 'l \<Rightarrow> exit option"
  lru_lower :: "string \<Rightarrow> string"

definition exit_record :: "'l lru \<Rightarrow> string \<Rightarrow> exit \<Rightarrow> 'l \<Rightarrow> 'l" where
  "exit_record L host e l = (if exit_is_empty e then l else lru_put L (lru_lower L host) e l)"

definition exit_get :: "'l lru \<Rightarrow> string \<Rightarrow> 'l \<Rightarrow> exit option" where
  "exit_get L host l = lru_peek L (lru_lower L host) l"

section \<open>The index page\<close>

definition rule_line :: string where
  "rule_line = concat (replicate 5 (bytes_str [0xE2, 0x94, 0x80])) @ [CHR 0x0A]"

definition line_of :: "string \<Rightarrow> string" where
  "line_of s = s @ [CHR 0x0A]"

definition usage_text :: "string \<Rightarrow> string" where
  "usage_text host =
     line_of ''Usage'' @ rule_line @
     line_of (''  HTTP      curl -x http://'' @ host @ '' http://ipwho.is'') @
     line_of (''  CONNECT   curl -x http://'' @ host @ '' https://ipwho.is'') @
     line_of (''  Region    curl -x http://us@'' @ host @ '' https://ipwho.is'') @
     line_of (''  Rewrite   curl http://'' @ host @ ''/ipwho.is'') @
     line_of (''            curl http://'' @ host @ ''/https://ipwho.is'') @
     line_of (''  Protocol  curl http://'' @ host @ ''/ssh/ca/ipwho.is'') @
     line_of (''            curl http://'' @ host @ ''/vpn/ca/ipwho.is'')"

text \<open>\<open>{entry:<12}\<close> fills up with spaces to twelve characters (region names are ASCII).\<close>

definition pad_right :: "nat \<Rightarrow> string \<Rightarrow> string" where
  "pad_right n s = s @ replicate (n - length s) (CHR '' '')"

definition stat_entry :: "pool_stat \<Rightarrow> string" where
  "stat_entry stat =
     (if 0 < ps_tunnels stat
      then ps_name stat @ ''('' @ show_nat (ps_usable stat) @ ''/'' @ show_nat (ps_tunnels stat) @ '')''
      else ps_name stat @ ''('' @ show_nat (ps_proxies stat) @ '')'')"

fun stat_entries :: "nat \<Rightarrow> nat \<Rightarrow> pool_stat list \<Rightarrow> string" where
  "stat_entries len index [] = []"
| "stat_entries len index (stat # more_stats) =
     (if index mod 5 = 0 then ''  '' else []) @ pad_right 12 (stat_entry stat) @
     (if index mod 5 = 4 \<or> index = len - 1 then [CHR 0x0A] else []) @
     stat_entries len (Suc index) more_stats"

definition pools_text :: "pool_stat list \<Rightarrow> string" where
  "pools_text ps =
     (if ps = [] then []
      else
        let tunnels = sum_list (map ps_tunnels ps); usable = sum_list (map ps_usable ps);
            proxies = sum_list (map ps_proxies ps);
            ssh = length (filter (\<lambda>s. Ssh \<in> set (ps_protocols s)) ps);
            vpn = length (filter (\<lambda>s. Vpn \<in> set (ps_protocols s)) ps) in
        [CHR 0x0A] @ line_of ''Pools'' @ rule_line @ stat_entries (length ps) 0 ps @ [CHR 0x0A] @
        (if 0 < tunnels
         then line_of (''Total: '' @ show_nat usable @ ''/'' @ show_nat tunnels @ '' usable'')
         else line_of (''Total: '' @ show_nat proxies @ '' proxies'')) @
        line_of (''Pools: '' @ show_nat ssh @ '' ssh, '' @ show_nat vpn @ '' vpn''))"

definition index_page :: "'h header_map \<Rightarrow> pool_stat list \<Rightarrow> string option \<Rightarrow> 'h response" where
  "index_page H ps host =
     (let host = (case host of None \<Rightarrow> ''localhost:8080''
                  | Some h \<Rightarrow> if h = [] then ''localhost:8080'' else h) in
      \<lparr>rs_status = 200,
       rs_headers = hm_insert H ''content-type'' ''text/plain; charset=utf-8'' (hm_empty H),
       rs_body = usage_text host @ pools_text ps\<rparr>)"

section \<open>Handlers\<close>

text \<open>
  What the handlers call: readiness of a tunnel in a polling round, dialling, the exit of a
  tunnel, the tunnel counts, the exit cache, header maps, the base64 decoder, and a forwarder. A forwarder may turn the pools
  and record exits; no result is a request that still waits.
\<close>

type_synonym ('t, 'l) state = "'t store \<times> 'l"

record ('t, 'f, 'c, 'l, 'h) web =
  wb_is_ready :: "nat \<Rightarrow> 't \<Rightarrow> bool"
  wb_dial :: "'t \<Rightarrow> string \<Rightarrow> u16 \<Rightarrow> string + 'c"
  wb_exit_for :: "'t \<Rightarrow> string \<Rightarrow> exit"
  wb_target_pool :: "'t \<Rightarrow> nat"
  wb_active_tunnels :: "'t \<Rightarrow> nat"
  wb_lru :: "'l lru"
  wb_headers :: "'h header_map"
  wb_b64 :: "string \<Rightarrow> bytes option"
  wb_forward :: "'f \<Rightarrow> 'h request \<Rightarrow> target \<Rightarrow> ('t, 'l) state \<Rightarrow>
    ((server_error + 'h response) \<times> ('t, 'l) state) option"
  wb_rounds :: nat
  wb_depth :: nat

text \<open>A tunnel that was dialled is the connection the client is joined to.\<close>

datatype ('c, 'h) connect_result = Respond "'h response" | Joined 'c

definition username_of :: "('t, 'f, 'c, 'l, 'h) web \<Rightarrow> 'h request \<Rightarrow> string" where
  "username_of W rq = auth_username (wb_b64 W) (\<lambda>n. hm_get (wb_headers W) n (rq_headers rq))"

definition connect_authority :: "('t, 'f, 'c, 'l, 'h) web \<Rightarrow> 'h request \<Rightarrow> string option" where
  "connect_authority W rq =
     (case rq_authority rq of Some a \<Rightarrow> Some a | None \<Rightarrow> host_header (wb_headers W) (rq_headers rq))"

definition handle_connect ::
  "('t, 'f, 'c, 'l, 'h) web \<Rightarrow> 'f proxy \<Rightarrow> 'h request \<Rightarrow> ('t, 'l) state \<Rightarrow> (('c, 'h) connect_result \<times> ('t, 'l) state) option" where
  "handle_connect W px rq state =
     (case connect_authority W rq of
        None \<Rightarrow> Some (Respond (error_response (wb_headers W) MissingTarget), state)
      | Some authority \<Rightarrow>
          let (st, l) = state;
              (host, port) = split_authority authority ''https'';
              (pool, st) = pool_for (username_of W rq) None px st in
          (case pick (wb_rounds W) (wb_is_ready W) (wb_depth W) (st_heap st) pool of
             None \<Rightarrow> None
           | Some (None, h) \<Rightarrow> Some (Respond (error_response (wb_headers W) UnknownRegion), st\<lparr>st_heap := h\<rparr>, l)
           | Some (Some c, h) \<Rightarrow>
               (case wb_dial W (c_tunnel c) host port of
                  Inl e \<Rightarrow> Some (Respond (error_response (wb_headers W) (Upstream e)), st\<lparr>st_heap := h\<rparr>, l)
                | Inr conn \<Rightarrow>
                    Some (Joined conn, st\<lparr>st_heap := h\<rparr>,
                          exit_record (wb_lru W) host (wb_exit_for W (c_tunnel c) host) l))))"

definition absolute_target :: "string \<Rightarrow> 'h request \<Rightarrow> target" where
  "absolute_target scheme rq =
     \<lparr>t_scheme = scheme, t_host = (case rq_authority rq of Some a \<Rightarrow> a | None \<Rightarrow> []),
      t_path = rq_path rq, t_query = (case rq_query rq of Some q \<Rightarrow> q | None \<Rightarrow> [])\<rparr>"

definition absolute ::
  "('t, 'f, 'c, 'l, 'h) web \<Rightarrow> 'f proxy \<Rightarrow> 'h request \<Rightarrow> ('t, 'l) state \<Rightarrow>
   ((server_error + 'h response) \<times> ('t, 'l) state) option" where
  "absolute W px rq state =
     (let scheme = (case rq_scheme rq of Some s \<Rightarrow> s | None \<Rightarrow> ''http'') in
      if scheme \<noteq> ''http'' \<and> scheme \<noteq> ''https'' then Some (Inl UnsupportedScheme, state)
      else case forward_for (username_of W rq) None px of
          None \<Rightarrow> Some (Inl ForwardUnavailable, state)
        | Some f \<Rightarrow> wb_forward W f rq (absolute_target scheme rq) state)"

definition rewrite ::
  "('t, 'f, 'c, 'l, 'h) web \<Rightarrow> 'f proxy \<Rightarrow> 'h request \<Rightarrow> ('t, 'l) state \<Rightarrow>
   ((server_error + 'h response) \<times> ('t, 'l) state) option" where
  "rewrite W px rq state =
     (case parse_path (rq_path rq) (rq_query rq) of
        None \<Rightarrow>
          Some (Inr (index_page (wb_headers W) (stats (wb_target_pool W) (wb_active_tunnels W) (wb_depth W) (fst state) px)
                       (host_header (wb_headers W) (rq_headers rq))), state)
      | Some (route, target) \<Rightarrow>
          (case forward_for (route_region route) (r_protocol route) px of
             None \<Rightarrow> Some (Inl ForwardUnavailable, state)
           | Some f \<Rightarrow> wb_forward W f rq target state))"

definition handle ::
  "('t, 'f, 'c, 'l, 'h) web \<Rightarrow> 'f proxy \<Rightarrow> 'h request \<Rightarrow> ('t, 'l) state \<Rightarrow> (('c, 'h) connect_result \<times> ('t, 'l) state) option" where
  "handle W px rq state =
     (if rq_method rq = ''CONNECT'' then handle_connect W px rq state
      else
        case (if rq_authority rq \<noteq> None then absolute W px rq state else rewrite W px rq state) of
          None \<Rightarrow> None
        | Some (Inr response, state) \<Rightarrow> Some (Respond response, state)
        | Some (Inl e, state) \<Rightarrow> Some (Respond (error_response (wb_headers W) e), state))"

section \<open>Header hygiene\<close>

definition client_headers :: "string list" where
  "client_headers =
     [''x-forwarded-for'', ''x-real-ip'', ''x-originating-ip'', ''true-client-ip'', ''client-ip'',
      ''forwarded'', ''x-forwarded-host'', ''x-forwarded-proto'', ''cf-connecting-ip'',
      ''proxy-authorization'']"

definition hop_headers :: "string list" where
  "hop_headers =
     [''connection'', ''proxy-connection'', ''keep-alive'', ''proxy-authenticate'',
      ''proxy-authorization'', ''te'', ''trailer'', ''transfer-encoding'', ''upgrade'']"

definition strip_client_headers :: "'h header_map \<Rightarrow> 'h \<Rightarrow> 'h" where
  "strip_client_headers H h = fold (hm_remove H) client_headers h"

definition strip_hop_headers :: "'h header_map \<Rightarrow> 'h \<Rightarrow> 'h" where
  "strip_hop_headers H h = fold (hm_remove H) hop_headers h"

section \<open>Merging regions keeps every pool reachable\<close>

text \<open>A region's merged pool exists and has the pools of all its variants as children.\<close>

definition is_child :: "'t store \<Rightarrow> pool_addr \<Rightarrow> pool_addr \<Rightarrow> bool" where
  "is_child st a child \<longleftrightarrow> (\<exists>self. st_heap st a = Some self \<and> child \<in> set (pool_children self))"

definition region_ok :: "'t store \<Rightarrow> 'f region \<Rightarrow> bool" where
  "region_ok st rg \<longleftrightarrow>
     st_heap st (rg_merged rg) \<noteq> None \<and> (\<forall>v \<in> set (rg_variants rg). is_child st (rg_merged rg) (va_pool v)) \<and>
     distinct (region_protocols rg)"

lemma add_child_keeps: "is_child st a c \<Longrightarrow> is_child (st\<lparr>st_heap := add_child (st_heap st) b d\<rparr>) a c"
  by (auto simp: is_child_def add_child_def split: option.splits)

lemma add_child_adds: "st_heap st a \<noteq> None \<Longrightarrow> is_child (st\<lparr>st_heap := add_child (st_heap st) a c\<rparr>) a c"
  by (auto simp: is_child_def add_child_def)

lemma add_child_alloc: "(add_child h a c) b = None \<longleftrightarrow> h b = None"
  by (auto simp: add_child_def split: option.splits)

lemma add_variant_pools: "va_pool ` set (add_variant p pool f vs) \<subseteq> insert pool (va_pool ` set vs)"
  by (induction vs) auto

lemma add_variant_protocols:
  "map va_protocol (add_variant p pool f vs) =
     (if p \<in> va_protocol ` set vs then map va_protocol vs else map va_protocol vs @ [p])"
  by (induction vs) auto

lemma region_ok_mono:
  "region_ok st rg \<Longrightarrow> region_ok (st\<lparr>st_heap := add_child (st_heap st) b d\<rparr>) rg"
  by (auto simp: region_ok_def add_child_alloc add_child_keeps)

lemma region_add_ok:
  assumes "region_ok st rg" "region_add p pool f rg st = (rg', st')"
  shows "region_ok st' rg'" "is_child st' (rg_merged rg') pool" "rg_merged rg' = rg_merged rg"
    "rg_username rg' = rg_username rg"
proof -
  have e: "rg' = rg\<lparr>rg_variants := add_variant p pool f (rg_variants rg)\<rparr>"
    "st' = st\<lparr>st_heap := add_child (st_heap st) (rg_merged rg) pool\<rparr>"
    using assms(2) by (simp_all add: region_add_def)
  show child: "is_child st' (rg_merged rg') pool" using assms(1) by (simp add: e region_ok_def add_child_adds)
  show "region_ok st' rg'"
  proof -
    have "is_child st' (rg_merged rg) (va_pool v)" if "v \<in> set (rg_variants rg')" for v
    proof -
      have "va_pool v \<in> insert pool (va_pool ` set (rg_variants rg))"
        using that add_variant_pools [of p pool f "rg_variants rg"] by (auto simp: e)
      then show ?thesis using child assms(1) by (auto simp: e region_ok_def add_child_keeps)
    qed
    then show ?thesis using assms(1)
      by (auto simp: e region_ok_def add_child_alloc region_protocols_def add_variant_protocols)
  qed
qed (use assms(2) in \<open>auto simp: region_add_def\<close>)

lemma find_distinct: "v \<in> set vs \<Longrightarrow> distinct (map g vs) \<Longrightarrow> find (\<lambda>u. g u = g v) vs = Some v"
  by (induction vs) auto

lemma region_pool_known:
  "v \<in> set (rg_variants rg) \<Longrightarrow> distinct (region_protocols rg) \<Longrightarrow>
   region_pool (Some (va_protocol v)) rg st = (va_pool v, st)"
  by (simp add: region_pool_def find_variant_def region_protocols_def find_distinct)

text \<open>What adding does not lose.\<close>

definition grows :: "'t store \<Rightarrow> 't store \<Rightarrow> bool" where
  "grows st st' \<longleftrightarrow> (\<forall>a c. is_child st a c \<longrightarrow> is_child st' a c) \<and> (\<forall>a. st_heap st a \<noteq> None \<longrightarrow> st_heap st' a \<noteq> None)"

lemma grows_refl: "grows st st"
  by (simp add: grows_def)

lemma grows_trans: "grows a b \<Longrightarrow> grows b c \<Longrightarrow> grows a c"
  by (auto simp: grows_def)

lemma grows_region_ok: "grows st st' \<Longrightarrow> region_ok st rg \<Longrightarrow> region_ok st' rg"
  by (auto simp: grows_def region_ok_def)

lemma region_add_grows: "region_add p pool f rg st = (rg', st') \<Longrightarrow> grows st st'"
  unfolding grows_def by (auto simp: region_add_def add_child_keeps add_child_alloc simp flip: not_None_eq)

lemma merge_protocols_ok:
  assumes "region_ok st existing" "distinct (region_protocols rg)" "set ps \<subseteq> set (region_protocols rg)"
    "merge_protocols ps rg existing st = (rg', st')"
  shows "region_ok st' rg' \<and> rg_merged rg' = rg_merged existing \<and> rg_username rg' = rg_username existing \<and>
    grows st st' \<and> (\<forall>v \<in> set (rg_variants rg). va_protocol v \<in> set ps \<longrightarrow> is_child st' (rg_merged rg') (va_pool v))"
  using assms
proof (induction ps arbitrary: existing st)
  case Nil
  then show ?case by (simp add: grows_refl)
next
  case (Cons p ps)
  from Cons.prems(3) obtain v where v: "v \<in> set (rg_variants rg)" "va_protocol v = p"
    by (auto simp: region_protocols_def)
  have pool: "region_pool (Some p) rg st = (va_pool v, st)" using region_pool_known [OF v(1) Cons.prems(2)] v(2) by simp
  obtain e1 st1 where add: "region_add p (va_pool v) (region_forward (Some p) rg) existing st = (e1, st1)" by fastforce
  note ok = region_add_ok [OF Cons.prems(1) add]
  have rest: "merge_protocols ps rg e1 st1 = (rg', st')" using Cons.prems(4) pool add by simp
  from Cons.IH [OF ok(1) Cons.prems(2) _ rest] Cons.prems(3)
  have IH: "region_ok st' rg'" "rg_merged rg' = rg_merged e1" "rg_username rg' = rg_username e1" "grows st1 st'"
    "\<forall>v \<in> set (rg_variants rg). va_protocol v \<in> set ps \<longrightarrow> is_child st' (rg_merged rg') (va_pool v)" by auto
  have "u = v" if "u \<in> set (rg_variants rg)" "va_protocol u = p" for u
    using that v Cons.prems(2) by (auto simp: region_protocols_def distinct_map inj_on_def)
  then have "is_child st' (rg_merged rg') (va_pool u)" if "u \<in> set (rg_variants rg)" "va_protocol u = p" for u
    using that ok(2) IH(2,4) by (auto simp: grows_def)
  with IH ok(3,4) grows_trans [OF region_add_grows [OF add] IH(4)] show ?case by auto
qed

lemma add_region_to_ok:
  assumes "\<forall>r \<in> set regions. region_ok st r" "region_ok st rg"
    "add_region_to rg regions st = (regions', st')"
  shows "(\<forall>r \<in> set regions'. region_ok st' r) \<and> grows st st' \<and>
    (\<exists>rg'. find (\<lambda>r. eq_ignore_ascii_case (rg_username r) (rg_username rg)) regions' = Some rg' \<and>
      (\<forall>v \<in> set (rg_variants rg). is_child st' (rg_merged rg') (va_pool v)))"
  using assms
proof (induction regions arbitrary: regions')
  case Nil
  then have "eq_ignore_ascii_case (rg_username rg) (rg_username rg)" by (simp add: eq_ignore_ascii_case_def)
  with Nil show ?case by (auto simp: grows_refl region_ok_def)
next
  case (Cons current regions)
  show ?case
  proof (cases "eq_ignore_ascii_case (rg_username current) (rg_username rg)")
    case True
    obtain e1 st1 where m: "merge_protocols (region_protocols rg) rg current st = (e1, st1)" by fastforce
    have e: "regions' = e1 # regions" "st' = st1" using Cons.prems(3) True m by simp_all
    have "distinct (region_protocols rg)" using Cons.prems(2) by (simp add: region_ok_def)
    from merge_protocols_ok [OF _ this subset_refl m] Cons.prems(1)
    have "region_ok st1 e1 \<and> rg_username e1 = rg_username current \<and> grows st st1 \<and>
      (\<forall>v \<in> set (rg_variants rg). is_child st1 (rg_merged e1) (va_pool v))"
      by (auto simp: region_protocols_def)
    with Cons.prems(1) True e show ?thesis by (auto intro: grows_region_ok)
  next
    case False
    obtain rest st1 where r: "add_region_to rg regions st = (rest, st1)" by fastforce
    have e: "regions' = current # rest" "st' = st1" using Cons.prems(3) False r by simp_all
    from Cons.IH [OF _ Cons.prems(2), of rest] r Cons.prems(1) False e show ?thesis by (auto intro: grows_region_ok)
  qed
qed

text \<open>
  Registering a region never hides an exit. After \<open>add_region\<close>, a request for the region's
  user name (in any case) is served from a merged pool that has the pools of all protocols the
  region came with as children, also when the name was already known and the regions were
  merged; and every region that was consistent before still is.
\<close>

theorem add_region_reachable:
  assumes "\<forall>r \<in> set (px_regions px). region_ok st r" "region_ok st rg" "rg_username rg \<noteq> []"
    "add_region rg px st = (px', st')"
  shows "(\<forall>r \<in> set (px_regions px'). region_ok st' r) \<and>
    (\<forall>v \<in> set (rg_variants rg). is_child st' (fst (pool_for (rg_username rg) None px' st')) (va_pool v))"
proof -
  obtain regions where r: "add_region_to rg (px_regions px) st = (regions, st')" "px' = px\<lparr>px_regions := regions\<rparr>"
    using assms(4) by (auto simp: add_region_def split: prod.splits)
  from add_region_to_ok [OF assms(1,2) r(1)] assms(3) show ?thesis
    by (auto simp: r(2) pool_for_def region_of_def region_pool_def)
qed

definition demo_region :: "unit region" where
  "demo_region =
     \<lparr>rg_name = ''us'', rg_username = ''us'',
      rg_variants = [\<lparr>va_protocol = Vpn, va_pool = 0, va_forward = Some ()\<rparr>], rg_merged = 1\<rparr>"

definition demo_store :: "nat store" where
  "demo_store =
     \<lparr>st_heap = [0 \<mapsto> pool_new [], 1 \<mapsto> (pool_new [])\<lparr>pool_children := [0]\<rparr>,
                  2 \<mapsto> pool_new [], 3 \<mapsto> (pool_new [])\<lparr>pool_children := [2]\<rparr>],
      st_next = 4\<rparr>"

theorem add_region_reachable_witness:
  "\<exists>px' st'. add_region \<lparr>rg_name = ''US'', rg_username = ''US'',
       rg_variants = [\<lparr>va_protocol = Ssh, va_pool = 2, va_forward = None\<rparr>], rg_merged = 3\<rparr>
       ((proxy_new 0 None)\<lparr>px_regions := [demo_region]\<rparr>) demo_store = (px', st') \<and>
     is_child st' (fst (pool_for ''US'' None px' st')) 2"
proof -
  let ?rg = "\<lparr>rg_name = ''US'', rg_username = ''US'',
    rg_variants = [\<lparr>va_protocol = Ssh, va_pool = 2, va_forward = None\<rparr>], rg_merged = 3\<rparr> :: unit region"
  let ?px = "(proxy_new 0 None)\<lparr>px_regions := [demo_region]\<rparr>"
  obtain px' st' where a: "add_region ?rg ?px demo_store = (px', st')" by fastforce
  have "\<forall>r \<in> set (px_regions ?px). region_ok demo_store r" "region_ok demo_store ?rg" "rg_username ?rg \<noteq> []"
    by (simp_all add: demo_region_def demo_store_def region_ok_def is_child_def region_protocols_def)
  from add_region_reachable [OF this a] a show ?thesis by auto
qed

section \<open>A client is joined to a ready exit only\<close>

lemma select_found_ready:
  "select k i rdy n h a pr = Some (Some c, h') \<Longrightarrow> \<exists>j. rdy j (c_tunnel c)"
proof (induction k arbitrary: i h)
  case (Suc k)
  then show ?case by (auto split: option.splits if_splits prod.splits dest!: find_Some_iff [THEN iffD1])
qed simp

text \<open>
  C29: a CONNECT request is joined to a connection only if the target it named was dialled,
  with its port, through a tunnel that was ready when it was chosen; otherwise the client gets
  an error: 400 without a target, 502 without an exit or when dialling fails.
\<close>

theorem handle_connect_outcome:
  assumes "handle_connect W px rq state = Some (res, state')"
  shows "case res of
      Joined conn \<Rightarrow>
        (\<exists>authority t round. connect_authority W rq = Some authority \<and>
          wb_is_ready W round t \<and>
          wb_dial W t (fst (split_authority authority ''https'')) (snd (split_authority authority ''https'')) = Inr conn)
    | Respond r \<Rightarrow>
        rs_status r = (if connect_authority W rq = None then 400 else 502)"
proof (cases "connect_authority W rq")
  case None
  with assms show ?thesis
    by (auto simp: handle_connect_def error_response_def split: option.splits)
next
  case target: (Some authority)
  define st where "st = snd (pool_for (username_of W rq) None px (fst state))"
  define found where "found = pick (wb_rounds W) (wb_is_ready W) (wb_depth W) (st_heap st)
    (fst (pool_for (username_of W rq) None px (fst state)))"
  obtain c h where f: "found = Some (c, h)"
    using assms target by (auto simp: handle_connect_def case_prod_beta Let_def found_def st_def split: option.splits)
  show ?thesis
  proof (cases c)
    case None
    with assms target f show ?thesis
      by (auto simp: handle_connect_def case_prod_beta Let_def found_def [symmetric] st_def [symmetric]
          error_response_def)
  next
    case (Some x)
    then obtain round where "wb_is_ready W round (c_tunnel x)"
      using f select_found_ready by (fastforce simp: found_def pick_def)
    then have ready: "\<exists>round. wb_is_ready W round (c_tunnel x)" ..
    show ?thesis
    proof (cases "wb_dial W (c_tunnel x) (fst (split_authority authority ''https'')) (snd (split_authority authority ''https''))")
      case (Inl e)
      with assms f Some target show ?thesis
        by (auto simp: handle_connect_def case_prod_beta Let_def found_def [symmetric] st_def [symmetric]
            error_response_def)
    next
      case (Inr conn)
      with assms f Some target have "res = Joined conn"
        by (auto simp: handle_connect_def case_prod_beta Let_def found_def [symmetric] st_def [symmetric])
      with target ready Inr show ?thesis by auto
    qed
  qed
qed

definition demo_web :: "(nat, unit, string, unit, unit) web" where
  "demo_web =
     \<lparr>wb_is_ready = (\<lambda>round t. 0 < t), wb_dial = (\<lambda>t host port. Inr host),
      wb_exit_for = (\<lambda>t host. \<lparr>ex_ip = [], ex_region = [], ex_protocol = []\<rparr>), wb_target_pool = (\<lambda>t. t),
      wb_active_tunnels = (\<lambda>t. t),
      wb_lru = \<lparr>lru_put = (\<lambda>k e l. l), lru_peek = (\<lambda>k l. None), lru_lower = (\<lambda>s. s)\<rparr>,
      wb_headers = \<lparr>hm_empty = (), hm_get = (\<lambda>n h. None), hm_remove = (\<lambda>n h. h),
        hm_insert = (\<lambda>n v h. h), hm_value = (\<lambda>v. True)\<rparr>, wb_b64 = (\<lambda>s. None),
      wb_forward = (\<lambda>f rq target state. None), wb_rounds = 1, wb_depth = 2\<rparr>"

definition demo_connect :: "unit request" where
  "demo_connect =
     \<lparr>rq_method = ''CONNECT'', rq_scheme = None, rq_authority = Some ''a.io'', rq_path = [], rq_query = None,
      rq_headers = (), rq_body = []\<rparr>"

theorem handle_connect_outcome_witness:
  "\<exists>conn state' t round.
     handle_connect demo_web (proxy_new 0 None) demo_connect
       (\<lparr>st_heap = [0 \<mapsto> pool_new [\<lparr>pp_key = ''us'', pp_tunnel = 1 :: nat, pp_priority = 0, pp_protocol = Ssh\<rparr>]], st_next = 1\<rparr>, ()) =
       Some (Joined conn, state') \<and> wb_is_ready demo_web round t \<and> conn = ''a.io''"
proof -
  let ?st = "(\<lparr>st_heap = [0 \<mapsto> pool_new [\<lparr>pp_key = ''us'', pp_tunnel = 1 :: nat, pp_priority = 0, pp_protocol = Ssh\<rparr>]], st_next = 1\<rparr>, ())"
  have sa: "split_authority ''a.io'' ''https'' = (''a.io'', 443)"
    by (simp add: split_authority_def rsplit_once_def split_once_def trim_matches_def is_bracket_def default_port_def)
  have "\<exists>c h'. pick 1 (\<lambda>round t. 0 < t) 2 (st_heap (fst ?st)) 0 = Some (Some c, h')"
    by (simp add: pick_def numeral_2_eq_2 pool_new_def pool_local_def to_candidate_def Let_def)
  then obtain state' where *: "handle_connect demo_web (proxy_new 0 None) demo_connect ?st = Some (Joined ''a.io'', state')"
    by (auto simp: handle_connect_def demo_connect_def demo_web_def connect_authority_def username_of_def auth_username_def sa pool_for_def region_of_def proxy_new_def)
  from handle_connect_outcome [OF this] obtain t round where "wb_is_ready demo_web round t" by auto
  with * show ?thesis by blast
qed

section \<open>Stripped headers\<close>

definition header_laws :: "'h header_map \<Rightarrow> bool" where
  "header_laws H \<longleftrightarrow>
     (\<forall>n m h. hm_get H n (hm_remove H m h) = (if n = m then None else hm_get H n h)) \<and>
     (\<forall>n m v h. hm_value H v \<longrightarrow> hm_get H n (hm_insert H m v h) = (if n = m then Some (Some v) else hm_get H n h))"

lemma fold_remove:
  "header_laws H \<Longrightarrow> hm_get H n (fold (hm_remove H) names h) = (if n \<in> set names then None else hm_get H n h)"
  by (induction names arbitrary: h) (auto simp: header_laws_def)

lemma get_stripped:
  assumes "header_laws H"
  shows "hm_get H n (strip_hop_headers H (strip_client_headers H h)) =
    (if n \<in> set (client_headers @ hop_headers) then None else hm_get H n h)"
    "hm_get H n (strip_hop_headers H h) = (if n \<in> set hop_headers then None else hm_get H n h)"
  using fold_remove [OF assms] by (simp_all add: strip_hop_headers_def strip_client_headers_def)

text \<open>Header maps as association lists satisfy the laws.\<close>

definition list_headers :: "(string \<times> string) list header_map" where
  "list_headers =
     \<lparr>hm_empty = [], hm_get = (\<lambda>n h. map_option Some (map_of h n)),
      hm_remove = (\<lambda>n. filter (\<lambda>(m, _). m \<noteq> n)),
      hm_insert = (\<lambda>n v h. (n, v) # filter (\<lambda>(m, _). m \<noteq> n) h), hm_value = is_ascii\<rparr>"

lemma list_headers_laws: "header_laws list_headers"
proof -
  have "map_of (filter (\<lambda>(k, _). k \<noteq> m) h) n = (if n = m then None else map_of h n)"
    for n m :: string and h :: "(string \<times> string) list"
    by (induction h) auto
  then show ?thesis by (simp add: header_laws_def list_headers_def)
qed

end
