(* ===== verification/Vpn_Account.thy ===== *)
theory Vpn_Account
  imports Vpn_Profile Proxy_Server
begin

text \<open>
  The life of an OpenVPN account (\<open>src/vpn/provider.rs\<close>): connecting on demand with a backoff, the
  count of open connections, closing when idle, and the supervisor of \<open>src/vpn/mod.rs\<close> that puts
  ready accounts into their region's pool. A live tunnel is shared between the account and the
  connections opened through it, so live tunnels have addresses in an arena. Connecting, binding
  the SOCKS bridge and opening a stream are parameters; times are in milliseconds.
\<close>

section \<open>Accounts and live tunnels\<close>

record 'v live =
  lv_tunnel :: 'v
  lv_connections :: u64
  lv_idle_since :: "nat option"

record 'v arena =
  ar_lives :: "nat \<Rightarrow> 'v live option"
  ar_next :: nat

record vpn_config =
  vc_connect_timeout :: nat
  vc_idle_timeout :: nat

definition vpn_config_default :: vpn_config where
  "vpn_config_default = \<lparr>vc_connect_timeout = 20000, vc_idle_timeout = 300000\<rparr>"

record vpn_account =
  ac_ip :: string
  ac_region :: string
  ac_profile :: profile
  ac_config :: vpn_config
  ac_tunnel :: "nat option"
  ac_socks_port :: nat
  ac_failures :: u64
  ac_not_before :: u64
  ac_generation :: u64
  ac_ready :: bool

definition account_new :: "string \<Rightarrow> account_file \<Rightarrow> vpn_config \<Rightarrow> account_error + vpn_account" where
  "account_new ip file config =
     (case account_profile file ip of
        Inl e \<Rightarrow> Inl e
      | Inr profile \<Rightarrow>
          Inr \<lparr>ac_ip = ip, ac_region = (if af_region file = [] then ''UN'' else af_region file),
               ac_profile = profile, ac_config = config, ac_tunnel = None, ac_socks_port = 0,
               ac_failures = 0, ac_not_before = 0, ac_generation = 0, ac_ready = False\<rparr>)"

text \<open>In milliseconds: \<open>1 << min failures 8\<close> seconds.\<close>

definition backoff_delay :: "u64 \<Rightarrow> u64" where
  "backoff_delay failures = 1000 * push_bit (unat (min failures 8)) 1"

record ('v, 'c) vpn_world =
  vw_connect :: "profile \<Rightarrow> nat \<Rightarrow> nat \<Rightarrow> string + 'v"
  vw_socks :: "'v \<Rightarrow> nat \<Rightarrow> string + u16"
  vw_open :: "'v \<Rightarrow> string \<Rightarrow> u16 \<Rightarrow> nat \<Rightarrow> string + 'c"

definition update_live :: "nat \<Rightarrow> ('v live \<Rightarrow> 'v live) \<Rightarrow> 'v arena \<Rightarrow> 'v arena" where
  "update_live a f ar = ar\<lparr>ar_lives := (ar_lives ar)(a := map_option f (ar_lives ar a))\<rparr>"

definition account_connect ::
  "('v, 'c) vpn_world \<Rightarrow> nat \<Rightarrow> vpn_account \<Rightarrow> 'v arena \<Rightarrow> (string + nat) \<times> vpn_account \<times> 'v arena" where
  "account_connect W now ac ar =
     (case vw_connect W (ac_profile ac) (vc_connect_timeout (ac_config ac)) now of
        Inr tunnel \<Rightarrow>
          (case vw_socks W tunnel now of
             Inl err \<Rightarrow> (Inl err, ac, ar)
           | Inr port \<Rightarrow>
               let a = ar_next ar in
               (Inr a,
                ac\<lparr>ac_failures := 0, ac_ready := True, ac_socks_port := unat port, ac_tunnel := Some a\<rparr>,
                ar\<lparr>ar_lives := (ar_lives ar)(a \<mapsto> \<lparr>lv_tunnel = tunnel, lv_connections = 0, lv_idle_since = None\<rparr>),
                   ar_next := Suc a\<rparr>))
      | Inl err \<Rightarrow>
          let failures = ac_failures ac + 1 in
          (Inl err,
           ac\<lparr>ac_failures := failures, ac_not_before := of_nat now + backoff_delay failures, ac_ready := False,
              ac_generation := ac_generation ac + 1\<rparr>, ar))"

definition account_live ::
  "('v, 'c) vpn_world \<Rightarrow> nat \<Rightarrow> vpn_account \<Rightarrow> 'v arena \<Rightarrow> (string + nat) \<times> vpn_account \<times> 'v arena" where
  "account_live W now ac ar =
     (case ac_tunnel ac of
        Some a \<Rightarrow> (Inr a, ac, update_live a (\<lambda>l. l\<lparr>lv_idle_since := None\<rparr>) ar)
      | None \<Rightarrow>
          if of_nat now < ac_not_before ac then (Inl ''backoff'', ac, ar) else account_connect W now ac ar)"

definition bridge_ready :: "vpn_account \<Rightarrow> bool" where
  "bridge_ready ac \<longleftrightarrow> ac_ready ac \<and> ac_socks_port ac \<noteq> 0"

definition account_warm ::
  "('v, 'c) vpn_world \<Rightarrow> nat \<Rightarrow> vpn_account \<Rightarrow> 'v arena \<Rightarrow> vpn_account \<times> 'v arena" where
  "account_warm W now ac ar = snd (account_live W now ac ar)"

text \<open>\<open>open\<close>: the address in the result is the one the connection's guard holds.\<close>

definition account_open ::
  "('v, 'c) vpn_world \<Rightarrow> nat \<Rightarrow> string \<Rightarrow> u16 \<Rightarrow> vpn_account \<Rightarrow> 'v arena \<Rightarrow>
   (string + 'c \<times> nat) \<times> vpn_account \<times> 'v arena" where
  "account_open W now host port ac ar =
     (case account_live W now ac ar of
        (Inl err, ac, ar) \<Rightarrow> (Inl err, ac, ar)
      | (Inr a, ac, ar) \<Rightarrow>
          (case ar_lives ar a of
             None \<Rightarrow> (Inl ''no tunnel'', ac, ar)
           | Some live \<Rightarrow>
               (case vw_open W (lv_tunnel live) host port now of
                  Inl err \<Rightarrow> (Inl err, ac, ar)
                | Inr stream \<Rightarrow>
                    (Inr (stream, a), ac,
                     update_live a (\<lambda>l. l\<lparr>lv_connections := lv_connections l + 1\<rparr>) ar))))"

definition drop_live :: "nat \<Rightarrow> 'v live \<Rightarrow> 'v live" where
  "drop_live now l =
     (let l = l\<lparr>lv_connections := lv_connections l - 1\<rparr> in
      if lv_connections l = 0 then l\<lparr>lv_idle_since := Some now\<rparr> else l)"

definition guard_drop :: "nat \<Rightarrow> nat \<Rightarrow> 'v arena \<Rightarrow> 'v arena" where
  "guard_drop now a ar = update_live a (drop_live now) ar"

text \<open>\<open>idle_expired\<close> starts the idle clock when it is not running.\<close>

definition idle_expired :: "nat \<Rightarrow> nat \<Rightarrow> 'v live \<Rightarrow> bool \<times> 'v live" where
  "idle_expired now timeout l =
     (if 0 < lv_connections l then (False, l)
      else
        let since = (case lv_idle_since l of Some t \<Rightarrow> t | None \<Rightarrow> now) in
        (timeout \<le> now - since, l\<lparr>lv_idle_since := Some since\<rparr>))"

definition account_reap :: "nat \<Rightarrow> vpn_account \<Rightarrow> 'v arena \<Rightarrow> vpn_account \<times> 'v arena" where
  "account_reap now ac ar =
     (case ac_tunnel ac of
        None \<Rightarrow> (ac, ar)
      | Some a \<Rightarrow>
          (case ar_lives ar a of
             None \<Rightarrow> (ac, ar)
           | Some live \<Rightarrow>
               let (expired, live) = idle_expired now (vc_idle_timeout (ac_config ac)) live in
               if \<not> expired
               then (ac, update_live a (\<lambda>_. if 0 < lv_connections live then live\<lparr>lv_idle_since := None\<rparr> else live) ar)
               else
                 (ac\<lparr>ac_ready := False, ac_generation := ac_generation ac + 1, ac_socks_port := 0, ac_tunnel := None\<rparr>,
                  update_live a (\<lambda>_. live\<lparr>lv_idle_since := None\<rparr>) ar)))"

section \<open>The account as a tunnel\<close>

definition vpn_target_pool :: "vpn_account \<Rightarrow> nat" where
  "vpn_target_pool ac = 1"

definition vpn_active_tunnels :: "vpn_account \<Rightarrow> nat" where
  "vpn_active_tunnels ac = (if ac_ready ac then 1 else 0)"

definition vpn_proxy_url :: "vpn_account \<Rightarrow> string option" where
  "vpn_proxy_url ac =
     (if ac_socks_port ac = 0 then None else Some (''socks5h://127.0.0.1:'' @ show_nat (ac_socks_port ac)))"

definition vpn_exit_for :: "vpn_account \<Rightarrow> string \<Rightarrow> exit" where
  "vpn_exit_for ac host = \<lparr>ex_ip = ac_ip ac, ex_region = ac_region ac, ex_protocol = ''openvpn''\<rparr>"

text \<open>
  What the pools and the forwarder rely on of a tunnel: one that says it is ready counts as usable
  and has an address to send through.
\<close>

locale tunnel_trait =
  fixes is_ready :: "'t \<Rightarrow> bool" and active_tunnels :: "'t \<Rightarrow> nat" and proxy_url :: "'t \<Rightarrow> string option"
  assumes ready_active: "is_ready t \<Longrightarrow> 0 < active_tunnels t"
    and ready_url: "is_ready t \<Longrightarrow> proxy_url t \<noteq> None"
begin

lemma ready_usable: "is_ready t \<Longrightarrow> t \<in> set ts \<Longrightarrow> 0 < sum_list (map active_tunnels ts)"
  using ready_active by (induction ts) auto

end

interpretation vpn: tunnel_trait bridge_ready vpn_active_tunnels vpn_proxy_url
  by unfold_locales (simp_all add: bridge_ready_def vpn_active_tunnels_def vpn_proxy_url_def)

section \<open>The supervisor\<close>

definition vpn_key :: "vpn_account \<Rightarrow> string" where
  "vpn_key ac = ''openvpn://'' @ ac_ip ac"

definition proxy_for :: "nat \<Rightarrow> vpn_account \<Rightarrow> nat pool_proxy" where
  "proxy_for i ac = \<lparr>pp_key = vpn_key ac, pp_tunnel = i, pp_priority = 0, pp_protocol = Vpn\<rparr>"

definition push_at :: "pool_addr \<Rightarrow> 't pool_proxy \<Rightarrow> 't heap \<Rightarrow> 't heap" where
  "push_at a x h = h(a := map_option (\<lambda>p. push p x) (h a))"

definition remove_at :: "pool_addr \<Rightarrow> string \<Rightarrow> 't heap \<Rightarrow> 't heap" where
  "remove_at a key h = h(a := map_option (\<lambda>p. remove p key) (h a))"

text \<open>One account of a round of \<open>supervise\<close>; the pools of accounts have no children.\<close>

definition supervise_account ::
  "(string \<Rightarrow> pool_addr option) \<Rightarrow> nat \<Rightarrow> vpn_account \<Rightarrow> nat heap \<Rightarrow> nat heap" where
  "supervise_account pools i ac h =
     (case pools (ac_region ac) of
        None \<Rightarrow> h
      | Some a \<Rightarrow>
          (case contains 1 h a (vpn_key ac) of
             None \<Rightarrow> h
           | Some present \<Rightarrow>
               if bridge_ready ac \<and> \<not> present then push_at a (proxy_for i ac) h
               else if \<not> bridge_ready ac \<and> present then remove_at a (vpn_key ac) h
               else h))"

fun supervise_round ::
  "(string \<Rightarrow> pool_addr option) \<Rightarrow> nat \<Rightarrow> vpn_account list \<Rightarrow> nat heap \<Rightarrow> nat heap" where
  "supervise_round pools i [] h = h"
| "supervise_round pools i (ac # acs) h = supervise_round pools (Suc i) acs (supervise_account pools i ac h)"

section \<open>The accounts at work\<close>

text \<open>
  The tasks that run beside each other: time passes, the one warm-up task of each account, requests
  that pick a ready account and dial it, connections that end, the reaper and the supervisor.
  \<open>vp_guards\<close> are the live tunnels the open connections hold. Traffic over the SOCKS bridge
  does not touch the account.
\<close>

record 'v vpn =
  vp_accounts :: "vpn_account list"
  vp_arena :: "'v arena"
  vp_guards :: "nat list"
  vp_warm :: "nat list"
  vp_now :: nat
  vp_pools :: "string \<Rightarrow> pool_addr option"
  vp_heap :: "nat heap"

inductive vpn_step :: "('v, 'c) vpn_world \<Rightarrow> 'v vpn \<Rightarrow> 'v vpn \<Rightarrow> bool" for W where
  pass: "vpn_step W s (s\<lparr>vp_now := vp_now s + d\<rparr>)"
| warm: "i \<in> set (vp_warm s) \<Longrightarrow> i < length (vp_accounts s) \<Longrightarrow>
    account_warm W (vp_now s) (vp_accounts s ! i) (vp_arena s) = (ac, ar) \<Longrightarrow>
    vpn_step W s (s\<lparr>vp_accounts := (vp_accounts s)[i := ac], vp_arena := ar, vp_warm := remove1 i (vp_warm s)\<rparr>)"
| dial: "i < length (vp_accounts s) \<Longrightarrow> bridge_ready (vp_accounts s ! i) \<Longrightarrow>
    account_open W (vp_now s) host port (vp_accounts s ! i) (vp_arena s) = (Inr (stream, a), ac, ar) \<Longrightarrow>
    vpn_step W s (s\<lparr>vp_accounts := (vp_accounts s)[i := ac], vp_arena := ar, vp_guards := a # vp_guards s\<rparr>)"
| dial_failed: "i < length (vp_accounts s) \<Longrightarrow> bridge_ready (vp_accounts s ! i) \<Longrightarrow>
    account_open W (vp_now s) host port (vp_accounts s ! i) (vp_arena s) = (Inl err, ac, ar) \<Longrightarrow>
    vpn_step W s (s\<lparr>vp_accounts := (vp_accounts s)[i := ac], vp_arena := ar\<rparr>)"
| close: "vp_guards s = xs @ a # ys \<Longrightarrow>
    vpn_step W s (s\<lparr>vp_arena := guard_drop (vp_now s) a (vp_arena s), vp_guards := xs @ ys\<rparr>)"
| reap: "i < length (vp_accounts s) \<Longrightarrow>
    account_reap (vp_now s) (vp_accounts s ! i) (vp_arena s) = (ac, ar) \<Longrightarrow>
    vpn_step W s (s\<lparr>vp_accounts := (vp_accounts s)[i := ac], vp_arena := ar\<rparr>)"
| supervise: "vpn_step W s (s\<lparr>vp_heap := supervise_round (vp_pools s) 0 (vp_accounts s) (vp_heap s)\<rparr>)"

inductive_cases vpn_stepE: "vpn_step W s s'"

definition vpn_start ::
  "vpn_account list \<Rightarrow> nat \<Rightarrow> (string \<Rightarrow> pool_addr option) \<Rightarrow> nat heap \<Rightarrow> 'v vpn" where
  "vpn_start acs now pools h =
     \<lparr>vp_accounts = acs, vp_arena = \<lparr>ar_lives = Map.empty, ar_next = 0\<rparr>, vp_guards = [], vp_warm = [0..<length acs],
      vp_now = now, vp_pools = pools, vp_heap = h\<rparr>"

section \<open>The invariant\<close>

text \<open>
  \<open>arena_ok\<close>: every connection's tunnel exists and its counter is the number of connections that
  hold it. \<open>slot_ok\<close>: an account is ready exactly while it has a tunnel, and then the tunnel exists
  and the bridge has a port.
\<close>

definition arena_ok :: "nat list \<Rightarrow> 'v arena \<Rightarrow> bool" where
  "arena_ok guards ar \<longleftrightarrow>
     dom (ar_lives ar) \<subseteq> {..<ar_next ar} \<and> set guards \<subseteq> dom (ar_lives ar) \<and>
     (\<forall>a l. ar_lives ar a = Some l \<longrightarrow> lv_connections l = of_nat (count_list guards a))"

definition slot_ok :: "'v arena \<Rightarrow> vpn_account \<Rightarrow> bool" where
  "slot_ok ar ac \<longleftrightarrow>
     (case ac_tunnel ac of
        None \<Rightarrow> \<not> ac_ready ac \<and> ac_socks_port ac = 0
      | Some a \<Rightarrow> ac_ready ac \<and> ac_socks_port ac \<noteq> 0 \<and> a \<in> dom (ar_lives ar))"

definition socks_laws :: "('v, 'c) vpn_world \<Rightarrow> bool" where
  "socks_laws W \<longleftrightarrow> (\<forall>v now port. vw_socks W v now = Inr port \<longrightarrow> port \<noteq> 0)"

text \<open>What an operation on one account may do: keep the tunnel, drop it, or get a new one.\<close>

definition moves :: "nat list \<Rightarrow> vpn_account \<Rightarrow> 'v arena \<Rightarrow> vpn_account \<Rightarrow> 'v arena \<Rightarrow> bool" where
  "moves guards ac ar ac' ar' \<longleftrightarrow>
     arena_ok guards ar' \<and> slot_ok ar' ac' \<and> dom (ar_lives ar) \<subseteq> dom (ar_lives ar') \<and>
     ac_tunnel ac' \<in> {None, ac_tunnel ac, Some (ar_next ar)} \<and> ac_region ac' = ac_region ac \<and> ac_ip ac' = ac_ip ac"

lemma update_live_simps [simp]:
  "ar_next (update_live a f ar) = ar_next ar"
  "ar_lives (update_live a f ar) b = (if b = a then map_option f (ar_lives ar a) else ar_lives ar b)"
  by (simp_all add: update_live_def)

lemma dom_update_live [simp]: "dom (ar_lives (update_live a f ar)) = dom (ar_lives ar)"
  by (auto simp: dom_def)

lemma movesD:
  assumes "moves guards ac ar ac' ar'"
  shows "arena_ok guards ar'" "slot_ok ar' ac'" "dom (ar_lives ar) \<subseteq> dom (ar_lives ar')"
    "ac_tunnel ac' \<in> {None, ac_tunnel ac, Some (ar_next ar)}" "ac_region ac' = ac_region ac" "ac_ip ac' = ac_ip ac"
  using assms unfolding moves_def by blast+

lemma arena_okD:
  assumes "arena_ok guards ar"
  shows "dom (ar_lives ar) \<subseteq> {..<ar_next ar}" "set guards \<subseteq> dom (ar_lives ar)"
    "ar_lives ar a = Some l \<Longrightarrow> lv_connections l = of_nat (count_list guards a)"
  using assms unfolding arena_ok_def by blast+

lemma arena_ok_update:
  assumes "arena_ok guards ar" "\<forall>l. ar_lives ar a = Some l \<longrightarrow> lv_connections (f l) = lv_connections l"
  shows "arena_ok guards (update_live a f ar)"
  using assms by (auto simp: arena_ok_def dom_def)

lemma slot_ok_mono:
  "slot_ok ar ac \<Longrightarrow> dom (ar_lives ar) \<subseteq> dom (ar_lives ar') \<Longrightarrow> slot_ok ar' ac"
  by (simp add: slot_ok_def split: option.splits) blast

lemma account_connect_moves:
  assumes "socks_laws W" "arena_ok guards ar" "ac_tunnel ac = None" "slot_ok ar ac"
    "account_connect W now ac ar = (r, ac', ar')"
  shows "moves guards ac ar ac' ar' \<and> (\<forall>a. r = Inr a \<longrightarrow> ac_tunnel ac' = Some a \<and> a \<in> dom (ar_lives ar'))"
proof (cases "vw_connect W (ac_profile ac) (vc_connect_timeout (ac_config ac)) now")
  case (Inl err)
  then show ?thesis using assms by (auto simp: account_connect_def moves_def slot_ok_def Let_def)
next
  case (Inr v)
  show ?thesis
  proof (cases "vw_socks W v now")
    case (Inl err)
    then show ?thesis using assms Inr by (auto simp: account_connect_def moves_def)
  next
    case p: (Inr port)
    have fresh: "ar_next ar \<notin> set guards" "ar_next ar \<notin> dom (ar_lives ar)" 
      using arena_okD(1,2) [OF assms(2)] by blast+
    have "unat port \<noteq> 0" using assms(1) p by (auto simp: socks_laws_def unat_eq_0)
    define live where "live = \<lparr>lv_tunnel = v, lv_connections = 0, lv_idle_since = None\<rparr>"
    have e: "r = Inr (ar_next ar)"
      "ac' = ac\<lparr>ac_failures := 0, ac_ready := True, ac_socks_port := unat port, ac_tunnel := Some (ar_next ar)\<rparr>"
      "ar' = ar\<lparr>ar_lives := (ar_lives ar)(ar_next ar \<mapsto> live), ar_next := Suc (ar_next ar)\<rparr>"
      using assms(5) Inr p by (auto simp: account_connect_def live_def Let_def)
    have "arena_ok guards ar'"
      using assms(2) fresh by (auto simp: arena_ok_def e live_def less_Suc_eq count_list_0_iff)
    then show ?thesis using \<open>unat port \<noteq> 0\<close> by (auto simp: moves_def slot_ok_def e)
  qed
qed

lemma account_live_moves:
  assumes "socks_laws W" "arena_ok guards ar" "slot_ok ar ac" "account_live W now ac ar = (r, ac', ar')"
  shows "moves guards ac ar ac' ar' \<and> (\<forall>a. r = Inr a \<longrightarrow> ac_tunnel ac' = Some a \<and> a \<in> dom (ar_lives ar'))"
proof (cases "ac_tunnel ac")
  case None
  then show ?thesis
    using assms account_connect_moves [OF assms(1,2) None assms(3)]
    by (auto simp: account_live_def moves_def split: if_splits)
next
  case (Some a)
  then have e: "r = Inr a" "ac' = ac" "ar' = update_live a (\<lambda>l. l\<lparr>lv_idle_since := None\<rparr>) ar"
    using assms(4) by (auto simp: account_live_def)
  have "arena_ok guards ar'" unfolding e by (rule arena_ok_update [OF assms(2)]) simp
  then show ?thesis using Some assms(3) e by (auto simp: moves_def slot_ok_def)
qed

lemma arena_ok_add:
  assumes "arena_ok guards ar" "a \<in> dom (ar_lives ar)"
  shows "arena_ok (a # guards) (update_live a (\<lambda>l. l\<lparr>lv_connections := lv_connections l + 1\<rparr>) ar)"
  using assms by (auto simp: arena_ok_def)

lemma arena_ok_drop:
  assumes "arena_ok (xs @ a # ys) ar"
  shows "arena_ok (xs @ ys) (guard_drop now a ar)"
proof -
  have "lv_connections (drop_live now l) = lv_connections l - 1" for l :: "'a live"
    by (simp add: drop_live_def Let_def)
  then show ?thesis using assms by (auto simp: arena_ok_def guard_drop_def)
qed

lemma account_open_moves:
  assumes "socks_laws W" "arena_ok guards ar" "slot_ok ar ac" "account_open W now host port ac ar = (r, ac', ar')"
  shows "case r of Inl err \<Rightarrow> moves guards ac ar ac' ar' | Inr (stream, a) \<Rightarrow> moves (a # guards) ac ar ac' ar'"
proof -
  obtain q ac1 ar1 where l: "account_live W now ac ar = (q, ac1, ar1)" using prod_cases3 by blast
  note m = account_live_moves [OF assms(1-3) l]
  show ?thesis
  proof (cases q)
    case (Inl err)
    then show ?thesis using m assms(4) l by (auto simp: account_open_def)
  next
    case (Inr a)
    then obtain live where live: "ar_lives ar1 a = Some live" using m by auto
    show ?thesis
    proof (cases "vw_open W (lv_tunnel live) host port now")
      case (Inl err)
      then show ?thesis using m assms(4) l Inr live by (auto simp: account_open_def)
    next
      case (Inr stream)
      then have e: "r = Inr (stream, a)" "ac' = ac1"
        "ar' = update_live a (\<lambda>l. l\<lparr>lv_connections := lv_connections l + 1\<rparr>) ar1"
        using assms(4) l \<open>q = Inr a\<close> live by (auto simp: account_open_def)
      note md = movesD [OF m [THEN conjunct1]]
      have dom: "dom (ar_lives ar') = dom (ar_lives ar1)" unfolding e(3) by simp
      have "arena_ok (a # guards) ar'" unfolding e(3) by (rule arena_ok_add [OF md(1)]) (use live in blast)
      moreover have "slot_ok ar' ac1" by (rule slot_ok_mono [OF md(2)]) (simp only: dom subset_refl)
      ultimately show ?thesis using md(3-6) dom by (simp add: e(1,2) moves_def)
    qed
  qed
qed

lemma idle_expired_connections:
  "idle_expired now timeout l = (b, l') \<Longrightarrow> lv_connections l' = lv_connections l \<and> (b \<longrightarrow> lv_connections l = 0)"
  by (auto simp: idle_expired_def Let_def word_gt_0 split: if_splits)

lemma account_reap_moves:
  assumes "arena_ok guards ar" "slot_ok ar ac" "account_reap now ac ar = (ac', ar')"
  shows "moves guards ac ar ac' ar'"
proof (cases "ac_tunnel ac")
  case None
  then show ?thesis using assms by (auto simp: account_reap_def moves_def)
next
  case (Some a)
  then obtain live where live: "ar_lives ar a = Some live" using assms(2) by (auto simp: slot_ok_def)
  obtain b live' where ie: "idle_expired now (vc_idle_timeout (ac_config ac)) live = (b, live')" by fastforce
  note c = idle_expired_connections [OF ie]
  obtain g where ar': "ar' = update_live a (\<lambda>_. g) ar" and g: "lv_connections g = lv_connections live"
    and ac': "ac' = ac \<or> ac_tunnel ac' = None \<and> \<not> ac_ready ac' \<and> ac_socks_port ac' = 0 \<and> ac_region ac' = ac_region ac \<and> ac_ip ac' = ac_ip ac"
    using assms(3) Some live ie c by (auto simp: account_reap_def Let_def split: if_splits)
  have "arena_ok guards ar'" unfolding ar' by (rule arena_ok_update [OF assms(1)]) (use live g in simp)
  then show ?thesis using ac' assms(2) Some live by (auto simp: moves_def ar' slot_ok_def)
qed

definition vpn_ok :: "'v vpn \<Rightarrow> bool" where
  "vpn_ok s \<longleftrightarrow>
     arena_ok (vp_guards s) (vp_arena s) \<and> (\<forall>i < length (vp_accounts s). slot_ok (vp_arena s) (vp_accounts s ! i)) \<and>
     (\<forall>i < length (vp_accounts s). \<forall>j < length (vp_accounts s). \<forall>a.
        i \<noteq> j \<longrightarrow> ac_tunnel (vp_accounts s ! i) = Some a \<longrightarrow> ac_tunnel (vp_accounts s ! j) \<noteq> Some a)"

lemma vpn_ok_moves:
  assumes ok: "vpn_ok s" and i: "i < length (vp_accounts s)"
    and m: "moves guards (vp_accounts s ! i) (vp_arena s) ac ar"
    and s': "vp_accounts s' = (vp_accounts s)[i := ac]" "vp_arena s' = ar" "vp_guards s' = guards"
  shows "vpn_ok s'"
proof -
  have slots: "slot_ok ar ((vp_accounts s)[i := ac] ! j)" if "j < length (vp_accounts s)" for j
    using that ok i movesD(2,3) [OF m] slot_ok_mono [of "vp_arena s" _ ar] by (cases "j = i") (simp_all add: vpn_ok_def)
  have below: "a < ar_next (vp_arena s)" if "j < length (vp_accounts s)" "ac_tunnel (vp_accounts s ! j) = Some a" for j a
  proof -
    have "slot_ok (vp_arena s) (vp_accounts s ! j)" "arena_ok (vp_guards s) (vp_arena s)" using that ok by (simp_all add: vpn_ok_def)
    then show ?thesis using that(2) arena_okD(1) [of "vp_guards s" "vp_arena s"] by (auto simp: slot_ok_def)
  qed
  have other: "ac_tunnel ac \<noteq> Some a"
    if "j < length (vp_accounts s)" "j \<noteq> i" "ac_tunnel (vp_accounts s ! j) = Some a" for j a
  proof -
    have "ac_tunnel (vp_accounts s ! i) \<noteq> Some a" using that ok i by (simp add: vpn_ok_def)
    then show ?thesis using movesD(4) [OF m] below [OF that(1,3)] by auto
  qed
  have "arena_ok guards ar" by (rule movesD(1) [OF m])
  moreover have "ac_tunnel ((vp_accounts s)[i := ac] ! k) \<noteq> Some a"
    if "j < length (vp_accounts s)" "k < length (vp_accounts s)" "j \<noteq> k" "ac_tunnel ((vp_accounts s)[i := ac] ! j) = Some a" for j k a
  proof (cases "j = i \<or> k = i")
    case True
    then show ?thesis using that other [of k a] other [of j a] by (cases "j = i") auto
  next
    case False
    then show ?thesis using that ok by (simp add: vpn_ok_def)
  qed
  ultimately show ?thesis using slots unfolding vpn_ok_def s' length_list_update by blast
qed

lemma vpn_step_ok:
  assumes "socks_laws W" "vpn_step W s s'" "vpn_ok s"
  shows "vpn_ok s'"
  using assms(2)
proof cases
  case (warm i ac ar)
  have slot: "slot_ok (vp_arena s) (vp_accounts s ! i)" "arena_ok (vp_guards s) (vp_arena s)"
    using assms(3) warm by (auto simp: vpn_ok_def)
  obtain r where "account_live W (vp_now s) (vp_accounts s ! i) (vp_arena s) = (r, ac, ar)"
    using warm(4) by (auto simp: account_warm_def prod_eq_iff)
  from account_live_moves [OF assms(1) slot(2,1) this] warm show ?thesis
    by (intro vpn_ok_moves [OF assms(3) warm(3)]) auto
next
  case (dial i host port stream a ac ar)
  have slot: "slot_ok (vp_arena s) (vp_accounts s ! i)" "arena_ok (vp_guards s) (vp_arena s)"
    using assms(3) dial by (auto simp: vpn_ok_def)
  from account_open_moves [OF assms(1) slot(2,1) dial(4)] dial show ?thesis
    by (intro vpn_ok_moves [OF assms(3) dial(2)]) auto
next
  case (dial_failed i host port err ac ar)
  have slot: "slot_ok (vp_arena s) (vp_accounts s ! i)" "arena_ok (vp_guards s) (vp_arena s)"
    using assms(3) dial_failed by (auto simp: vpn_ok_def)
  from account_open_moves [OF assms(1) slot(2,1) dial_failed(4)] dial_failed show ?thesis
    by (intro vpn_ok_moves [OF assms(3) dial_failed(2)]) auto
next
  case (close xs a ys)
  have "arena_ok (xs @ ys) (guard_drop (vp_now s) a (vp_arena s))"
    using assms(3) close by (intro arena_ok_drop) (simp add: vpn_ok_def)
  moreover have "slot_ok (guard_drop (vp_now s) a (vp_arena s)) ac" if "slot_ok (vp_arena s) ac" for ac
    using that by (rule slot_ok_mono) (simp add: guard_drop_def)
  ultimately show ?thesis using assms(3) close by (auto simp: vpn_ok_def)
next
  case (reap i ac ar)
  have slot: "slot_ok (vp_arena s) (vp_accounts s ! i)" "arena_ok (vp_guards s) (vp_arena s)"
    using assms(3) reap by (auto simp: vpn_ok_def)
  from account_reap_moves [OF slot(2,1) reap(3)] reap show ?thesis
    by (intro vpn_ok_moves [OF assms(3) reap(2)]) auto
qed (use assms(3) in \<open>auto simp: vpn_ok_def\<close>)

text \<open>Accounts as \<open>account_new\<close> makes them.\<close>

definition account_down :: "vpn_account \<Rightarrow> bool" where
  "account_down ac \<longleftrightarrow> ac_tunnel ac = None \<and> \<not> ac_ready ac \<and> ac_socks_port ac = 0"

lemma account_new_down: "account_new ip file config = Inr ac \<Longrightarrow> account_down ac"
  by (auto simp: account_new_def account_down_def split: sum.splits)

lemma vpn_start_ok: "list_all account_down acs \<Longrightarrow> vpn_ok (vpn_start acs now pools h)"
  by (auto simp: vpn_ok_def vpn_start_def arena_ok_def slot_ok_def account_down_def list_all_length)

text \<open>
  C9: whatever the tasks do, and in whatever order, the accounts stay consistent: an account is
  ready exactly while it holds a live tunnel, its bridge then has a port (so a ready account always
  has an address to send through), no two accounts share a tunnel, and the connection counter of
  every tunnel is the number of connections open through it. \<open>socks_laws\<close> says that a bound
  listener never has port 0.
\<close>

theorem vpn_accounts_consistent:
  assumes "socks_laws W" "list_all account_down acs" "(vpn_step W)\<^sup>*\<^sup>* (vpn_start acs now pools h) s"
  shows "vpn_ok s"
  using assms(3)
proof (induction rule: rtranclp_induct)
  case base
  then show ?case by (rule vpn_start_ok [OF assms(2)])
next
  case (step s s')
  then show ?case using vpn_step_ok [OF assms(1)] by blast
qed

section \<open>Closing idle accounts\<close>

text \<open>
  The reaper closes an account only if no connection is open through its tunnel and the tunnel
  has been idle for the whole timeout; whoever else holds connections keeps them. (Fewer than
  \<open>2 ^ 64\<close> connections are open.)
\<close>

theorem reap_only_idle:
  assumes "vpn_ok s" "i < length (vp_accounts s)" "length (vp_guards s) < 2 ^ 64"
    "ac_tunnel (vp_accounts s ! i) = Some a" "account_reap (vp_now s) (vp_accounts s ! i) (vp_arena s) = (ac, ar)"
    "ac_tunnel ac = None"
  shows "a \<notin> set (vp_guards s) \<and>
    (\<exists>live since. ar_lives (vp_arena s) a = Some live \<and> vp_now s - since \<ge> vc_idle_timeout (ac_config (vp_accounts s ! i)) \<and>
       since = (case lv_idle_since live of Some t \<Rightarrow> t | None \<Rightarrow> vp_now s))"
proof -
  have ok: "slot_ok (vp_arena s) (vp_accounts s ! i)" "arena_ok (vp_guards s) (vp_arena s)"
    using assms(1,2) by (simp_all add: vpn_ok_def)
  obtain live where live: "ar_lives (vp_arena s) a = Some live" using ok(1) assms(4) by (auto simp: slot_ok_def)
  obtain b live' where ie: "idle_expired (vp_now s) (vc_idle_timeout (ac_config (vp_accounts s ! i))) live = (b, live')" by fastforce
  have b: "b" using assms(4-6) live ie by (auto simp: account_reap_def Let_def split: if_splits)
  then have "lv_connections live = 0" using idle_expired_connections [OF ie] by simp
  then have "(of_nat (count_list (vp_guards s) a) :: u64) = 0" using arena_okD(3) [OF ok(2) live] by simp
  moreover have "count_list (vp_guards s) a < 2 ^ 64"
    by (rule le_less_trans [OF count_le_length assms(3)])
  ultimately have "count_list (vp_guards s) a = 0"
    by (cases "count_list (vp_guards s) a = 0") (auto simp: word_of_nat_eq_0_iff dest: dvd_imp_le)
  then have "a \<notin> set (vp_guards s)" by (simp add: count_list_0_iff)
  moreover have "vp_now s - (case lv_idle_since live of Some t \<Rightarrow> t | None \<Rightarrow> vp_now s) \<ge> vc_idle_timeout (ac_config (vp_accounts s ! i))"
    using ie b by (auto simp: idle_expired_def Let_def split: if_splits)
  ultimately show ?thesis using live by blast
qed


section \<open>The supervisor and the backoff\<close>

definition flat_at :: "'t heap \<Rightarrow> pool_addr \<Rightarrow> bool" where
  "flat_at h a \<longleftrightarrow> (\<exists>p. h a = Some p \<and> pool_children p = [])"

definition key_set :: "'t proxy_pool \<Rightarrow> string set" where
  "key_set p = pp_key ` set (pool_proxies p)"

definition member_at :: "'t heap \<Rightarrow> pool_addr \<Rightarrow> string \<Rightarrow> bool" where
  "member_at h a k \<longleftrightarrow> (\<exists>p. h a = Some p \<and> k \<in> key_set p)"

lemma contains_flat: "flat_at h a \<Longrightarrow> contains 1 h a k = Some (member_at h a k)"
  by (auto simp: flat_at_def member_at_def key_set_def contains_def One_nat_def image_iff list_ex_iff split: option.splits)

lemma push_facts [simp]:
  "pool_children (push p x) = pool_children p"
  "key_set (push p x) = insert (pp_key x) (key_set p)"
  by (auto simp: push_def key_set_def)

lemma remove_facts [simp]:
  "pool_children (remove p k) = pool_children p"
  "key_set (remove p k) = key_set p - {k}"
  by (auto simp: remove_def key_set_def)

lemma push_at_facts:
  "flat_at (push_at a x h) b = flat_at h b"
  "member_at (push_at a x h) b k \<longleftrightarrow> member_at h b k \<or> (b = a \<and> h a \<noteq> None \<and> k = pp_key x)"
  by (auto simp: flat_at_def member_at_def push_at_def)

lemma remove_at_facts:
  "flat_at (remove_at a x h) b = flat_at h b"
  "member_at (remove_at a x h) b k \<longleftrightarrow> member_at h b k \<and> \<not> (b = a \<and> k = x)"
  by (auto simp: flat_at_def member_at_def remove_at_def)

lemma supervise_account_facts:
  assumes "pools (ac_region ac) = Some a" "flat_at h a"
  shows "flat_at (supervise_account pools i ac h) b = flat_at h b"
    "member_at (supervise_account pools i ac h) a (vpn_key ac) = bridge_ready ac"
    "k \<noteq> vpn_key ac \<Longrightarrow> member_at (supervise_account pools i ac h) b k = member_at h b k"
proof -
  have c: "contains 1 h a (vpn_key ac) = Some (member_at h a (vpn_key ac))" by (rule contains_flat [OF assms(2)])
  have "h a \<noteq> None" using assms(2) by (auto simp: flat_at_def)
  then show "flat_at (supervise_account pools i ac h) b = flat_at h b"
    "member_at (supervise_account pools i ac h) a (vpn_key ac) = bridge_ready ac"
    "k \<noteq> vpn_key ac \<Longrightarrow> member_at (supervise_account pools i ac h) b k = member_at h b k"
    using assms(1) c by (auto simp: supervise_account_def push_at_facts remove_at_facts proxy_for_def)
qed

lemma supervise_round_flat:
  assumes "\<forall>ac \<in> set acs. \<exists>a. pools (ac_region ac) = Some a \<and> flat_at h a"
  shows "flat_at (supervise_round pools i acs h) b = flat_at h b"
  using assms
proof (induction acs arbitrary: i h)
  case (Cons ac acs)
  obtain a where a: "pools (ac_region ac) = Some a" "flat_at h a" using Cons.prems by auto
  note one = supervise_account_facts(1) [of pools ac, OF a, of i]
  have "\<forall>ac' \<in> set acs. \<exists>a. pools (ac_region ac') = Some a \<and> flat_at (supervise_account pools i ac h) a"
    using Cons.prems one by auto
  from Cons.IH [OF this] one show ?case by simp
qed simp

lemma supervise_round_other:
  assumes "\<forall>ac \<in> set acs. \<exists>a. pools (ac_region ac) = Some a \<and> flat_at h a" "k \<notin> vpn_key ` set acs"
  shows "member_at (supervise_round pools i acs h) b k = member_at h b k"
  using assms
proof (induction acs arbitrary: i h)
  case (Cons ac acs)
  obtain a where a: "pools (ac_region ac) = Some a" "flat_at h a" using Cons.prems(1) by auto
  note one = supervise_account_facts [of pools ac, OF a]
  have "\<forall>ac' \<in> set acs. \<exists>a. pools (ac_region ac') = Some a \<and> flat_at (supervise_account pools i ac h) a"
    using Cons.prems(1) one(1) by auto
  from Cons.IH [OF this] one(3) Cons.prems(2) show ?case by simp
qed simp

text \<open>
  C28: after a round of the supervisor, the pool of every account's region offers the account exactly
  if the account is ready.
\<close>

theorem supervise_tracks_readiness:
  assumes "distinct (map ac_ip acs)" "\<forall>ac \<in> set acs. \<exists>a. pools (ac_region ac) = Some a \<and> flat_at h a"
  shows "\<forall>ac \<in> set acs. \<exists>a. pools (ac_region ac) = Some a \<and>
    contains 1 (supervise_round pools 0 acs h) a (vpn_key ac) = Some (bridge_ready ac)"
proof -
  have "\<forall>ac \<in> set acs. \<forall>a. pools (ac_region ac) = Some a \<longrightarrow> member_at (supervise_round pools i acs h) a (vpn_key ac) = bridge_ready ac" for i
    using assms
  proof (induction acs arbitrary: i h)
    case (Cons ac acs)
    obtain a where a: "pools (ac_region ac) = Some a" "flat_at h a" using Cons.prems(2) by auto
    let ?h = "supervise_account pools i ac h"
    note one = supervise_account_facts [of pools ac, OF a]
    have rest: "\<forall>ac \<in> set acs. \<exists>a. pools (ac_region ac) = Some a \<and> flat_at ?h a" using Cons.prems(2) one(1) by auto
    have "vpn_key ac \<notin> vpn_key ` set acs" using Cons.prems(1) by (auto simp: vpn_key_def)
    then have "member_at (supervise_round pools (Suc i) acs ?h) a (vpn_key ac) = bridge_ready ac"
      using supervise_round_other [OF rest] one(2) by simp
    moreover have "\<forall>ac \<in> set acs. \<forall>a. pools (ac_region ac) = Some a \<longrightarrow>
        member_at (supervise_round pools (Suc i) acs ?h) a (vpn_key ac) = bridge_ready ac"
      using Cons.IH [OF _ rest] Cons.prems(1) by simp
    ultimately show ?case using a(1) by simp
  qed simp
  note members = this [of 0]
  show ?thesis
  proof
    fix ac assume ac: "ac \<in> set acs"
    then obtain a where a: "pools (ac_region ac) = Some a" "flat_at h a" using assms(2) by auto
    then have "flat_at (supervise_round pools 0 acs h) a" using supervise_round_flat [OF assms(2)] by simp
    then show "\<exists>a. pools (ac_region ac) = Some a \<and> contains 1 (supervise_round pools 0 acs h) a (vpn_key ac) = Some (bridge_ready ac)"
      using contains_flat [of "supervise_round pools 0 acs h" a "vpn_key ac"] members ac a(1)
      by (intro exI [of _ a]) simp
  qed
qed

lemma of_nat_unat_id_u64: "of_nat (unat x) = (x :: u64)"
  by simp

lemma backoff_delay_value: "unat (backoff_delay f) = 1000 * 2 ^ min (unat f) 8"
proof -
  have m: "unat (min f 8) = min (unat f) 8" by (simp add: min_def word_le_nat_alt)
  have "(2 :: nat) ^ min (unat f) 8 \<le> 2 ^ 8" by (rule power_increasing) simp_all
  then have small: "(2 :: nat) ^ min (unat f) 8 \<le> 256" by simp
  have "push_bit n (1 :: u64) = 2 ^ n" for n by (simp add: push_bit_eq_mult)
  then have "backoff_delay f = of_nat (1000 * 2 ^ min (unat f) 8)" by (simp add: backoff_delay_def m)
  then show ?thesis using small by (simp only: unat_of_nat) simp
qed

text \<open>
  The backoff of an account that cannot connect. When an attempt at time \<open>now\<close> fails, every use
  of the account before \<open>now + 2 ^ min n 8\<close> seconds, \<open>n\<close> being the number of failures in a
  row, is refused without another attempt and changes nothing.
\<close>

theorem backoff_respected:
  assumes "ac_tunnel ac = None" "ac_not_before ac \<le> of_nat now" "vw_connect W (ac_profile ac) (vc_connect_timeout (ac_config ac)) now = Inl err"
    "account_live W now ac ar = (r, ac', ar')" "unat (ac_failures ac) + 1 < 2 ^ 64" "now + 256000 < 2 ^ 64"
    "now' < now + 1000 * 2 ^ min (unat (ac_failures ac) + 1) 8"
  shows "account_live W now' ac' ar' = (Inl ''backoff'', ac', ar')"
proof -
  have f: "unat (ac_failures ac + 1) = unat (ac_failures ac) + 1" using assms(5) by (simp add: unat_word_ariths)
  have ac': "ac_tunnel ac' = None" "ac_not_before ac' = of_nat now + backoff_delay (ac_failures ac + 1)"
    using assms(1,3,4) leD [OF assms(2)] by (auto simp: account_live_def account_connect_def Let_def)
  have "(2 :: nat) ^ min (unat (ac_failures ac) + 1) 8 \<le> 2 ^ 8" by (rule power_increasing) simp_all
  then have small: "1000 * 2 ^ min (unat (ac_failures ac) + 1) 8 \<le> (256000 :: nat)" by simp
  have "unat (ac_not_before ac') = now + 1000 * 2 ^ min (unat (ac_failures ac) + 1) 8"
  proof -
    have "ac_not_before ac' = of_nat (now + 1000 * 2 ^ min (unat (ac_failures ac) + 1) 8)"
      using ac'(2) backoff_delay_value [of "ac_failures ac + 1"] f by (metis of_nat_add of_nat_unat_id_u64)
    then show ?thesis using small assms(6) by (simp only: unat_of_nat) simp
  qed
  then have "(of_nat now' :: u64) < ac_not_before ac'"
    using assms(6,7) small by (simp add: word_less_nat_alt unat_of_nat)
  then show ?thesis using ac'(1) by (simp add: account_live_def)
qed

section \<open>Examples\<close>

definition demo_vpn_profile :: profile where
  "demo_vpn_profile =
     \<lparr>prof_servers = [\<lparr>srv_host = ''1.2.3.4'', srv_port = 1194, srv_protocol = Udp\<rparr>], prof_cipher = Aes256Gcm,
      prof_auth = Sha1, prof_credentials = \<lparr>cred_ca = [], cred_cert = [], cred_key = []\<rparr>\<rparr>"

definition demo_account :: vpn_account where
  "demo_account =
     \<lparr>ac_ip = ''1.2.3.4'', ac_region = ''sg'', ac_profile = demo_vpn_profile, ac_config = vpn_config_default, ac_tunnel = None,
      ac_socks_port = 0, ac_failures = 0, ac_not_before = 0, ac_generation = 0, ac_ready = False\<rparr>"

definition demo_up :: vpn_account where
  "demo_up = demo_account\<lparr>ac_tunnel := Some 0, ac_socks_port := 1080, ac_ready := True\<rparr>"

definition demo_vpn_world :: "(unit, unit) vpn_world" where
  "demo_vpn_world =
     \<lparr>vw_connect = (\<lambda>p timeout now. Inr ()), vw_socks = (\<lambda>v now. Inr 1080), vw_open = (\<lambda>v host port now. Inr ())\<rparr>"

definition demo_vpn :: "unit vpn" where
  "demo_vpn =
     \<lparr>vp_accounts = [demo_up],
      vp_arena = \<lparr>ar_lives = [0 \<mapsto> \<lparr>lv_tunnel = (), lv_connections = 0, lv_idle_since = Some 0\<rparr>], ar_next = 1\<rparr>,
      vp_guards = [], vp_warm = [], vp_now = 300000, vp_pools = [''sg'' \<mapsto> 0], vp_heap = [0 \<mapsto> pool_new []]\<rparr>"

lemma demo_socks_laws: "socks_laws demo_vpn_world"
  by (simp add: socks_laws_def demo_vpn_world_def)

theorem vpn_accounts_consistent_witness:
  "\<exists>s. (vpn_step demo_vpn_world)\<^sup>*\<^sup>* (vpn_start [demo_account] 5 Map.empty Map.empty) s \<and> vpn_ok s \<and>
     bridge_ready (vp_accounts s ! 0)"
proof -
  let ?s = "vpn_start [demo_account] 5 Map.empty Map.empty :: unit vpn"
  obtain ac ar where l: "account_warm demo_vpn_world 5 demo_account (vp_arena ?s) = (ac, ar)" by fastforce
  then have rdy: "bridge_ready ac"
    by (auto simp: account_warm_def account_live_def account_connect_def demo_account_def demo_vpn_world_def bridge_ready_def Let_def)
  have step: "vpn_step demo_vpn_world ?s (?s\<lparr>vp_accounts := [ac], vp_arena := ar, vp_warm := []\<rparr>)"
    using vpn_step.warm [of 0 ?s demo_vpn_world ac ar] l by (simp add: vpn_start_def)
  then have run: "(vpn_step demo_vpn_world)\<^sup>*\<^sup>* ?s (?s\<lparr>vp_accounts := [ac], vp_arena := ar, vp_warm := []\<rparr>)" by blast
  have "list_all account_down [demo_account]" by (simp add: account_down_def demo_account_def)
  from vpn_accounts_consistent [OF demo_socks_laws this run] run rdy show ?thesis
    by (intro exI conjI) (assumption, assumption, simp)
qed

theorem reap_only_idle_witness:
  "\<exists>ac ar. account_reap (vp_now demo_vpn) (vp_accounts demo_vpn ! 0) (vp_arena demo_vpn) = (ac, ar) \<and> ac_tunnel ac = None \<and>
     (0 :: nat) \<notin> set (vp_guards demo_vpn)"
proof -
  obtain ac ar where r: "account_reap (vp_now demo_vpn) (vp_accounts demo_vpn ! 0) (vp_arena demo_vpn) = (ac, ar)" by fastforce
  then have closed: "ac_tunnel ac = None"
    by (auto simp: account_reap_def demo_vpn_def demo_up_def demo_account_def vpn_config_default_def idle_expired_def Let_def)
  have ok: "vpn_ok demo_vpn" by (auto simp: vpn_ok_def demo_vpn_def arena_ok_def slot_ok_def demo_up_def)
  have "0 < length (vp_accounts demo_vpn)" "length (vp_guards demo_vpn) < 2 ^ 64" "ac_tunnel (vp_accounts demo_vpn ! 0) = Some 0"
    by (simp_all add: demo_vpn_def demo_up_def)
  from reap_only_idle [OF ok this r closed] r closed show ?thesis by blast
qed


theorem supervise_tracks_readiness_witness:
  "contains 1 (supervise_round (vp_pools demo_vpn) 0 [demo_up] (vp_heap demo_vpn)) 0 ''openvpn://1.2.3.4'' = Some True"
proof -
  have "distinct (map ac_ip [demo_up])" "\<forall>ac \<in> set [demo_up]. \<exists>a. vp_pools demo_vpn (ac_region ac) = Some a \<and> flat_at (vp_heap demo_vpn) a"
    by (simp_all add: demo_vpn_def demo_up_def demo_account_def flat_at_def pool_new_def)
  note tracked = supervise_tracks_readiness [OF this]
  have "vp_pools demo_vpn (ac_region demo_up) = Some 0" "bridge_ready demo_up" "vpn_key demo_up = ''openvpn://1.2.3.4''"
    by (simp_all add: demo_vpn_def demo_up_def demo_account_def bridge_ready_def vpn_key_def)
  with tracked show ?thesis by (simp del: supervise_round.simps)
qed

theorem backoff_respected_witness:
  "\<exists>ac'. account_live \<lparr>vw_connect = (\<lambda>p timeout now. Inl ''timeout''), vw_socks = (\<lambda>v now. Inr 1080), vw_open = (\<lambda>v host port now. Inr ())\<rparr>
       2999 ac' (vp_arena demo_vpn) = (Inl ''backoff'', ac', vp_arena demo_vpn)"
proof -
  let ?W = "\<lparr>vw_connect = (\<lambda>p timeout now. Inl ''timeout''), vw_socks = (\<lambda>v now. Inr 1080), vw_open = (\<lambda>v host port now. Inr ())\<rparr>
    :: (unit, unit) vpn_world"
  obtain r ac' ar' where l: "account_live ?W 1000 demo_account (vp_arena demo_vpn) = (r, ac', ar')" using prod_cases3 by blast
  then have ar: "ar' = vp_arena demo_vpn" by (auto simp: account_live_def account_connect_def demo_account_def Let_def)
  have "account_live ?W 2999 ac' ar' = (Inl ''backoff'', ac', ar')"
    by (rule backoff_respected [OF _ _ _ l]) (simp_all add: demo_account_def)
  then show ?thesis unfolding ar by blast
qed

end
