(* ===== verification/Async_Io.thy ===== *)
theory Async_Io
  imports Prelude
begin

text \<open>
  Polling: what a call to a stream answers at once, and the contract the readers of a stream rely
  on. \<open>byte_source\<close> is implemented by the streams of the OpenVPN stack, by the guards around them and by
  the obfuscated SSH transport.
\<close>

datatype 'a progress = Wait | Now 'a

text \<open>A poll that may also fail: \<open>Ready (Inl e)\<close> is an I/O error.\<close>

datatype 'a poll = Pending | Ready "string + 'a"

text \<open>
  \<open>holds s out\<close>: the stream still has to deliver \<open>out\<close>. While that is not empty a read takes a
  non-empty prefix of it and nothing else, or it waits for one of the finitely many wake-ups that
  \<open>stall\<close> counts; otherwise it reports the end, or waits while more may come.
\<close>

locale byte_source =
  fixes read :: "nat \<Rightarrow> 's \<Rightarrow> bytes progress \<times> 's"
    and holds :: "'s \<Rightarrow> bytes \<Rightarrow> bool"
    and ended :: "'s \<Rightarrow> bool"
    and stall :: "'s \<Rightarrow> nat"
  assumes read_some: "\<lbrakk>holds s out; 0 < n; out \<noteq> []\<rbrakk> \<Longrightarrow>
      (\<exists>b rest s'. read n s = (Now b, s') \<and> b \<noteq> [] \<and> length b \<le> n \<and> out = b @ rest \<and> holds s' rest \<and> stall s' \<le> stall s) \<or>
      (\<exists>s'. read n s = (Wait, s') \<and> holds s' out \<and> stall s' < stall s)"
    and read_none: "holds s [] \<Longrightarrow>
      \<exists>s'. read n s = (if ended s then Now [] else Wait, s') \<and> holds s' []"
    and read_zero: "\<lbrakk>holds s out; out \<noteq> []\<rbrakk> \<Longrightarrow> fst (read 0 s) \<in> {Now [], Wait} \<and> holds (snd (read 0 s)) out"

text \<open>Reading \<open>k\<close> times with a buffer of \<open>n\<close> bytes.\<close>

fun drain :: "(nat \<Rightarrow> 's \<Rightarrow> bytes progress \<times> 's) \<Rightarrow> nat \<Rightarrow> nat \<Rightarrow> 's \<Rightarrow> bytes \<times> 's" where
  "drain read n 0 s = ([], s)"
| "drain read n (Suc k) s =
     (case read n s of
        (Now b, s) \<Rightarrow> (let (bs, s) = drain read n k s in (b @ bs, s))
      | (Wait, s) \<Rightarrow> drain read n k s)"

definition taken :: "bytes progress \<Rightarrow> bytes" where
  "taken r = (case r of Now b \<Rightarrow> b | Wait \<Rightarrow> [])"

lemma taken_simps [simp]: "taken (Now b) = b" "taken Wait = []"
  by (simp_all add: taken_def)

context byte_source
begin

lemma read_any:
  assumes "holds s out"
  shows "\<exists>rest. out = taken (fst (read n s)) @ rest \<and> holds (snd (read n s)) rest"
proof (cases "out = []")
  case True
  with read_none [of s n] assms show ?thesis by auto
next
  case False
  show ?thesis
  proof (cases "n = 0")
    case True
    then show ?thesis using read_zero [OF assms False] by (auto intro: exI [of _ out])
  next
    case n: False
    then show ?thesis using read_some [OF assms _ False, of n] by auto
  qed
qed

lemma drain_none: "holds s [] \<Longrightarrow> \<exists>s'. drain read n k s = ([], s') \<and> holds s' []"
proof (induction k arbitrary: s)
  case (Suc k)
  then show ?case using read_none [of s n] by (fastforce split: if_splits)
qed simp

lemma drain_all:
  "\<lbrakk>holds s out; 0 < n; length out + stall s \<le> k\<rbrakk> \<Longrightarrow> \<exists>s'. drain read n k s = (out, s') \<and> holds s' []"
proof (induction k arbitrary: s out)
  case 0
  then show ?case by simp
next
  case (Suc k)
  show ?case
  proof (cases "out = []")
    case True
    then show ?thesis using drain_none Suc.prems(1) by blast
  next
    case False
    then consider (now) b rest s1 where "read n s = (Now b, s1)" "b \<noteq> []" "out = b @ rest" "holds s1 rest" "stall s1 \<le> stall s"
      | (wait) s1 where "read n s = (Wait, s1)" "holds s1 out" "stall s1 < stall s"
      using read_some [OF Suc.prems(1,2)] by blast
    then show ?thesis
    proof cases
      case now
      then have "length rest + stall s1 \<le> k" using Suc.prems(3) by (cases b) auto
      then show ?thesis using Suc.IH [OF now(4) Suc.prems(2)] now by auto
    next
      case wait
      then show ?thesis using Suc.IH [OF wait(2) Suc.prems(2)] Suc.prems(3) by simp
    qed
  qed
qed

end

end
