(* ===== verification/Ovpn_Stack.thy ===== *)
theory Ovpn_Stack
  imports Ovpn_Reliable Async_Io
begin

text \<open>
  The user-space TCP stack behind an OpenVPN tunnel (\<open>src/openvpn/stack.rs\<close>). One task owns the control channel, the smoltcp interface and
  the sockets; each client holds a \<open>Stream\<close> that is joined to a connection by two bounded queues.
  The smoltcp interface and its sockets are a parameter.
\<close>

section \<open>The queues between a stream and its connection\<close>

definition MTU :: nat where [consts_defs]: "MTU = 1500"
definition QUEUE :: nat where [consts_defs]: "QUEUE = 16"
definition CHUNK :: nat where [consts_defs]: "CHUNK = 16 * 1024"
definition SOCKET_BUFFER :: nat where [consts_defs]: "SOCKET_BUFFER = 32 * 1024"
definition TICK :: nat where [consts_defs]: "TICK = 2"

text \<open>A \<open>tokio::sync::mpsc\<close> channel of capacity \<open>QUEUE\<close>, with whether each end is still held.\<close>

record chan =
  ch_queue :: "bytes list"
  ch_sender :: bool
  ch_receiver :: bool

definition chan_new :: chan where
  "chan_new = \<lparr>ch_queue = [], ch_sender = True, ch_receiver = True\<rparr>"

definition capacity :: "chan \<Rightarrow> nat" where
  "capacity ch = QUEUE - length (ch_queue ch)"

datatype send_result = Accepted | Full | Closed

definition try_send :: "bytes \<Rightarrow> chan \<Rightarrow> send_result \<times> chan" where
  "try_send chunk ch =
     (if \<not> ch_receiver ch then (Closed, ch)
      else if capacity ch = 0 then (Full, ch)
      else (Accepted, ch\<lparr>ch_queue := ch_queue ch @ [chunk]\<rparr>))"

definition poll_recv :: "chan \<Rightarrow> bytes option progress \<times> chan" where
  "poll_recv ch =
     (case ch_queue ch of
        chunk # rest \<Rightarrow> (Now (Some chunk), ch\<lparr>ch_queue := rest\<rparr>)
      | [] \<Rightarrow> (if ch_sender ch then Wait else Now None, ch))"

definition drop_sender :: "chan \<Rightarrow> chan" where
  "drop_sender ch = ch\<lparr>ch_sender := False\<rparr>"

text \<open>Dropping the receiver also drops what is still queued.\<close>

definition drop_receiver :: "chan \<Rightarrow> chan" where
  "drop_receiver ch = ch\<lparr>ch_receiver := False, ch_queue := []\<rparr>"

section \<open>The client's stream\<close>

type_synonym chans = "nat \<Rightarrow> chan"

record stream =
  st_read :: nat
  st_write :: nat
  st_pending :: bytes
  st_offset :: nat

definition stream_new :: "nat \<Rightarrow> nat \<Rightarrow> stream" where
  "stream_new read write = \<lparr>st_read = read, st_write = write, st_pending = [], st_offset = 0\<rparr>"

definition stream_read :: "nat \<Rightarrow> stream \<times> chans \<Rightarrow> bytes progress \<times> stream \<times> chans" where
  "stream_read room = (\<lambda>(st, chs).
     if st_offset st < length (st_pending st) then
       let n = min (length (st_pending st) - st_offset st) room;
           out = take n (drop (st_offset st) (st_pending st));
           st = st\<lparr>st_offset := st_offset st + n\<rparr> in
       (Now out, if st_offset st = length (st_pending st) then st\<lparr>st_pending := [], st_offset := 0\<rparr> else st, chs)
     else
       let (got, ch) = poll_recv (chs (st_read st)); chs = chs(st_read st := ch) in
       case got of
         Now (Some chunk) \<Rightarrow>
           let n = min (length chunk) room in
           (Now (take n chunk), if n < length chunk then st\<lparr>st_pending := chunk, st_offset := n\<rparr> else st, chs)
       | Now None \<Rightarrow> (Now [], st, chs)
       | Wait \<Rightarrow> (Wait, st, chs))"

definition stream_write :: "bytes \<Rightarrow> stream \<times> chans \<Rightarrow> (string + nat) progress \<times> chans" where
  "stream_write buf = (\<lambda>(st, chs).
     let (r, ch) = try_send buf (chs (st_write st)); chs = chs(st_write st := ch) in
     (case r of
        Accepted \<Rightarrow> Now (Inr (length buf))
      | Full \<Rightarrow> Wait
      | Closed \<Rightarrow> Now (Inl ''tunnel closed''), chs))"

text \<open>\<open>poll_flush\<close> and \<open>poll_shutdown\<close> do nothing: shutting a stream down does not reach the connection.\<close>

definition stream_flush :: "stream \<times> chans \<Rightarrow> (string + unit) progress \<times> stream \<times> chans" where
  "stream_flush s = (Now (Inr ()), s)"

definition stream_shutdown :: "stream \<times> chans \<Rightarrow> (string + unit) progress \<times> stream \<times> chans" where
  "stream_shutdown s = (Now (Inr ()), s)"

definition stream_drop :: "stream \<Rightarrow> chans \<Rightarrow> chans" where
  "stream_drop st chs =
     (let chs = chs(st_read st := drop_receiver (chs (st_read st))) in
      chs(st_write st := drop_sender (chs (st_write st))))"

section \<open>The device\<close>

record device_state =
  dv_inbound :: "bytes list"
  dv_outbound :: "bytes list"

definition device_receive :: "device_state \<Rightarrow> bytes option \<times> device_state" where
  "device_receive d =
     (case dv_inbound d of [] \<Rightarrow> (None, d) | packet # rest \<Rightarrow> (Some packet, d\<lparr>dv_inbound := rest\<rparr>))"

definition device_transmit :: "bytes \<Rightarrow> device_state \<Rightarrow> device_state" where
  "device_transmit buffer d = d\<lparr>dv_outbound := dv_outbound d @ [buffer]\<rparr>"

text \<open>
  The interface reaches the device only through its receive and transmit tokens, so a call of
  \<open>iface.poll\<close> is a program of such calls, here run on the device.
\<close>

datatype 'r driver = Finished 'r | Receive "bytes option \<Rightarrow> 'r driver" | Transmit bytes "'r driver"

primrec drive :: "'r driver \<Rightarrow> device_state \<Rightarrow> 'r \<times> device_state" where
  "drive (Finished r) d = (r, d)"
| "drive (Receive k) d = (let (packet, d) = device_receive d in drive (k packet) d)"
| "drive (Transmit buffer p) d = drive p (device_transmit buffer d)"

section \<open>The stack's task\<close>

type_synonym endpoint = "ip_addr \<times> u16"
type_synonym 'k socket_set = "nat \<Rightarrow> 'k option"

text \<open>
  What the stack uses of smoltcp: a new socket with its buffer sizes, the handle the set gives it,
  \<open>connect\<close>, the tests and the buffers of a socket, the interface's construction and its \<open>poll\<close>.
\<close>

record ('i, 'k) smol =
  sm_socket :: "nat \<Rightarrow> nat \<Rightarrow> 'k"
  sm_handle :: "'k socket_set \<Rightarrow> nat"
  sm_connect :: "'i \<Rightarrow> endpoint \<Rightarrow> u16 \<Rightarrow> 'k \<Rightarrow> string option \<times> 'i \<times> 'k"
  sm_can_recv :: "'k \<Rightarrow> bool"
  sm_can_send :: "'k \<Rightarrow> bool"
  sm_is_open :: "'k \<Rightarrow> bool"
  sm_recv_slice :: "nat \<Rightarrow> 'k \<Rightarrow> (string + bytes) \<times> 'k"
  sm_send_slice :: "bytes \<Rightarrow> 'k \<Rightarrow> (string + nat) \<times> 'k"
  sm_interface :: "u64 \<Rightarrow> nat \<Rightarrow> nat \<Rightarrow> 'i"
  sm_push_addr :: "ipv4 \<Rightarrow> nat \<Rightarrow> 'i \<Rightarrow> 'i"
  sm_default_route :: "ipv4 \<Rightarrow> 'i \<Rightarrow> 'i"
  sm_poll :: "nat \<Rightarrow> 'i \<Rightarrow> 'k socket_set \<Rightarrow> ('i \<times> 'k socket_set) driver"

record conn =
  cn_handle :: nat
  cn_to_client :: nat
  cn_from_client :: nat
  cn_closed :: bool

record ('i, 'k, 's) stack =
  sk_control :: "'s control"
  sk_device :: device_state
  sk_iface :: 'i
  sk_sockets :: "'k socket_set"
  sk_conns :: "conn list"
  sk_chans :: chans
  sk_next :: nat

definition stack_start :: "('i, 'k) smol \<Rightarrow> u64 \<Rightarrow> nat \<Rightarrow> ipv4 \<Rightarrow> ipv4 option \<Rightarrow> 's control \<Rightarrow> ('i, 'k, 's) stack" where
  "stack_start M seed t local remote c =
     (let iface = sm_push_addr M local 32 (sm_interface M seed MTU t);
          gateway = (case remote of Some a \<Rightarrow> a | None \<Rightarrow> Ipv4 10 8 0 1) in
      \<lparr>sk_control = c, sk_device = \<lparr>dv_inbound = [], dv_outbound = []\<rparr>,
       sk_iface = sm_default_route M gateway iface, sk_sockets = Map.empty, sk_conns = [],
       sk_chans = (\<lambda>_. chan_new), sk_next = 0\<rparr>)"

text \<open>A command to open a connection: the reply is the client's stream or the socket's error.\<close>

definition open_conn ::
  "('i, 'k) smol \<Rightarrow> endpoint \<Rightarrow> u16 \<Rightarrow> ('i, 'k, 's) stack \<Rightarrow> (ovpn_error + stream) \<times> ('i, 'k, 's) stack" where
  "open_conn M target local_port s =
     (let handle = sm_handle M (sk_sockets s);
          (failure, iface, socket) =
            sm_connect M (sk_iface s) target local_port (sm_socket M SOCKET_BUFFER SOCKET_BUFFER);
          s = s\<lparr>sk_iface := iface, sk_sockets := (sk_sockets s)(handle \<mapsto> socket)\<rparr> in
      case failure of
        Some err \<Rightarrow> (Inl (ETransport err), s)
      | None \<Rightarrow>
          let a = sk_next s; b = Suc (sk_next s) in
          (Inr (stream_new a b),
           s\<lparr>sk_conns := sk_conns s @ [\<lparr>cn_handle = handle, cn_to_client = a, cn_from_client = b, cn_closed = False\<rparr>],
             sk_chans := (sk_chans s)(a := chan_new, b := chan_new), sk_next := Suc b\<rparr>))"

text \<open>One turn of a connection: at most one chunk down, then chunks up while the socket takes them.\<close>

definition download :: "('i, 'k) smol \<Rightarrow> 'k \<Rightarrow> chan \<Rightarrow> 'k \<times> chan" where
  "download M socket to_client =
     (if sm_can_recv M socket \<and> 0 < capacity to_client then
        (case sm_recv_slice M CHUNK socket of
           (Inr data, socket) \<Rightarrow> (socket, if data \<noteq> [] then snd (try_send data to_client) else to_client)
         | (Inl _, socket) \<Rightarrow> (socket, to_client))
      else (socket, to_client))"

fun upload :: "('i, 'k) smol \<Rightarrow> bytes list \<Rightarrow> 'k \<Rightarrow> chan \<Rightarrow> (bytes list \<times> 'k \<times> chan) exec" where
  "upload M [] socket to_client = Done ([], socket, to_client)"
| "upload M (chunk # rest) socket to_client =
     (case sm_send_slice M chunk socket of
        (Inr written, socket) \<Rightarrow>
          if written = length chunk then upload M rest socket to_client
          else exec_bind (slice_from chunk written) (\<lambda>unsent. Done (rest, socket, snd (try_send unsent to_client)))
      | (Inl _, socket) \<Rightarrow> Done (rest, socket, to_client))"

definition pump_conn ::
  "('i, 'k) smol \<Rightarrow> conn \<Rightarrow> 'k socket_set \<times> chans \<Rightarrow> (conn \<times> 'k socket_set \<times> chans) exec" where
  "pump_conn M conn = (\<lambda>(sockets, chs).
     case sockets (cn_handle conn) of
       None \<Rightarrow> Panicked
     | Some socket \<Rightarrow>
         let (socket, to_client) = download M socket (chs (cn_to_client conn));
             from_client = chs (cn_from_client conn) in
         exec_bind
           (if sm_can_send M socket then upload M (ch_queue from_client) socket to_client
            else Done (ch_queue from_client, socket, to_client))
           (\<lambda>(queue, socket, to_client).
              Done (conn\<lparr>cn_closed := cn_closed conn \<or> \<not> sm_is_open M socket\<rparr>, sockets(cn_handle conn \<mapsto> socket),
                    chs(cn_to_client conn := to_client, cn_from_client conn := from_client\<lparr>ch_queue := queue\<rparr>))))"

fun pump_conns ::
  "('i, 'k) smol \<Rightarrow> conn list \<Rightarrow> 'k socket_set \<times> chans \<Rightarrow> (conn list \<times> 'k socket_set \<times> chans) exec" where
  "pump_conns M [] (sockets, chs) = Done ([], sockets, chs)"
| "pump_conns M (conn # conns) s =
     exec_bind (pump_conn M conn s) (\<lambda>(conn, s).
     exec_bind (pump_conns M conns s) (\<lambda>(conns, s). Done (conn # conns, s)))"

text \<open>\<open>retain\<close>: closed connections leave with their sockets and their ends of the queues.\<close>

fun retain_conns :: "conn list \<Rightarrow> 'k socket_set \<times> chans \<Rightarrow> (conn list \<times> 'k socket_set \<times> chans) exec" where
  "retain_conns [] (sockets, chs) = Done ([], sockets, chs)"
| "retain_conns (conn # conns) (sockets, chs) =
     (if cn_closed conn then
        (case sockets (cn_handle conn) of
           None \<Rightarrow> Panicked
         | Some _ \<Rightarrow>
             let chs = chs(cn_to_client conn := drop_sender (chs (cn_to_client conn))) in
             retain_conns conns
               (sockets(cn_handle conn := None),
                chs(cn_from_client conn := drop_receiver (chs (cn_from_client conn)))))
      else exec_bind (retain_conns conns (sockets, chs)) (\<lambda>(conns, s). Done (conn # conns, s)))"

text \<open>Sending what the interface has transmitted; a failed packet is gone, the others stay for the next round.\<close>

fun send_outbound ::
  "crypto \<Rightarrow> (nat \<Rightarrow> bytes) \<Rightarrow> nat \<Rightarrow> bytes list \<Rightarrow> 's control \<Rightarrow> bytes list outcome \<times> 's control" where
  "send_outbound C iv i [] c = (Returns [], c)"
| "send_outbound C iv i (packet # rest) c =
     (case send_data C (iv i) packet c of
        (Returns _, c) \<Rightarrow> send_outbound C iv (Suc i) rest c
      | (Fails _, c) \<Rightarrow> (Returns rest, c)
      | (Panics, c) \<Rightarrow> (Panics, c)
      | (Hangs, c) \<Rightarrow> (Hangs, c))"

text \<open>
  What one round of the loop waits for: a command (none is left when every handle of the stack is
  gone), the data channel, or the ticker. When a command or the tick comes first the call of
  \<open>recv_data\<close> is dropped where it waits; the control state it leaves is part of the event.
\<close>

datatype 's event = Open endpoint u16 "'s control" | NoCommands | Data | Tick "'s control"

definition take_data :: "'s ssl \<Rightarrow> crypto \<Rightarrow> ('i, 'k, 's) stack \<Rightarrow> unit outcome \<times> ('i, 'k, 's) stack" where
  "take_data S C s =
     (let (r, c) = recv_data S C TICK (sk_control s); s = s\<lparr>sk_control := c\<rparr>; d = sk_device s in
      case r of
        Returns (Some packet) \<Rightarrow>
          (Returns (), if length (dv_inbound d) < QUEUE
                       then s\<lparr>sk_device := d\<lparr>dv_inbound := dv_inbound d @ [packet]\<rparr>\<rparr> else s)
      | Returns None \<Rightarrow> (Returns (), s)
      | Fails _ \<Rightarrow> (Returns (), s)
      | Panics \<Rightarrow> (Panics, s)
      | Hangs \<Rightarrow> (Hangs, s))"

definition poll_iface :: "('i, 'k) smol \<Rightarrow> nat \<Rightarrow> ('i, 'k, 's) stack \<Rightarrow> ('i, 'k, 's) stack" where
  "poll_iface M t s =
     (let ((iface, sockets), d) = drive (sm_poll M t (sk_iface s) (sk_sockets s)) (sk_device s) in
      s\<lparr>sk_iface := iface, sk_sockets := sockets, sk_device := d\<rparr>)"

definition flush_device :: "crypto \<Rightarrow> (nat \<Rightarrow> bytes) \<Rightarrow> ('i, 'k, 's) stack \<Rightarrow> unit outcome \<times> ('i, 'k, 's) stack" where
  "flush_device C iv s =
     (case send_outbound C iv 0 (dv_outbound (sk_device s)) (sk_control s) of
        (Returns rest, c) \<Rightarrow> (Returns (), s\<lparr>sk_control := c, sk_device := (sk_device s)\<lparr>dv_outbound := rest\<rparr>\<rparr>)
      | (Fails e, c) \<Rightarrow> (Fails e, s\<lparr>sk_control := c\<rparr>)
      | (Panics, c) \<Rightarrow> (Panics, s\<lparr>sk_control := c\<rparr>)
      | (Hangs, c) \<Rightarrow> (Hangs, s\<lparr>sk_control := c\<rparr>))"

definition turn_conns :: "('i, 'k) smol \<Rightarrow> ('i, 'k, 's) stack \<Rightarrow> unit outcome \<times> ('i, 'k, 's) stack" where
  "turn_conns M s =
     (case exec_bind (pump_conns M (sk_conns s) (sk_sockets s, sk_chans s)) (\<lambda>(conns, w).
             if list_ex cn_closed conns then retain_conns conns w else Done (conns, w)) of
        Panicked \<Rightarrow> (Panics, s)
      | Done (conns, sockets, chs) \<Rightarrow>
          (Returns (), s\<lparr>sk_conns := conns, sk_sockets := sockets, sk_chans := chs\<rparr>))"

datatype round_end = Stopped | Served "(ovpn_error + stream) option"

definition handle_event ::
  "'s ssl \<Rightarrow> crypto \<Rightarrow> ('i, 'k) smol \<Rightarrow> 's event \<Rightarrow> ('i, 'k, 's) stack \<Rightarrow> round_end outcome \<times> ('i, 'k, 's) stack" where
  "handle_event S C M event s =
     (case event of
        NoCommands \<Rightarrow> (Returns Stopped, s)
      | Open target local_port c \<Rightarrow>
          let (reply, s) = open_conn M target local_port (s\<lparr>sk_control := c\<rparr>) in (Returns (Served (Some reply)), s)
      | Data \<Rightarrow> and_then (take_data S C s) (\<lambda>_ s. (Returns (Served None), s))
      | Tick c \<Rightarrow> (Returns (Served None), s\<lparr>sk_control := c\<rparr>))"

definition stack_round ::
  "'s ssl \<Rightarrow> crypto \<Rightarrow> ('i, 'k) smol \<Rightarrow> nat \<Rightarrow> (nat \<Rightarrow> bytes) \<Rightarrow> 's event \<Rightarrow> ('i, 'k, 's) stack \<Rightarrow>
   round_end outcome \<times> ('i, 'k, 's) stack" where
  "stack_round S C M t iv event s =
     and_then (handle_event S C M event s) (\<lambda>r s.
       if r = Stopped then (Returns Stopped, s)
       else
         and_then (flush_device C iv (poll_iface M t s)) (\<lambda>_ s.
         and_then (turn_conns M s) (\<lambda>_ s. (Returns r, s))))"

section \<open>Opening a stream\<close>

text \<open>\<open>dns\<close> is the resolver's answer: the join error of its task, or the addresses if it has any.\<close>

definition resolve :: "(string \<Rightarrow> string + ip_addr list option) \<Rightarrow> string \<Rightarrow> ovpn_error + ip_addr" where
  "resolve dns host =
     (case parse_ip_addr host of
        Some address \<Rightarrow> Inr address
      | None \<Rightarrow>
          (case dns host of
             Inl err \<Rightarrow> Inl (ETransport err)
           | Inr (Some (address # _)) \<Rightarrow> Inr address
           | Inr _ \<Rightarrow> Inl (ETransport ''dns resolution failed'')))"

text \<open>\<open>serve\<close> is the answer of the stack's task to the command, nothing when the task is gone.\<close>

definition stack_open ::
  "(string \<Rightarrow> string + ip_addr list option) \<Rightarrow> (endpoint \<Rightarrow> (ovpn_error + stream) option) \<Rightarrow>
   string \<Rightarrow> u16 \<Rightarrow> ovpn_error + stream" where
  "stack_open dns serve host port =
     (case resolve dns host of
        Inl e \<Rightarrow> Inl e
      | Inr address \<Rightarrow>
          (case serve (address, port) of
             None \<Rightarrow> Inl (ETransport ''tunnel closed'')
           | Some reply \<Rightarrow> reply))"

section \<open>A stream delivers what its queue accepted\<close>

definition stream_left :: "stream \<times> chans \<Rightarrow> bytes" where
  "stream_left = (\<lambda>(st, chs). drop (st_offset st) (st_pending st) @ concat (ch_queue (chs (st_read st))))"

definition stream_ended :: "stream \<times> chans \<Rightarrow> bool" where
  "stream_ended = (\<lambda>(st, chs). \<not> ch_sender (chs (st_read st)))"

definition stream_good :: "stream \<times> chans \<Rightarrow> bool" where
  "stream_good = (\<lambda>(st, chs). [] \<notin> set (ch_queue (chs (st_read st))))"

lemma stream_read_pending:
  assumes "st_offset st < length (st_pending st)" "stream_good (st, chs)"
  shows "\<exists>b st'. stream_read n (st, chs) = (Now b, st', chs) \<and> (0 < n \<longrightarrow> b \<noteq> []) \<and> length b \<le> n \<and>
           stream_left (st, chs) = b @ stream_left (st', chs) \<and> st_read st' = st_read st"
proof -
  let ?rest = "drop (st_offset st) (st_pending st)"
  let ?k = "min (length (st_pending st) - st_offset st) n"
  obtain st' where r: "stream_read n (st, chs) = (Now (take ?k ?rest), st', chs)" "st_read st' = st_read st"
    "drop (st_offset st') (st_pending st') = drop ?k ?rest"
    using assms(1) by (auto simp: stream_read_def Let_def add.commute)
  have "?rest \<noteq> []" using assms(1) by simp
  moreover have "take ?k ?rest @ drop ?k ?rest = ?rest" by (rule append_take_drop_id)
  ultimately have "(0 < n \<longrightarrow> take ?k ?rest \<noteq> []) \<and> take ?k ?rest @ drop (st_offset st') (st_pending st') = ?rest"
    using r(3) by simp
  then show ?thesis
    using r by (intro exI [of _ "take ?k ?rest"] exI [of _ st']) (auto simp: stream_left_def simp flip: append_assoc)
qed

lemma stream_read_queue:
  assumes "length (st_pending st) \<le> st_offset st" "ch_queue (chs (st_read st)) = chunk # rest" "stream_good (st, chs)"
  shows "\<exists>b st' chs'. stream_read n (st, chs) = (Now b, st', chs') \<and> (0 < n \<longrightarrow> b \<noteq> []) \<and> length b \<le> n \<and>
           stream_left (st, chs) = b @ stream_left (st', chs') \<and> st_read st' = st_read st \<and>
           chs' = chs(st_read st := (chs (st_read st))\<lparr>ch_queue := rest\<rparr>)"
  using assms
  by (auto simp: stream_read_def stream_left_def stream_good_def poll_recv_def Let_def not_less min_def)

lemma stream_read_empty:
  assumes "length (st_pending st) \<le> st_offset st" "ch_queue (chs (st_read st)) = []"
  shows "stream_read n (st, chs) = (if stream_ended (st, chs) then Now [] else Wait, (st, chs))"
  using assms by (auto simp: stream_read_def poll_recv_def stream_ended_def Let_def not_less)

lemma stream_left_empty:
  "stream_good (st, chs) \<Longrightarrow>
   stream_left (st, chs) = [] \<longleftrightarrow> length (st_pending st) \<le> st_offset st \<and> ch_queue (chs (st_read st)) = []"
  by (cases "ch_queue (chs (st_read st))") (auto simp: stream_left_def stream_good_def)

lemma stream_read_left:
  assumes "stream_good s" "stream_left s \<noteq> []"
  shows "\<exists>b s'. stream_read n s = (Now b, s') \<and> (0 < n \<longrightarrow> b \<noteq> []) \<and> length b \<le> n \<and> stream_left s = b @ stream_left s' \<and>
           stream_good s' \<and> stream_ended s' = stream_ended s"
proof -
  obtain st chs where s: "s = (st, chs)" by fastforce
  show ?thesis
  proof (cases "st_offset st < length (st_pending st)")
    case True
    then obtain b st' where "stream_read n (st, chs) = (Now b, st', chs)" "0 < n \<longrightarrow> b \<noteq> []" "length b \<le> n"
      "stream_left (st, chs) = b @ stream_left (st', chs)" "st_read st' = st_read st"
      using stream_read_pending [of st chs n] assms s by blast
    then show ?thesis
      using assms unfolding s by (intro exI [of _ b] exI [of _ "(st', chs)"]) (auto simp: stream_good_def stream_ended_def)
  next
    case False
    then obtain chunk rest where q: "ch_queue (chs (st_read st)) = chunk # rest"
      using assms stream_left_empty [of st chs] unfolding s by (cases "ch_queue (chs (st_read st))") auto
    obtain b st' chs' where "stream_read n (st, chs) = (Now b, st', chs')" "0 < n \<longrightarrow> b \<noteq> []" "length b \<le> n"
      "stream_left (st, chs) = b @ stream_left (st', chs')" "st_read st' = st_read st"
      "chs' = chs(st_read st := (chs (st_read st))\<lparr>ch_queue := rest\<rparr>)"
      using stream_read_queue [where st = st and chs = chs and chunk = chunk and rest = rest and n = n] q False assms(1) unfolding s by auto
    then show ?thesis
      using assms q unfolding s
      by (intro exI [of _ b] exI [of _ "(st', chs')"]) (auto simp: stream_good_def stream_ended_def)
  qed
qed

definition stream_holds :: "stream \<times> chans \<Rightarrow> bytes \<Rightarrow> bool" where
  "stream_holds s out \<longleftrightarrow> stream_good s \<and> stream_left s = out"

interpretation rx: byte_source stream_read stream_holds stream_ended "\<lambda>s. 0"
proof (unfold_locales, goal_cases)
  case (1 s out n)
  then show ?case using stream_read_left [of s n] by (auto simp: stream_holds_def)
next
  case (2 s n)
  then show ?case by (cases s) (auto simp: stream_holds_def stream_left_empty stream_read_empty)
next
  case (3 s out)
  then show ?case using stream_read_left [of s 0] by (fastforce simp: stream_holds_def)
qed

text \<open>A stream and its connection taking turns on the queue towards the client, in any order.\<close>

datatype turn = Feed bytes | Hangup | Take nat

definition on_chan :: "nat \<Rightarrow> (chan \<Rightarrow> 'r \<times> chan) \<Rightarrow> chans \<Rightarrow> 'r \<times> chans" where
  "on_chan a f chs = (let (r, ch) = f (chs a) in (r, chs(a := ch)))"

fun turns :: "turn list \<Rightarrow> stream \<times> chans \<Rightarrow> bytes \<times> bytes \<times> stream \<times> chans" where
  "turns [] s = ([], [], s)"
| "turns (Feed chunk # acts) (st, chs) =
     (let (r, chs) = on_chan (st_read st) (try_send chunk) chs;
          (fed, got, s) = turns acts (st, chs) in
      (if r = Accepted then chunk @ fed else fed, got, s))"
| "turns (Hangup # acts) (st, chs) =
     turns acts (st, chs(st_read st := drop_sender (chs (st_read st))))"
| "turns (Take n # acts) s =
     (let (r, s) = stream_read n s; (fed, got, s) = turns acts s in
      (fed, taken r @ got, s))"

lemma feed_left:
  assumes "on_chan (st_read st) (try_send chunk) chs = (r, chs')" "stream_good (st, chs)" "chunk \<noteq> []"
  shows "stream_good (st, chs') \<and>
         stream_left (st, chs') = stream_left (st, chs) @ (if r = Accepted then chunk else [])"
  using assms by (auto simp: on_chan_def try_send_def stream_good_def stream_left_def Let_def split: if_splits)

lemma turns_in_order:
  "\<lbrakk>turns acts s = (fed, got, s'); stream_good s; Feed [] \<notin> set acts\<rbrakk> \<Longrightarrow>
   stream_left s @ fed = got @ stream_left s' \<and> stream_good s'"
proof (induction acts s arbitrary: fed got s' rule: turns.induct)
  case (2 chunk acts st chs)
  obtain r chs1 fed1 where r: "on_chan (st_read st) (try_send chunk) chs = (r, chs1)"
    "turns acts (st, chs1) = (fed1, got, s')" "fed = (if r = Accepted then chunk @ fed1 else fed1)"
    using 2(2) by (auto split: prod.splits)
  with 2(3,4) feed_left [OF r(1)] 2(1) [OF r(1) [symmetric] refl] show ?case by (auto split: if_splits)
next
  case (3 acts st chs)
  then show ?case by (auto simp: stream_left_def stream_good_def drop_sender_def)
next
  case (4 n acts s)
  obtain r s1 got1 where r: "stream_read n s = (r, s1)" "turns acts s1 = (fed, got1, s')"
    "got = taken r @ got1"
    using 4(2) by (auto split: prod.splits)
  with 4(3,4) rx.read_any [of s "stream_left s" n] 4(1) [OF r(1) [symmetric] refl] show ?case by (auto simp: stream_holds_def)
qed auto

text \<open>
  C12: however the stack's sends, the hang-up of the connection and the client's reads (with buffers of
  any size) are interleaved, the client reads the accepted chunks byte by byte in order: what it has
  read and what a run of further reads still gives is exactly what the queue accepted.
\<close>
theorem stream_delivers:
  assumes "chs a = chan_new" "Feed [] \<notin> set acts" "0 < n"
    and "turns acts (stream_new a b, chs) = (fed, got, s)" "length fed \<le> k"
  shows "got @ fst (drain stream_read n k s) = fed"
proof -
  have good: "stream_good (stream_new a b, chs)" and empty: "stream_left (stream_new a b, chs) = []"
    using assms(1) by (simp_all add: stream_good_def stream_left_def stream_new_def chan_new_def)
  then have eq: "fed = got @ stream_left s" "stream_good s"
    using turns_in_order [OF assms(4) _ assms(2)] by simp_all
  then have "length (stream_left s) \<le> k" using assms(5) by simp
  then show ?thesis using rx.drain_all [of s "stream_left s" n k] assms(3) eq by (force simp: stream_holds_def)
qed

theorem stream_delivers_witness:
  "let (fed, got, s) = turns [Feed [1, 2, 3], Take 2, Feed [4], Hangup] (stream_new 0 1, \<lambda>_. chan_new) in
   fed = [1, 2, 3, 4] \<and> got @ fst (drain stream_read 1 4 s) = fed"
proof -
  let ?acts = "[Feed [1, 2, 3], Take 2, Feed [4], Hangup]"
  obtain fed got s where t: "turns ?acts (stream_new 0 1, \<lambda>_. chan_new) = (fed, got, s)" by (metis prod_cases3)
  have "fst (turns ?acts (stream_new 0 1, \<lambda>_. chan_new)) = [1, 2, 3, 4]" by code_simp
  then have fed: "fed = [1, 2, 3, 4]" using t by simp
  have "got @ fst (drain stream_read 1 4 s) = fed"
    by (rule stream_delivers [OF _ _ _ t]) (simp_all add: fed)
  then show ?thesis using t fed by simp
qed

section \<open>What a turn of a connection moves\<close>

text \<open>
  The sockets' contract: \<open>rx\<close> is what a socket has received and not yet handed out, \<open>tx\<close> everything it
  has taken for sending. A read takes a prefix of the one, a write adds a prefix of its bytes to the
  other, and a failed call changes neither.
\<close>

definition socket_laws :: "('i, 'k) smol \<Rightarrow> ('k \<Rightarrow> bytes) \<Rightarrow> ('k \<Rightarrow> bytes) \<Rightarrow> bool" where
  "socket_laws M rx tx \<longleftrightarrow>
     (\<forall>n k r k'. sm_recv_slice M n k = (r, k') \<longrightarrow> tx k' = tx k \<and>
        (case r of Inr d \<Rightarrow> length d \<le> n \<and> rx k = d @ rx k' | Inl _ \<Rightarrow> rx k' = rx k)) \<and>
     (\<forall>b k r k'. sm_send_slice M b k = (r, k') \<longrightarrow> rx k' = rx k \<and>
        (case r of Inr w \<Rightarrow> w \<le> length b \<and> tx k' = tx k @ take w b | Inl _ \<Rightarrow> tx k' = tx k))"

lemma recv_slice_law:
  assumes "socket_laws M rx tx" "sm_recv_slice M n k = (r, k')"
  shows "tx k' = tx k" "r = Inr d \<Longrightarrow> rx k = d @ rx k'" "r = Inl e \<Longrightarrow> rx k' = rx k"
  using assms unfolding socket_laws_def by fastforce+

lemma send_slice_law:
  assumes "socket_laws M rx tx" "sm_send_slice M b k = (r, k')"
  shows "rx k' = rx k" "r = Inr w \<Longrightarrow> w \<le> length b" "r = Inr w \<Longrightarrow> tx k' = tx k @ take w b" "r = Inl e \<Longrightarrow> tx k' = tx k"
  using assms unfolding socket_laws_def by fastforce+

lemma try_send_accepts:
  "ch_receiver ch \<Longrightarrow> 0 < capacity ch \<Longrightarrow> snd (try_send chunk ch) = ch\<lparr>ch_queue := ch_queue ch @ [chunk]\<rparr>"
  by (simp add: try_send_def)

lemma try_send_keeps:
  "ch_receiver (snd (try_send chunk ch)) = ch_receiver ch"
  "ch_sender (snd (try_send chunk ch)) = ch_sender ch"
  "length (ch_queue ch) \<le> QUEUE \<Longrightarrow> length (ch_queue (snd (try_send chunk ch))) \<le> QUEUE"
  by (auto simp: try_send_def capacity_def)

lemma try_send_concat:
  "concat (ch_queue (snd (try_send chunk ch))) \<in> {concat (ch_queue ch), concat (ch_queue ch) @ chunk}"
  by (auto simp: try_send_def)

lemma download_moves:
  assumes "socket_laws M rx tx" "download M k to = (k', to')"
  shows "\<exists>down. rx k = down @ rx k' \<and> tx k' = tx k \<and> ch_receiver to' = ch_receiver to \<and>
           (ch_receiver to \<longrightarrow> concat (ch_queue to') = concat (ch_queue to) @ down)"
proof (cases "sm_can_recv M k \<and> 0 < capacity to")
  case False
  with assms(2) show ?thesis by (auto simp: download_def)
next
  case True
  obtain r k1 where rs: "sm_recv_slice M CHUNK k = (r, k1)" by fastforce
  note law = recv_slice_law [OF assms(1) rs]
  show ?thesis
  proof (cases r)
    case (Inl e)
    with assms(2) True rs law(1,3) show ?thesis by (auto simp: download_def)
  next
    case (Inr d)
    with assms(2) True rs law(1) law(2) [OF Inr] show ?thesis
      by (auto simp: download_def try_send_keeps try_send_accepts split: if_splits intro!: exI [of _ d])
  qed
qed

lemma upload_moves:
  assumes "socket_laws M rx tx"
  shows "\<exists>queue' k' to' sent unsent. upload M queue k to = Done (queue', k', to') \<and>
           concat queue = sent @ unsent @ concat queue' \<and> tx k' = tx k @ sent \<and> rx k' = rx k \<and>
           (to' = to \<or> to' = snd (try_send unsent to))"
proof (induction queue arbitrary: k)
  case Nil
  then show ?case by simp
next
  case (Cons chunk queue)
  obtain r k1 where ss: "sm_send_slice M chunk k = (r, k1)" by fastforce
  note law = send_slice_law [OF assms ss]
  show ?case
  proof (cases r)
    case (Inl e)
    then show ?thesis using ss law by fastforce
  next
    case (Inr w)
    show ?thesis
    proof (cases "w = length chunk")
      case True
      obtain queue' k' to' sent unsent where "upload M queue k1 to = Done (queue', k', to')"
        "concat queue = sent @ unsent @ concat queue'" "tx k' = tx k1 @ sent" "rx k' = rx k1"
        "to' = to \<or> to' = snd (try_send unsent to)"
        using Cons.IH [of k1] by blast
      then show ?thesis
        using ss Inr True law(1) law(3) [OF Inr]
        by (intro exI [of _ queue'] exI [of _ k'] exI [of _ to'] exI [of _ "chunk @ sent"] exI [of _ unsent]) auto
    next
      case False
      then show ?thesis
        using ss Inr law(1) law(2,3) [OF Inr]
        by (intro exI [of _ queue] exI [of _ k1] exI [of _ "snd (try_send (drop w chunk) to)"]
              exI [of _ "take w chunk"] exI [of _ "drop w chunk"]) auto
    qed
  qed
qed

lemma upload_or_not:
  assumes "socket_laws M rx tx"
  shows "\<exists>queue' k' to' sent unsent.
           (if sm_can_send M k then upload M queue k to else Done (queue, k, to)) = Done (queue', k', to') \<and>
           concat queue = sent @ unsent @ concat queue' \<and> tx k' = tx k @ sent \<and> rx k' = rx k \<and>
           (to' = to \<or> to' = snd (try_send unsent to))"
proof (cases "sm_can_send M k")
  case True
  then show ?thesis using upload_moves [OF assms, of queue k to] by simp
next
  case False
  then show ?thesis by (intro exI [of _ queue] exI [of _ k] exI [of _ to] exI [of _ "[]"]) simp
qed


text \<open>
  When the socket takes only a part of a client's chunk, the rest of the chunk is not sent later:
  it is the next thing the client reads from its own stream.
\<close>
theorem upload_rest_echoed:
  assumes "sockets (cn_handle conn) = Some k" "\<not> sm_can_recv M k" "sm_can_send M k"
    and "cn_to_client conn \<noteq> cn_from_client conn" "chs (cn_to_client conn) = chan_new"
    and "ch_queue (chs (cn_from_client conn)) = [chunk]"
    and "sm_send_slice M chunk k = (Inr w, k')" "w < length chunk" "length chunk \<le> room"
  shows "\<exists>conn' sockets' chs'. pump_conn M conn (sockets, chs) = Done (conn', sockets', chs') \<and>
     ch_queue (chs' (cn_from_client conn)) = [] \<and>
     fst (stream_read room (stream_new (cn_to_client conn) (cn_from_client conn), chs')) = Now (drop w chunk)"
proof -
  have "snd (try_send (drop w chunk) chan_new) = chan_new\<lparr>ch_queue := [drop w chunk]\<rparr>"
    by (simp add: try_send_def chan_new_def capacity_def QUEUE_def)
  then show ?thesis
    using assms
    by (simp add: pump_conn_def download_def chan_new_def stream_read_def stream_new_def poll_recv_def)
qed

text \<open>A socket for the examples: received bytes, bytes taken, and how many more it takes.\<close>

definition demo_smol :: "(unit, bytes \<times> bytes \<times> nat) smol" where
  "demo_smol =
     \<lparr>sm_socket = (\<lambda>_ _. ([], [], 2)), sm_handle = (\<lambda>S. LEAST h. S h = None),
      sm_connect = (\<lambda>i _ port k. (if port = 0 then Some ''Unaddressable'' else None, i, k)),
      sm_can_recv = (\<lambda>(rx, _). rx \<noteq> []), sm_can_send = (\<lambda>(_, _, room). 0 < room), sm_is_open = (\<lambda>_. True),
      sm_recv_slice = (\<lambda>n (rx, tx, room). (Inr (take n rx), drop n rx, tx, room)),
      sm_send_slice = (\<lambda>b (rx, tx, room). (Inr (min room (length b)), rx, tx @ take room b, room - length b)),
      sm_interface = (\<lambda>_ _ _. ()), sm_push_addr = (\<lambda>_ _ i. i), sm_default_route = (\<lambda>_ i. i),
      sm_poll = (\<lambda>_ i S. Receive (\<lambda>_. Finished (i, S)))\<rparr>"

lemma demo_socket_laws: "socket_laws demo_smol fst (fst \<circ> snd)"
  by (auto simp: socket_laws_def demo_smol_def min_def)

definition demo_conn :: conn where
  "demo_conn = \<lparr>cn_handle = 0, cn_to_client = 0, cn_from_client = 1, cn_closed = False\<rparr>"

definition demo_chans :: chans where
  "demo_chans = (\<lambda>a. if a = 1 then chan_new\<lparr>ch_queue := [[1, 2, 3]]\<rparr> else chan_new)"


theorem upload_rest_echoed_witness:
  "\<exists>conn' sockets' chs'. pump_conn demo_smol demo_conn ([0 \<mapsto> ([], [], 2)], demo_chans) = Done (conn', sockets', chs') \<and>
     ch_queue (chs' 1) = [] \<and> fst (stream_read 8 (stream_new 0 1, chs')) = Now [3]"
  using upload_rest_echoed [of "[0 \<mapsto> ([], [], 2)]" demo_conn "([], [], 2)" demo_smol demo_chans "[1, 2, 3]" 2 "([], [1, 2], 0)" 8]
  by (simp add: demo_conn_def demo_chans_def chan_new_def demo_smol_def)

section \<open>The stack's invariant\<close>

text \<open>
  What smoltcp promises of the set: a new socket gets a free handle, and a poll neither adds nor
  removes sockets.
\<close>

definition set_laws :: "('i, 'k) smol \<Rightarrow> bool" where
  "set_laws M \<longleftrightarrow>
     (\<forall>S. finite (dom S) \<longrightarrow> S (sm_handle M S) = None) \<and>
     (\<forall>t i S d. dom (snd (fst (drive (sm_poll M t i S) d))) = dom S)"

definition chan_kept :: "chan \<Rightarrow> chan \<Rightarrow> bool" where
  "chan_kept ch ch' \<longleftrightarrow> ch_sender ch' = ch_sender ch \<and> ch_receiver ch' = ch_receiver ch \<and>
     (length (ch_queue ch) \<le> QUEUE \<longrightarrow> length (ch_queue ch') \<le> QUEUE)"

lemma chan_kept_refl [simp]: "chan_kept ch ch"
  by (simp add: chan_kept_def)

lemma chan_kept_trans: "chan_kept a b \<Longrightarrow> chan_kept b c \<Longrightarrow> chan_kept a c"
  by (simp add: chan_kept_def)

lemma try_send_kept [simp]: "chan_kept ch (snd (try_send chunk ch))"
  by (simp add: chan_kept_def try_send_keeps)

definition same_conn :: "conn \<Rightarrow> conn \<Rightarrow> bool" where
  "same_conn c c' \<longleftrightarrow> cn_handle c' = cn_handle c \<and> cn_to_client c' = cn_to_client c \<and> cn_from_client c' = cn_from_client c"

lemma download_kept: "download M k to = (k', to') \<Longrightarrow> chan_kept to to'"
  by (auto simp: download_def split: prod.splits sum.splits if_splits)

lemma upload_kept: "upload M queue k to = Done (queue', k', to') \<Longrightarrow> chan_kept to to' \<and> length queue' \<le> length queue"
proof (induction M queue k to arbitrary: queue' k' to' rule: upload.induct)
  case (2 M chunk rest socket to_client)
  then show ?case
    by (fastforce simp: slice_from_def split: prod.splits sum.splits if_splits)
qed auto

lemma upload_or_not_kept:
  "(if sm_can_send M k then upload M queue k to else Done (queue, k, to)) = Done (queue', k', to') \<Longrightarrow>
   chan_kept to to' \<and> length queue' \<le> length queue"
  by (auto split: if_splits dest: upload_kept)

lemma pump_conn_kept:
  assumes "socket_laws M rx tx" "sockets (cn_handle conn) = Some k"
  shows "\<exists>conn' k' chs'. pump_conn M conn (sockets, chs) = Done (conn', sockets(cn_handle conn \<mapsto> k'), chs') \<and>
     same_conn conn conn' \<and> cn_closed conn' = (cn_closed conn \<or> \<not> sm_is_open M k') \<and> (\<forall>a. chan_kept (chs a) (chs' a))"
proof -
  let ?to = "cn_to_client conn" and ?from = "cn_from_client conn"
  obtain k1 to1 where d: "download M k (chs ?to) = (k1, to1)" by fastforce
  obtain queue' k' to' where u:
    "(if sm_can_send M k1 then upload M (ch_queue (chs ?from)) k1 to1 else Done (ch_queue (chs ?from), k1, to1)) =
     Done (queue', k', to')"
    using upload_or_not [OF assms(1), of k1 "ch_queue (chs ?from)" to1] by blast
  have "chan_kept (chs ?to) to'" "length queue' \<le> length (ch_queue (chs ?from))"
    using download_kept [OF d] upload_or_not_kept [OF u] chan_kept_trans by blast+
  then have "\<forall>a. chan_kept (chs a) ((chs(?to := to', ?from := (chs ?from)\<lparr>ch_queue := queue'\<rparr>)) a)"
    by (auto simp: chan_kept_def)
  then show ?thesis
    using assms(2) d
    by (intro exI [of _ "conn\<lparr>cn_closed := cn_closed conn \<or> \<not> sm_is_open M k'\<rparr>"] exI [of _ k'] exI)
      (auto simp: pump_conn_def u same_conn_def)
qed

definition conn_open :: "('i, 'k) smol \<Rightarrow> 'k socket_set \<Rightarrow> conn \<Rightarrow> bool" where
  "conn_open M sockets conn \<longleftrightarrow> (\<exists>k. sockets (cn_handle conn) = Some k \<and> sm_is_open M k)"

lemma pump_conns_kept:
  assumes "socket_laws M rx tx"
  shows "\<lbrakk>\<forall>c\<in>set conns. cn_handle c \<in> dom sockets; distinct (map cn_handle conns)\<rbrakk> \<Longrightarrow>
    \<exists>conns' sockets' chs'. pump_conns M conns (sockets, chs) = Done (conns', sockets', chs') \<and>
      list_all2 same_conn conns conns' \<and> dom sockets' = dom sockets \<and>
      (\<forall>h. h \<notin> cn_handle ` set conns \<longrightarrow> sockets' h = sockets h) \<and>
      (\<forall>c\<in>set conns'. \<not> cn_closed c \<longrightarrow> conn_open M sockets' c) \<and> (\<forall>a. chan_kept (chs a) (chs' a))"
proof (induction conns arbitrary: sockets chs)
  case Nil
  then show ?case by simp
next
  case (Cons conn conns)
  then obtain k where "sockets (cn_handle conn) = Some k" by auto
  with pump_conn_kept [where M = M and conn = conn and sockets = sockets and k = k and chs = chs] assms obtain conn1 k1 chs1 where p:
    "pump_conn M conn (sockets, chs) = Done (conn1, sockets(cn_handle conn \<mapsto> k1), chs1)" "same_conn conn conn1"
    "cn_closed conn1 = (cn_closed conn \<or> \<not> sm_is_open M k1)" "\<forall>a. chan_kept (chs a) (chs1 a)" by blast
  have "\<forall>c\<in>set conns. cn_handle c \<in> dom (sockets(cn_handle conn \<mapsto> k1))" "distinct (map cn_handle conns)"
    using Cons.prems by auto
  from Cons.IH [OF this, of chs1] obtain conns2 sockets2 chs2 where q:
    "pump_conns M conns (sockets(cn_handle conn \<mapsto> k1), chs1) = Done (conns2, sockets2, chs2)"
    "list_all2 same_conn conns conns2" "dom sockets2 = dom (sockets(cn_handle conn \<mapsto> k1))"
    "\<forall>h. h \<notin> cn_handle ` set conns \<longrightarrow> sockets2 h = (sockets(cn_handle conn \<mapsto> k1)) h"
    "\<forall>c\<in>set conns2. \<not> cn_closed c \<longrightarrow> conn_open M sockets2 c" "\<forall>a. chan_kept (chs1 a) (chs2 a)" by blast
  have "sockets2 (cn_handle conn) = Some k1" using q(4) Cons.prems(2) by simp
  then have "\<not> cn_closed conn1 \<longrightarrow> conn_open M sockets2 conn1"
    using p(2,3) by (simp add: conn_open_def same_conn_def)
  moreover have "dom sockets2 = dom sockets" using q(3) Cons.prems(1) by auto
  ultimately show ?case
    using p q chan_kept_trans by (simp add: exec_bind_def) blast
qed

lemma retain_conns_closed:
  "\<lbrakk>\<forall>c\<in>set conns. cn_handle c \<in> dom sockets; distinct (map cn_handle conns)\<rbrakk> \<Longrightarrow>
    \<exists>sockets' chs'. retain_conns conns (sockets, chs) = Done (filter (\<lambda>c. \<not> cn_closed c) conns, sockets', chs') \<and>
      dom sockets' = dom sockets - cn_handle ` set (filter cn_closed conns) \<and> sockets' \<subseteq>\<^sub>m sockets \<and>
      (\<forall>a. length (ch_queue (chs' a)) \<le> length (ch_queue (chs a))) \<and>
      (\<forall>a. a \<notin> cn_to_client ` set (filter cn_closed conns) \<union> cn_from_client ` set (filter cn_closed conns) \<longrightarrow> chs' a = chs a)"
proof (induction conns arbitrary: sockets chs)
  case Nil
  then show ?case by simp
next
  case (Cons conn conns)
  show ?case
  proof (cases "cn_closed conn")
    case False
    with Cons.IH [of sockets chs] Cons.prems show ?thesis by auto
  next
    case True
    let ?s = "sockets(cn_handle conn := None)"
    let ?c1 = "chs(cn_to_client conn := drop_sender (chs (cn_to_client conn)))"
    let ?c = "?c1(cn_from_client conn := drop_receiver (?c1 (cn_from_client conn)))"
    have "cn_handle conn \<notin> cn_handle ` set conns" using Cons.prems(2) by simp
    then have "\<forall>c\<in>set conns. cn_handle c \<noteq> cn_handle conn" by (metis image_eqI)
    then have "\<forall>c\<in>set conns. cn_handle c \<in> dom ?s" "distinct (map cn_handle conns)"
      using Cons.prems by auto
    from Cons.IH [OF this, of ?c] obtain sockets' chs' where r:
      "retain_conns conns (?s, ?c) = Done (filter (\<lambda>c. \<not> cn_closed c) conns, sockets', chs')"
      "dom sockets' = dom ?s - cn_handle ` set (filter cn_closed conns)" "sockets' \<subseteq>\<^sub>m ?s"
      "\<forall>a. length (ch_queue (chs' a)) \<le> length (ch_queue (?c a))"
      "\<forall>a. a \<notin> cn_to_client ` set (filter cn_closed conns) \<union> cn_from_client ` set (filter cn_closed conns) \<longrightarrow> chs' a = ?c a"
      by blast
    have "?s \<subseteq>\<^sub>m sockets" by (auto simp: map_le_def)
    then have "sockets' \<subseteq>\<^sub>m sockets" using r(3) map_le_trans by blast
    moreover have "\<forall>a. length (ch_queue (?c a)) \<le> length (ch_queue (chs a))"
      by (simp add: drop_sender_def drop_receiver_def)
    then have "\<forall>a. length (ch_queue (chs' a)) \<le> length (ch_queue (chs a))" using r(4) order_trans by blast
    moreover obtain k where "sockets (cn_handle conn) = Some k" using Cons.prems by auto
    ultimately show ?thesis using True r(1,2,5) by (auto simp: Let_def)
  qed
qed

text \<open>
  The invariant: queues within their bounds; every connection has its own open socket and its own pair
  of queues, whose ends it still holds.
\<close>

definition conn_ok :: "nat \<Rightarrow> chans \<Rightarrow> conn \<Rightarrow> bool" where
  "conn_ok bound chs c \<longleftrightarrow> even (cn_to_client c) \<and> cn_from_client c = Suc (cn_to_client c) \<and> cn_from_client c < bound \<and>
     \<not> cn_closed c \<and> ch_sender (chs (cn_to_client c)) \<and> ch_receiver (chs (cn_from_client c))"

definition bounded :: "('i, 'k, 's) stack \<Rightarrow> bool" where
  "bounded s \<longleftrightarrow> finite (dom (sk_sockets s)) \<and> length (dv_inbound (sk_device s)) \<le> QUEUE \<and> even (sk_next s) \<and>
     (\<forall>a. length (ch_queue (sk_chans s a)) \<le> QUEUE)"

definition wired :: "('i, 'k, 's) stack \<Rightarrow> bool" where
  "wired s \<longleftrightarrow> distinct (map cn_handle (sk_conns s)) \<and> (\<forall>c\<in>set (sk_conns s). cn_handle c \<in> dom (sk_sockets s)) \<and>
     distinct (map cn_to_client (sk_conns s)) \<and> (\<forall>c\<in>set (sk_conns s). conn_ok (sk_next s) (sk_chans s) c)"

definition stack_ok :: "('i, 'k) smol \<Rightarrow> ('i, 'k, 's) stack \<Rightarrow> bool" where
  "stack_ok M s \<longleftrightarrow> bounded s \<and> wired s \<and> (\<forall>c\<in>set (sk_conns s). conn_open M (sk_sockets s) c)"

lemma control_irrelevant [simp]: "bounded (s\<lparr>sk_control := c\<rparr>) = bounded s" "wired (s\<lparr>sk_control := c\<rparr>) = wired s"
  by (simp_all add: bounded_def wired_def)

lemma device_irrelevant [simp]:
  "wired (s\<lparr>sk_device := d\<rparr>) = wired s"
  "bounded s \<Longrightarrow> bounded (s\<lparr>sk_device := d\<rparr>) \<longleftrightarrow> length (dv_inbound d) \<le> QUEUE"
  by (simp_all add: bounded_def wired_def)

lemma device_bounded: "length (dv_inbound (snd (drive p d))) \<le> length (dv_inbound d)"
proof (induction p arbitrary: d)
  case (Receive k)
  have "length (dv_inbound (snd (device_receive d))) \<le> length (dv_inbound d)"
    by (simp add: device_receive_def split: list.split)
  then show ?case using Receive [OF rangeI] order_trans by (fastforce split: prod.splits)
next
  case (Transmit b p)
  then show ?case by (metis device_transmit_def drive.simps(3) device_state.ext_inject device_state.surjective device_state.update_convs(2))
qed simp

lemma poll_iface_ok:
  assumes "set_laws M" "bounded s" "wired s"
  shows "bounded (poll_iface M t s) \<and> wired (poll_iface M t s)"
proof -
  obtain iface sockets d where p: "drive (sm_poll M t (sk_iface s) (sk_sockets s)) (sk_device s) = ((iface, sockets), d)"
    by (metis prod_cases3 prod.collapse)
  then have "dom sockets = dom (sk_sockets s)" "length (dv_inbound d) \<le> length (dv_inbound (sk_device s))"
    using assms(1) device_bounded [of "sm_poll M t (sk_iface s) (sk_sockets s)" "sk_device s"]
    unfolding set_laws_def by (metis fst_conv snd_conv)+
  then show ?thesis using assms(2,3) by (auto simp: poll_iface_def p bounded_def wired_def)
qed

lemma open_conn_ok:
  assumes "set_laws M" "bounded s" "wired s"
  shows "bounded (snd (open_conn M target port s)) \<and> wired (snd (open_conn M target port s))"
proof -
  let ?h = "sm_handle M (sk_sockets s)" and ?a = "sk_next s"
  obtain failure iface k where c: "sm_connect M (sk_iface s) target port (sm_socket M SOCKET_BUFFER SOCKET_BUFFER) = (failure, iface, k)"
    by (metis prod_cases3)
  have "sk_sockets s ?h = None" using assms(1,2) by (simp add: set_laws_def bounded_def)
  then have h: "?h \<notin> cn_handle ` set (sk_conns s)" using assms(3) by (auto simp: wired_def)
  have "\<forall>c\<in>set (sk_conns s). cn_from_client c < ?a \<and> cn_to_client c < ?a"
    using assms(3) by (auto simp: wired_def conn_ok_def)
  then have a: "?a \<notin> cn_to_client ` set (sk_conns s)"
    and old: "conn_ok (Suc (Suc ?a)) ((sk_chans s)(?a := chan_new, Suc ?a := chan_new)) c" if "c \<in> set (sk_conns s)" for c
    using assms(3) that by (auto simp: wired_def conn_ok_def)
  show ?thesis
    using assms(2,3) h a old
    by (cases failure) (auto simp: open_conn_def c bounded_def wired_def conn_ok_def chan_new_def Let_def)
qed

lemma take_data_ok:
  "\<lbrakk>bounded s; wired s; take_data S C s = (r, s')\<rbrakk> \<Longrightarrow> bounded s' \<and> wired s'"
  by (auto simp: take_data_def Let_def split: prod.splits outcome.splits option.splits if_splits)

lemma handle_event_ok:
  assumes "set_laws M" "bounded s" "wired s" "handle_event S C M ev s = (r, s')"
  shows "bounded s' \<and> wired s'"
proof (cases ev)
  case (Open target port c)
  with open_conn_ok [of M "s\<lparr>sk_control := c\<rparr>" target port] assms show ?thesis
    by (auto simp: handle_event_def split: prod.splits)
next
  case Data
  obtain r1 s1 where t: "take_data S C s = (r1, s1)" by fastforce
  then have "s' = s1" using assms(4) Data by (cases r1) (auto simp: handle_event_def)
  then show ?thesis using take_data_ok [OF assms(2,3) t] by simp
qed (use assms in \<open>auto simp: handle_event_def\<close>)

lemma flush_device_ok:
  assumes "bounded s" "wired s" "flush_device C iv s = (r, s')"
  shows "bounded s' \<and> wired s' \<and> (\<forall>e. r \<noteq> Fails e)"
proof -
  have never: "fst (send_outbound C iv i packets c) \<noteq> Fails e" for i packets c e
    by (induction C iv i packets c rule: send_outbound.induct) (auto split: prod.splits outcome.splits)
  have "length (dv_inbound (sk_device s)) \<le> QUEUE" using assms(1) by (simp add: bounded_def)
  then show ?thesis using assms never [of 0 "dv_outbound (sk_device s)" "sk_control s"]
    by (auto simp: flush_device_def split: prod.splits outcome.splits)
qed

lemma same_conn_ids:
  "list_all2 same_conn cs cs' \<Longrightarrow>
   map cn_handle cs' = map cn_handle cs \<and> map cn_to_client cs' = map cn_to_client cs \<and>
   map cn_from_client cs' = map cn_from_client cs"
  by (induction rule: list_all2_induct) (auto simp: same_conn_def)

text \<open>Serving the connections and dropping the closed ones never panics and restores the invariant.\<close>

lemma distinct_map_filter_out:
  "\<lbrakk>distinct (map f xs); x \<in> set xs; \<not> P x\<rbrakk> \<Longrightarrow> f x \<notin> f ` set (filter P xs)"
  by (auto simp: distinct_map inj_on_def)

lemma kept_conns_ok:
  assumes old: "\<forall>c\<in>set (sk_conns s). conn_ok bound (sk_chans s) c" and same: "list_all2 same_conn (sk_conns s) conns"
    and kept: "\<forall>a. chan_kept (sk_chans s a) (chs a)"
    and untouched: "\<forall>a. a \<notin> cn_to_client ` set (filter cn_closed conns) \<union> cn_from_client ` set (filter cn_closed conns) \<longrightarrow> chs' a = chs a"
    and dist: "distinct (map cn_to_client conns)" and c: "c \<in> set conns" "\<not> cn_closed c"
  shows "conn_ok bound chs' c"
proof -
  have shape: "even (cn_to_client d) \<and> cn_from_client d = Suc (cn_to_client d) \<and> cn_from_client d < bound \<and>
      ch_sender (chs (cn_to_client d)) \<and> ch_receiver (chs (cn_from_client d))" if d: "d \<in> set conns" for d
  proof -
    obtain i where i: "i < length conns" "d = conns ! i" using d by (auto simp: in_set_conv_nth)
    then have "same_conn (sk_conns s ! i) d" "sk_conns s ! i \<in> set (sk_conns s)"
      using same by (simp_all add: list_all2_conv_all_nth)
    then show ?thesis using old kept by (auto simp: conn_ok_def same_conn_def chan_kept_def)
  qed
  let ?gone = "set (filter cn_closed conns)"
  have a: "cn_to_client c \<notin> cn_to_client ` ?gone" using distinct_map_filter_out [where P = cn_closed, OF dist c(1)] c(2) by blast
  have b: "x \<notin> cn_from_client ` ?gone" if "even x" for x using shape that by auto
  have d: "x \<notin> cn_to_client ` ?gone" if "odd x" for x using shape that by auto
  have "cn_from_client c \<notin> cn_from_client ` ?gone"
  proof
    assume "cn_from_client c \<in> cn_from_client ` ?gone"
    then obtain e where e: "e \<in> ?gone" "cn_from_client e = cn_from_client c" by force
    then have "cn_to_client e = cn_to_client c" using shape [of e] shape [OF c(1)] by simp
    with a e(1) show False by (metis image_eqI)
  qed
  with a b d have "cn_to_client c \<notin> cn_to_client ` ?gone \<union> cn_from_client ` ?gone"
    "cn_from_client c \<notin> cn_to_client ` ?gone \<union> cn_from_client ` ?gone"
    using shape [OF c(1)] by (simp_all del: set_filter)
  then have "chs' (cn_to_client c) = chs (cn_to_client c)" "chs' (cn_from_client c) = chs (cn_from_client c)"
    using untouched by blast+
  then show ?thesis using shape [OF c(1)] c(2) by (metis conn_ok_def)
qed

lemma retain_none: "\<not> list_ex cn_closed conns \<Longrightarrow> retain_conns conns w = Done (conns, w)"
  by (induction conns w rule: retain_conns.induct) auto

lemma turn_conns_ok:
  assumes "socket_laws M rx tx" "bounded s" "wired s"
  shows "\<exists>s'. turn_conns M s = (Returns (), s') \<and> stack_ok M s'"
proof -
  have w: "\<forall>c\<in>set (sk_conns s). cn_handle c \<in> dom (sk_sockets s)" "distinct (map cn_handle (sk_conns s))"
    using assms(3) by (auto simp: wired_def)
  obtain conns sockets chs where p: "pump_conns M (sk_conns s) (sk_sockets s, sk_chans s) = Done (conns, sockets, chs)"
    "list_all2 same_conn (sk_conns s) conns" "dom sockets = dom (sk_sockets s)"
    "\<forall>c\<in>set conns. \<not> cn_closed c \<longrightarrow> conn_open M sockets c" "\<forall>a. chan_kept (sk_chans s a) (chs a)"
    using pump_conns_kept [OF assms(1) w, of "sk_chans s"] by blast
  note ids = same_conn_ids [OF p(2)]
  then have w1: "\<forall>c\<in>set conns. cn_handle c \<in> dom sockets" "distinct (map cn_handle conns)"
    using w p(3) by (metis (no_types, opaque_lifting) imageE image_eqI list.set_map)+
  obtain sockets' chs' where q: "retain_conns conns (sockets, chs) = Done (filter (\<lambda>c. \<not> cn_closed c) conns, sockets', chs')"
    "dom sockets' = dom sockets - cn_handle ` set (filter cn_closed conns)" "sockets' \<subseteq>\<^sub>m sockets"
    "\<forall>a. length (ch_queue (chs' a)) \<le> length (ch_queue (chs a))"
    "\<forall>a. a \<notin> cn_to_client ` set (filter cn_closed conns) \<union> cn_from_client ` set (filter cn_closed conns) \<longrightarrow> chs' a = chs a"
    using retain_conns_closed [OF w1, of chs] by blast
  let ?s = "s\<lparr>sk_conns := filter (\<lambda>c. \<not> cn_closed c) conns, sk_sockets := sockets', sk_chans := chs'\<rparr>"
  have retained: "exec_bind (pump_conns M (sk_conns s) (sk_sockets s, sk_chans s)) (\<lambda>(conns, w).
             if list_ex cn_closed conns then retain_conns conns w else Done (conns, w)) =
     Done (filter (\<lambda>c. \<not> cn_closed c) conns, sockets', chs')"
    using p(1) q(1) retain_none [of conns "(sockets, chs)"] by (auto simp: list_ex_iff)
  have "bounded ?s"
    using assms(2) p(3,5) q(2,4) by (auto simp: bounded_def chan_kept_def) (meson order_trans)
  moreover have "\<forall>c\<in>set conns. \<not> cn_closed c \<longrightarrow> sockets' (cn_handle c) = sockets (cn_handle c)"
    using w1 q(2,3) distinct_map_filter_out [OF w1(2)] by (metis DiffI map_le_def)
  moreover have "\<forall>c\<in>set conns. \<not> cn_closed c \<longrightarrow> conn_ok (sk_next s) chs' c"
    using kept_conns_ok [OF _ p(2,5) q(5)] assms(3) ids by (simp add: wired_def)
  ultimately have "stack_ok M ?s"
    using p(4) assms(3) w1 ids by (auto simp: stack_ok_def wired_def conn_open_def distinct_map_filter)
  then show ?thesis using retained by (auto simp: turn_conns_def)
qed

lemma stack_round_ok:
  assumes laws: "socket_laws M rx tx" "set_laws M" and ok: "stack_ok M s"
    and round: "stack_round S C M t iv ev s = (r, s')"
  shows "(\<exists>x. r = Returns x \<and> (ev \<noteq> NoCommands \<longrightarrow> stack_ok M s')) \<or> fst (handle_event S C M ev s) \<in> {Panics, Hangs} \<or>
         (\<exists>x s1. handle_event S C M ev s = (Returns x, s1) \<and> fst (flush_device C iv (poll_iface M t s1)) \<in> {Panics, Hangs})"
proof -
  obtain x1 s1 where e: "handle_event S C M ev s = (x1, s1)" by fastforce
  have s1: "bounded s1" "wired s1" using handle_event_ok [OF laws(2) _ _ e] ok by (simp_all add: stack_ok_def)
  have nofail: "x1 \<noteq> Fails f" for f
    using e by (cases ev; cases "take_data S C s") (auto simp: handle_event_def take_data_def and_then_def Let_def split: prod.splits outcome.splits option.splits)
  obtain x2 s2 where fl: "flush_device C iv (poll_iface M t s1) = (x2, s2)" by fastforce
  have s2: "bounded s2" "wired s2" "\<forall>f. x2 \<noteq> Fails f"
    using flush_device_ok [OF _ _ fl] poll_iface_ok [OF laws(2) s1] by blast+
  obtain s3 where "turn_conns M s2 = (Returns (), s3)" "stack_ok M s3" using turn_conns_ok [OF laws(1) s2(1,2)] by blast
  then show ?thesis
    using round e fl nofail s2(3) unfolding stack_round_def
    by (cases x1; cases x2) (auto split: if_splits simp: handle_event_def and_then_def split: event.splits prod.splits outcome.splits)
qed

text \<open>
  The stack and its clients: rounds of the stack's loop, and reads, writes and drops of the streams it
  has handed out, in any order.
\<close>

inductive stack_step ::
  "'s ssl \<Rightarrow> crypto \<Rightarrow> ('i, 'k) smol \<Rightarrow> ('i, 'k, 's) stack \<times> stream list \<Rightarrow> ('i, 'k, 's) stack \<times> stream list \<Rightarrow> bool"
  for S C M where
  serve: "stack_round S C M t iv ev s = (Returns (Served reply), s') \<Longrightarrow>
    stack_step S C M (s, sts) (s', (case reply of Some (Inr st) \<Rightarrow> st # sts | _ \<Rightarrow> sts))"
| reads: "stream_read n (st, sk_chans s) = (got, st', chs) \<Longrightarrow>
    stack_step S C M (s, xs @ st # ys) (s\<lparr>sk_chans := chs\<rparr>, xs @ st' # ys)"
| writes: "stream_write buf (st, sk_chans s) = (w, chs) \<Longrightarrow>
    stack_step S C M (s, xs @ st # ys) (s\<lparr>sk_chans := chs\<rparr>, xs @ st # ys)"
| drops: "stack_step S C M (s, xs @ st # ys) (s\<lparr>sk_chans := stream_drop st (sk_chans s)\<rparr>, xs @ ys)"

definition stream_ok :: "stream \<Rightarrow> bool" where
  "stream_ok st \<longleftrightarrow> even (st_read st) \<and> odd (st_write st)"

lemma stream_read_chans:
  assumes "stream_read n (st, chs) = (got, st', chs')"
  shows "st_read st' = st_read st \<and> st_write st' = st_write st \<and> (\<forall>a. chan_kept (chs a) (chs' a))"
  using assms
  by (auto simp: stream_read_def poll_recv_def chan_kept_def Let_def
      split: if_splits prod.splits progress.splits option.splits list.splits)

lemma stream_write_chans:
  "stream_write buf (st, chs) = (w, chs') \<Longrightarrow> chan_kept (chs a) (chs' a)"
  by (auto simp: stream_write_def Let_def split: prod.splits) (metis snd_conv try_send_kept)

lemma stack_ok_chans:
  assumes "stack_ok M s" "\<And>a. length (ch_queue (chs a)) \<le> QUEUE"
    and "\<And>a. even a \<Longrightarrow> ch_sender (chs a) = ch_sender (sk_chans s a)"
    and "\<And>a. odd a \<Longrightarrow> ch_receiver (chs a) = ch_receiver (sk_chans s a)"
  shows "stack_ok M (s\<lparr>sk_chans := chs\<rparr>)"
  using assms by (auto simp: stack_ok_def bounded_def wired_def conn_ok_def)

lemma stack_ok_kept:
  "stack_ok M s \<Longrightarrow> (\<And>a. chan_kept (sk_chans s a) (chs a)) \<Longrightarrow> stack_ok M (s\<lparr>sk_chans := chs\<rparr>)"
  by (rule stack_ok_chans) (auto simp: chan_kept_def stack_ok_def bounded_def)

lemma served_stream:
  assumes "handle_event S C M ev s = (Returns (Served (Some (Inr st))), s')" "bounded s"
  shows "stream_ok st"
  using assms
  by (auto simp: handle_event_def open_conn_def stream_ok_def stream_new_def bounded_def and_then_def take_data_def Let_def
      split: event.splits prod.splits option.splits outcome.splits)

lemma stack_round_reply:
  "stack_round S C M t iv ev s = (Returns r, s') \<Longrightarrow> \<exists>s1. handle_event S C M ev s = (Returns r, s1)"
  by (cases "handle_event S C M ev s")
    (auto simp: stack_round_def and_then_def split: prod.splits outcome.splits if_splits)

lemma handle_event_returns: "handle_event S C M ev s = (Returns (Served reply), s1) \<Longrightarrow> ev \<noteq> NoCommands"
  by (auto simp: handle_event_def)

lemma stack_step_ok:
  assumes laws: "socket_laws M rx tx" "set_laws M"
    and "stack_step S C M (s, sts) (s', sts')" "stack_ok M s" "\<forall>st\<in>set sts. stream_ok st"
  shows "stack_ok M s' \<and> (\<forall>st\<in>set sts'. stream_ok st)"
  using assms(3-5)
proof (cases rule: stack_step.cases)
  case (serve t iv ev reply)
  obtain s1 where e: "handle_event S C M ev s = (Returns (Served reply), s1)" using stack_round_reply serve(2) by blast
  have "bounded s" using assms(4) by (simp add: stack_ok_def)
  then have "\<forall>st. reply = Some (Inr st) \<longrightarrow> stream_ok st" using served_stream e by blast
  moreover have "flush_device C iv (poll_iface M t s1) = (x, s2) \<Longrightarrow> x \<notin> {Panics, Hangs}" for x s2
    using serve(2) e by (auto simp: stack_round_def)
  then have "stack_ok M s'"
    using stack_round_ok [OF laws assms(4) serve(2)] handle_event_returns [OF e] e by (auto simp: prod_eq_iff)
  ultimately show ?thesis using assms(5) serve(1) by (auto split: option.splits sum.splits)
next
  case (reads n st got st' chs xs ys)
  then show ?thesis using stream_read_chans [OF reads(4)] assms(4,5) by (auto simp: stream_ok_def intro: stack_ok_kept)
next
  case (writes buf st w chs xs ys)
  then show ?thesis using stream_write_chans [OF writes(4)] assms(4,5) by (auto intro: stack_ok_kept)
next
  case (drops xs st ys)
  have "stream_ok st" using drops(1) assms(5) by simp
  then have "stack_ok M (s\<lparr>sk_chans := stream_drop st (sk_chans s)\<rparr>)"
    by (intro stack_ok_chans [OF assms(4)])
      (use assms(4) in \<open>auto simp: stream_drop_def drop_sender_def drop_receiver_def stream_ok_def stack_ok_def bounded_def\<close>)
  then show ?thesis using drops assms(5) by auto
qed


lemma demo_set_laws: "set_laws demo_smol"
proof -
  have "S (LEAST h. S h = None) = None" if "finite (dom S)" for S :: "nat \<Rightarrow> (bytes \<times> bytes \<times> nat) option"
    using that ex_new_if_finite [OF infinite_UNIV_nat] by (metis (mono_tags, lifting) LeastI_ex domIff)
  then show ?thesis by (auto simp: set_laws_def demo_smol_def split: prod.splits)
qed

definition demo_stack :: "(unit, bytes \<times> bytes \<times> nat, unit) stack" where
  "demo_stack = stack_start demo_smol 0 0 (Ipv4 10 8 0 2) None (demo_control [])"

definition demo_open :: "unit event" where
  "demo_open = Open (V4 (Ipv4 1 2 3 4), 80) 7 (demo_control [])"

lemma demo_round:
  "\<exists>s. stack_round demo_ssl demo_crypto demo_smol 0 (\<lambda>_. []) demo_open demo_stack =
       (Returns (Served (Some (Inr (stream_new 0 1)))), s) \<and> length (sk_conns s) = 1"
  by (simp add: stack_round_def handle_event_def demo_open_def open_conn_def demo_stack_def stack_start_def demo_smol_def
      poll_iface_def device_receive_def flush_device_def turn_conns_def pump_conn_def download_def chan_new_def Let_def)


end
