(* ===== verification/Ovpn_Tunnel.thy ===== *)
theory Ovpn_Tunnel
  imports Ovpn_Stack
begin

text \<open>
  Establishing an OpenVPN tunnel (\<open>src/openvpn/tunnel.rs\<close>): the control connection, the push
  request, the keys, and what the stack is started with.
\<close>

section \<open>The tunnel\<close>

record 's tunnel =
  tn_control :: "'s control"
  tn_local :: ipv4
  tn_remote :: "ipv4 option"
  tn_protocol :: ovpn_protocol
  tn_cipher :: cipher

definition tunnel_connect ::
  "'s ssl \<Rightarrow> ('b, 'v, 'cert, 'k, 'x, 's) btls \<Rightarrow> crypto \<Rightarrow> dialer \<Rightarrow> profile \<Rightarrow> 's tunnel outcome" where
  "tunnel_connect S B C D profile =
     (case connect S B D profile (credential_store_new (prof_credentials profile)) of
        Fails e \<Rightarrow> Fails e | Panics \<Rightarrow> Panics | Hangs \<Rightarrow> Hangs
      | Returns c \<Rightarrow>
          (case push_request S c of
             (Fails e, _) \<Rightarrow> Fails e | (Panics, _) \<Rightarrow> Panics | (Hangs, _) \<Rightarrow> Hangs
           | (Returns reply, c) \<Rightarrow>
               (case install_keys C (apply_push reply c) of
                  (Fails e, _) \<Rightarrow> Fails e | (Panics, _) \<Rightarrow> Panics | (Hangs, _) \<Rightarrow> Hangs
                | (Returns _, c) \<Rightarrow>
                    let pushed = parse_push reply;
                        local = (case pu_local pushed of Some a \<Rightarrow> a | None \<Rightarrow> Ipv4 10 8 0 2) in
                    (case prof_servers profile of
                       [] \<Rightarrow> Panics
                     | server # _ \<Rightarrow>
                         Returns \<lparr>tn_control = c, tn_local = local, tn_remote = pu_remote pushed,
                                  tn_protocol = srv_protocol server, tn_cipher = ct_cipher c\<rparr>))))"

text \<open>
  \<open>open\<close> asks the tunnel's stack. \<open>TunnelConfig\<close> has only the connect timeout, which \<open>connect\<close> does not
  look at.
\<close>

definition tunnel_open ::
  "(string \<Rightarrow> string + ip_addr list option) \<Rightarrow> (endpoint \<Rightarrow> (ovpn_error + stream) option) \<Rightarrow>
   string \<Rightarrow> u16 \<Rightarrow> ovpn_error + stream" where
  "tunnel_open dns serve host port = stack_open dns serve host port"

section \<open>The cipher and the keys of an established tunnel\<close>

definition settings :: "'s control \<Rightarrow> cipher \<times> auth" where
  "settings c = (ct_cipher c, ct_auth c)"

lemma idle_settings: "idle c c' \<Longrightarrow> settings c' = settings c"
  by (simp add: idle_def settings_def)

lemma on_net_recv_settings: "on_net (recv_packet timeout) c = (r, c') \<Longrightarrow> settings c' = settings c"
  by (auto simp: on_net_def settings_def split: prod.splits)

lemma pump_loop_settings: "pump_loop S deadline lr c = (Returns u, c') \<Longrightarrow> settings c' = settings c"
proof (induction S deadline lr c rule: pump_loop.induct)
  case (1 S deadline lr c)
  let ?recv = "on_net (recv_packet (min (deadline - now c) 500)) c"
  have t: "\<not> deadline \<le> now c" using "1.prems" by (auto simp: pump_loop.simps [of S deadline lr c])
  obtain x d where d: "?recv = (Returns x, d)" and
    rest: "(case x of
            None \<Rightarrow>
              if \<not> tls_is_ready (ct_tls d) \<and> 2000 < now d - lr
              then and_then (retransmit_control d) (\<lambda>_ c'. pump_loop S deadline (now d) c')
              else pump_loop S deadline lr d
          | Some p \<Rightarrow>
              if pk_opcode p = P_CONTROL_V1 then handle_control S p d
              else pump_loop S deadline lr d) = (Returns u, c')"
    using "1.prems" t by (auto simp: pump_loop.simps [of S deadline lr c] and_then_Returns)
  have fs: "fst ?recv = Returns x" "snd ?recv = d" by (simp_all add: d)
  have step: "settings d = settings c" by (rule on_net_recv_settings [OF d])
  show ?case
  proof (cases x)
    case None
    show ?thesis
    proof (cases "\<not> tls_is_ready (ct_tls d) \<and> 2000 < now d - lr")
      case True
      then obtain v e where e: "retransmit_control d = (Returns v, e)" "pump_loop S deadline (now d) e = (Returns u, c')"
        using rest None by (auto simp: and_then_Returns)
      then show ?thesis
        using "1.IH"(1) [OF t fs(1) None] True fs(2) step idle_settings [OF retransmit_idle [OF e(1)]] by simp
    next
      case False
      then show ?thesis using "1.IH"(2) [OF t fs(1) None] rest None fs(2) step by (auto split: if_splits)
    qed
  next
    case (Some p)
    then show ?thesis
      using "1.IH"(3) [OF t fs(1) Some] rest fs(2) step idle_settings [OF handle_control_idle [of S p d]]
      by (auto split: if_splits)
  qed
qed

lemma pump_settings: "pump S timeout c = (Returns u, c') \<Longrightarrow> settings c' = settings c"
  unfolding pump_def by (rule pump_loop_settings)

lemma take_settings [simp]:
  "settings (snd (take_plaintext c)) = settings c" "settings (snd (take_outbound c)) = settings c"
  by (simp_all add: take_plaintext_def take_outbound_def settings_def split: prod.split)

lemma pump_plaintext_settings: "pump_plaintext S timeout c = (Returns x, c') \<Longrightarrow> settings c' = settings c"
  by (auto simp: pump_plaintext_def and_then_Returns dest!: pump_settings)

lemma drive_loop_settings: "drive_loop S deadline c = (Returns u, c') \<Longrightarrow> settings c' = settings c"
proof (induction S deadline c rule: drive_loop.induct)
  case (1 S deadline c)
  obtain u1 c1 u2 c2 where a: "on_tls (tls_drive S) c = (Returns u1, c1)" "flush_tls c1 = (Returns u2, c2)"
    and rest: "(if tls_is_ready (ct_tls c2) then (Returns (), c2) else if deadline \<le> now c2 then (Fails ETimeout, c2)
      else and_then (pump S (deadline - now c2) c2) (\<lambda>_ c. drive_loop S deadline c)) = (Returns u, c')"
    using "1.prems" by (auto simp: drive_loop.simps [of S deadline c] and_then_Returns)
  have c2: "settings c2 = settings c"
    using idle_settings [OF on_tls_idle [OF a(1)]] idle_settings [OF flush_tls_idle [OF a(2)]] by simp
  show ?case
  proof (cases "tls_is_ready (ct_tls c2)")
    case True
    then show ?thesis using rest c2 by simp
  next
    case False
    then obtain u3 c3 where p: "pump S (deadline - now c2) c2 = (Returns u3, c3)" "drive_loop S deadline c3 = (Returns u, c')"
      using rest by (auto simp: and_then_Returns split: if_splits)
    then show ?thesis
      using "1.IH" [of u1 u2 u3] a False rest c2 pump_settings [OF p(1)] by (auto split: if_splits)
  qed
qed

lemma key_loop_settings: "key_loop S deadline buffer c = (Returns r, c') \<Longrightarrow> settings c' = settings c"
proof (induction S deadline buffer c rule: key_loop.induct)
  case (1 S deadline buffer c)
  then have t: "\<not> deadline \<le> now c" by (auto simp: key_loop.simps [of S deadline buffer c])
  then obtain chunk d where d: "pump_plaintext S (deadline - now c) c = (Returns chunk, d)"
    and rest: "(case read_key_reply (add_chunk buffer chunk) of
            None \<Rightarrow> key_loop S deadline (add_chunk buffer chunk) d
          | Some (Inl e) \<Rightarrow> (Fails e, d)
          | Some (Inr randoms) \<Rightarrow> (Returns randoms, d)) = (Returns r, c')"
    using "1.prems" by (auto simp: key_loop.simps [of S deadline buffer c] and_then_Returns Let_def)
  then show ?case
    using "1.IH" [OF t, of chunk] pump_plaintext_settings [OF d] by (auto split: option.splits sum.splits)
qed

lemma push_loop_settings: "push_loop S deadline buffer c = (Returns r, c') \<Longrightarrow> settings c' = settings c"
proof (induction S deadline buffer c rule: push_loop.induct)
  case (1 S deadline buffer c)
  then have t: "\<not> deadline \<le> now c" by (auto simp: push_loop.simps [of S deadline buffer c])
  then obtain chunk d where d: "pump_plaintext S (deadline - now c) c = (Returns chunk, d)"
    and rest: "(case take_message (add_chunk buffer chunk) (as_bytes ''PUSH_REPLY'') of
            Some (reply, _) \<Rightarrow> (Returns reply, d)
          | None \<Rightarrow>
              (case take_message (add_chunk buffer chunk) (as_bytes ''AUTH_FAILED'') of
                 Some _ \<Rightarrow> (Fails EAuth, d)
               | None \<Rightarrow> push_loop S deadline (add_chunk buffer chunk) d)) = (Returns r, c')"
    using "1.prems" by (auto simp: push_loop.simps [of S deadline buffer c] and_then_Returns Let_def)
  then show ?case
    using "1.IH" [OF t, of chunk] pump_plaintext_settings [OF d] by (auto split: option.splits)
qed

lemma exchange_keys_settings:
  assumes "exchange_keys S profile pm r1 r2 c = (Returns u, c')"
  shows "settings c' = settings c"
proof -
  obtain payload u1 c1 u2 c2 randoms c3 where "on_tls (tls_write S payload) c = (Returns u1, c1)"
    "send_control_chunks (fst (take_outbound c1)) (snd (take_outbound c1)) = (Returns u2, c2)"
    "key_loop S (now c2 + HANDSHAKE_TIMEOUT) [] c2 = (Returns randoms, c3)" "settings c' = settings c3"
    using assms by (auto simp: exchange_keys_def and_then_Returns settings_def split: sum.splits)
  then show ?thesis
    using idle_settings [OF on_tls_idle] idle_settings [OF send_chunks_idle] key_loop_settings
    by (metis send_control_chunks_def take_settings(2))
qed

lemma connect_to_settings:
  assumes "connect_to S B D profile credentials i server = Returns c"
  shows "settings c = (prof_cipher profile, prof_auth profile)"
proof -
  obtain session_id remote reset_id session w u1 c1 u2 where
    "drive_tls S HANDSHAKE_TIMEOUT (control_new profile session_id remote reset_id session w) = (Returns u1, c1)"
    "exchange_keys S profile (ra_pre_master (dl_random D i)) (ra_random1 (dl_random D i)) (ra_random2 (dl_random D i)) c1 =
     (Returns u2, c)"
    using assms
    by (auto simp: connect_to_def and_then_Returns Let_def split: sum.splits prod.splits outcome.splits)
  then show ?thesis
    using drive_loop_settings [of S] exchange_keys_settings [of S profile]
    by (fastforce simp: drive_tls_def control_new_def settings_def)
qed

lemma connect_loop_Returns:
  "connect_loop attempt i servers failure = Returns c \<Longrightarrow> \<exists>j s. s \<in> set servers \<and> attempt j s = Returns c"
  by (induction attempt i servers failure rule: connect_loop.induct) (auto split: outcome.splits)

lemma install_keys_Returns:
  assumes "install_keys C c = (Returns u, c')"
  shows "\<exists>keys. ct_keys c' = Some keys \<and> settings c' = settings c \<and>
    dc_cipher (ky_encrypt keys) = ct_cipher c \<and> dc_cipher (ky_decrypt keys) = ct_cipher c \<and>
    dc_auth (ky_encrypt keys) = ct_auth c \<and> dc_auth (ky_decrypt keys) = ct_auth c \<and>
    length (dc_key (ky_encrypt keys)) = key_len (ct_cipher c) \<and> length (dc_key (ky_decrypt keys)) = key_len (ct_cipher c)"
  using assms
  by (auto simp: install_keys_def settings_def Let_def split: option.splits exec.splits sum.splits
      dest: data_cipher_new_Inr)

lemma tunnel_settings:
  assumes tn: "tunnel_connect S B C D profile = Returns tn"
  shows "\<exists>reply keys. tn_cipher tn = (case pu_cipher (parse_push reply) of Some ci \<Rightarrow> ci | None \<Rightarrow> prof_cipher profile) \<and>
        ct_keys (tn_control tn) = Some keys \<and>
        list_all (\<lambda>k. dc_cipher k = tn_cipher tn \<and> dc_auth k = prof_auth profile \<and> length (dc_key k) = key_len (tn_cipher tn))
          [ky_encrypt keys, ky_decrypt keys] \<and>
        tn_local tn = (case pu_local (parse_push reply) of Some a \<Rightarrow> a | None \<Rightarrow> Ipv4 10 8 0 2) \<and>
        tn_remote tn = pu_remote (parse_push reply) \<and> tn_protocol tn = srv_protocol (hd (prof_servers profile))"
proof -
  obtain c1 reply c2 u c3 where c: "connect S B D profile (credential_store_new (prof_credentials profile)) = Returns c1" "push_request S c1 = (Returns reply, c2)"
    "install_keys C (apply_push reply c2) = (Returns u, c3)" "tn_control tn = c3" "tn_cipher tn = ct_cipher c3"
    "tn_local tn = (case pu_local (parse_push reply) of Some a \<Rightarrow> a | None \<Rightarrow> Ipv4 10 8 0 2)"
    "tn_remote tn = pu_remote (parse_push reply)" "tn_protocol tn = srv_protocol (hd (prof_servers profile))"
    using tn by (auto simp: tunnel_connect_def Let_def split: outcome.splits prod.splits list.splits)
  have "settings c1 = (prof_cipher profile, prof_auth profile)"
    using connect_loop_Returns [OF c(1) [unfolded connect_def]] connect_to_settings [of S B D profile] by blast
  moreover have "settings c2 = settings c1"
    using c(2) idle_settings [OF on_tls_idle] idle_settings [OF flush_tls_idle] push_loop_settings
    by (fastforce simp: push_request_def and_then_Returns)
  ultimately have "settings (apply_push reply c2) =
      (case pu_cipher (parse_push reply) of Some ci \<Rightarrow> ci | None \<Rightarrow> prof_cipher profile, prof_auth profile)"
    by (simp add: apply_push_def settings_def Let_def split: option.splits)
  with install_keys_Returns [OF c(3)] c(4-8) show ?thesis
    by (intro exI [of _ reply]) (auto simp: settings_def)
qed

text \<open>
  A tunnel that is established has data keys of the right length in both directions for the cipher
  the push reply names, or the profile's cipher when it names none, and for the profile's digest; the
  stack gets the pushed address and the first server's protocol. A profile without servers is refused
  with an error, never with a panic.
\<close>
theorem tunnel_established:
  "if prof_servers profile = [] then tunnel_connect S B C D profile = Fails (EAccount ''no remote'')
   else case tunnel_connect S B C D profile of Fails _ \<Rightarrow> True | Panics \<Rightarrow> True | Hangs \<Rightarrow> True | Returns tn \<Rightarrow>
      \<exists>reply keys. tn_cipher tn = (case pu_cipher (parse_push reply) of Some ci \<Rightarrow> ci | None \<Rightarrow> prof_cipher profile) \<and>
        ct_keys (tn_control tn) = Some keys \<and>
        list_all (\<lambda>k. dc_cipher k = tn_cipher tn \<and> dc_auth k = prof_auth profile \<and> length (dc_key k) = key_len (tn_cipher tn))
          [ky_encrypt keys, ky_decrypt keys] \<and>
        tn_local tn = (case pu_local (parse_push reply) of Some a \<Rightarrow> a | None \<Rightarrow> Ipv4 10 8 0 2) \<and>
        tn_remote tn = pu_remote (parse_push reply) \<and> tn_protocol tn = srv_protocol (hd (prof_servers profile))"
proof (cases "tunnel_connect S B C D profile")
  case (Returns tn)
  have "\<exists>reply keys. tn_cipher tn = (case pu_cipher (parse_push reply) of Some ci \<Rightarrow> ci | None \<Rightarrow> prof_cipher profile) \<and>
        ct_keys (tn_control tn) = Some keys \<and>
        list_all (\<lambda>k. dc_cipher k = tn_cipher tn \<and> dc_auth k = prof_auth profile \<and> length (dc_key k) = key_len (tn_cipher tn))
          [ky_encrypt keys, ky_decrypt keys] \<and>
        tn_local tn = (case pu_local (parse_push reply) of Some a \<Rightarrow> a | None \<Rightarrow> Ipv4 10 8 0 2) \<and>
        tn_remote tn = pu_remote (parse_push reply) \<and> tn_protocol tn = srv_protocol (hd (prof_servers profile))"
    by (rule tunnel_settings [OF Returns])
  then show ?thesis using Returns by (auto simp: tunnel_connect_def connect_def)
qed (auto simp: tunnel_connect_def connect_def)

end
