(* ===== verification/Vpn_Link.thy ===== *)
theory Vpn_Link
  imports Vpn_Account Ovpn_Tunnel
begin

text \<open>
  The OpenVPN accounts on top of the OpenVPN client: the guard that a connection through an account
  is (\<open>Guard\<close> of \<open>src/vpn/provider.rs\<close>), a round of the reaper task, and the tunnels the accounts hold
  when connecting is \<open>Tunnel::connect\<close> of \<open>src/openvpn/tunnel.rs\<close>.
\<close>

section \<open>Guards\<close>

record guard =
  gd_stream :: "stream option"
  gd_live :: nat

definition guard_read :: "nat \<Rightarrow> guard \<times> chans \<Rightarrow> bytes progress \<times> guard \<times> chans" where
  "guard_read room = (\<lambda>(g, chs).
     case gd_stream g of
       Some st \<Rightarrow> (let (r, st, chs) = stream_read room (st, chs) in (r, g\<lparr>gd_stream := Some st\<rparr>, chs))
     | None \<Rightarrow> (Now [], g, chs))"

definition guard_write :: "bytes \<Rightarrow> guard \<times> chans \<Rightarrow> (string + nat) progress \<times> guard \<times> chans" where
  "guard_write buf = (\<lambda>(g, chs).
     case gd_stream g of
       Some st \<Rightarrow> (let (r, chs) = stream_write buf (st, chs) in (r, g, chs))
     | None \<Rightarrow> (Now (Inl ''stream closed''), g, chs))"

definition guard_flush :: "guard \<times> chans \<Rightarrow> (string + unit) progress \<times> guard \<times> chans" where
  "guard_flush = (\<lambda>(g, chs).
     case gd_stream g of
       Some st \<Rightarrow> (let (r, st, chs) = stream_flush (st, chs) in (r, g\<lparr>gd_stream := Some st\<rparr>, chs))
     | None \<Rightarrow> (Now (Inr ()), g, chs))"

definition guard_shutdown :: "guard \<times> chans \<Rightarrow> (string + unit) progress \<times> guard \<times> chans" where
  "guard_shutdown = (\<lambda>(g, chs).
     case gd_stream g of
       Some st \<Rightarrow> (let (r, st, chs) = stream_shutdown (st, chs) in (r, g\<lparr>gd_stream := Some st\<rparr>, chs))
     | None \<Rightarrow> (Now (Inr ()), g, chs))"

text \<open>Dropping a guard drops its stream first, and then gives the connection back.\<close>

definition drop_guard :: "nat \<Rightarrow> guard \<Rightarrow> chans \<Rightarrow> 'v arena \<Rightarrow> chans \<times> 'v arena" where
  "drop_guard t g chs ar =
     (case gd_stream g of Some st \<Rightarrow> stream_drop st chs | None \<Rightarrow> chs, guard_drop t (gd_live g) ar)"

fun guard_holds :: "guard \<times> chans \<Rightarrow> bytes \<Rightarrow> bool" where
  "guard_holds (g, chs) out = (case gd_stream g of Some st \<Rightarrow> stream_holds (st, chs) out | None \<Rightarrow> out = [])"

fun guard_ended :: "guard \<times> chans \<Rightarrow> bool" where
  "guard_ended (g, chs) = (case gd_stream g of Some st \<Rightarrow> stream_ended (st, chs) | None \<Rightarrow> True)"

text \<open>A guard delivers what its stream does.\<close>

interpretation gb: byte_source guard_read guard_holds guard_ended "\<lambda>s. 0"
proof (unfold_locales, goal_cases)
  case (1 s out n)
  obtain g chs where s: "s = (g, chs)" by fastforce
  show ?case
  proof (cases "gd_stream g")
    case (Some st)
    then show ?thesis using rx.read_some [of "(st, chs)" out n] 1 by (fastforce simp: s guard_read_def)
  qed (use 1 s in simp)
next
  case (2 s n)
  obtain g chs where s: "s = (g, chs)" by fastforce
  show ?case
  proof (cases "gd_stream g")
    case (Some st)
    then show ?thesis using rx.read_none [of "(st, chs)" n] 2 by (fastforce simp: s guard_read_def)
  qed (use s in \<open>simp add: guard_read_def\<close>)
next
  case (3 s out)
  obtain g chs where s: "s = (g, chs)" by fastforce
  show ?case
  proof (cases "gd_stream g")
    case (Some st)
    then show ?thesis using rx.read_zero [of "(st, chs)" out] 3 by (auto simp: s guard_read_def split: prod.splits)
  qed (use 3 s in simp)
qed

section \<open>The reaper\<close>

text \<open>One tick of the reaper: every account in turn.\<close>

fun reap_round :: "nat \<Rightarrow> vpn_account list \<Rightarrow> 'v arena \<Rightarrow> vpn_account list \<times> 'v arena" where
  "reap_round t [] ar = ([], ar)"
| "reap_round t (ac # acs) ar =
     (let (ac, ar) = account_reap t ac ar; (acs, ar) = reap_round t acs ar in (ac # acs, ar))"

text \<open>An account whose tunnel has had no connection for the whole timeout, and what the reaper makes of it.\<close>

definition idle_too_long :: "nat \<Rightarrow> 'v arena \<Rightarrow> vpn_account \<Rightarrow> bool" where
  "idle_too_long t ar ac \<longleftrightarrow>
     (\<exists>a l. ac_tunnel ac = Some a \<and> ar_lives ar a = Some l \<and> lv_connections l = 0 \<and>
        vc_idle_timeout (ac_config ac) \<le> t - (case lv_idle_since l of Some since \<Rightarrow> since | None \<Rightarrow> t))"

definition closed_account :: "vpn_account \<Rightarrow> vpn_account" where
  "closed_account ac = ac\<lparr>ac_ready := False, ac_generation := ac_generation ac + 1, ac_socks_port := 0, ac_tunnel := None\<rparr>"

lemma account_reap_exact:
  "fst (account_reap t ac ar) = (if idle_too_long t ar ac then closed_account ac else ac)"
  by (auto simp: account_reap_def idle_too_long_def closed_account_def idle_expired_def Let_def word_gt_0 split: option.splits)

lemma account_reap_frame:
  "ac_tunnel ac \<noteq> Some a \<Longrightarrow> ar_lives (snd (account_reap t ac ar)) a = ar_lives ar a"
  by (auto simp: account_reap_def Let_def split: option.splits prod.splits)

lemma reap_round_accounts:
  assumes "\<forall>i < length acs. \<forall>j < length acs. \<forall>a. i \<noteq> j \<longrightarrow> ac_tunnel (acs ! i) = Some a \<longrightarrow> ac_tunnel (acs ! j) \<noteq> Some a"
  shows "fst (reap_round t acs ar) = map (\<lambda>ac. if idle_too_long t ar ac then closed_account ac else ac) acs"
  using assms
proof (induction acs arbitrary: ar)
  case (Cons ac acs)
  define ar1 where "ar1 = snd (account_reap t ac ar)"
  have rest: "\<forall>i < length acs. \<forall>j < length acs. \<forall>a. i \<noteq> j \<longrightarrow> ac_tunnel (acs ! i) = Some a \<longrightarrow> ac_tunnel (acs ! j) \<noteq> Some a"
    using Cons.prems by (metis Suc_less_eq length_Cons nth_Cons_Suc nat.inject)
  have "ac_tunnel ac' = Some a \<Longrightarrow> ac_tunnel ac \<noteq> Some a" if "ac' \<in> set acs" for ac' a
    using that Cons.prems by (metis in_set_conv_nth length_Cons nat.distinct(1) nth_Cons_0 nth_Cons_Suc Suc_less_eq zero_less_Suc)
  then have same: "idle_too_long t ar1 ac' = idle_too_long t ar ac'" if "ac' \<in> set acs" for ac'
    using that account_reap_frame [of ac] unfolding idle_too_long_def ar1_def by metis
  have "fst (reap_round t (ac # acs) ar) = fst (account_reap t ac ar) # fst (reap_round t acs ar1)"
    by (simp add: ar1_def case_prod_beta Let_def)
  also have "\<dots> = (if idle_too_long t ar ac then closed_account ac else ac) #
      map (\<lambda>ac. if idle_too_long t ar1 ac then closed_account ac else ac) acs"
    using Cons.IH [OF rest] by (simp add: account_reap_exact)
  finally show ?case using same by simp
qed simp

lemma reap_round_steps:
  assumes "reap_round (vp_now s) acs (vp_arena s) = (acs', ar)" "vp_accounts s = front @ acs"
  shows "(vpn_step W)\<^sup>*\<^sup>* s (s\<lparr>vp_accounts := front @ acs', vp_arena := ar\<rparr>)"
  using assms
proof (induction acs arbitrary: s front acs')
  case (Cons ac acs)
  obtain ac1 ar1 acs1 where r: "account_reap (vp_now s) ac (vp_arena s) = (ac1, ar1)" "reap_round (vp_now s) acs ar1 = (acs1, ar)"
    "acs' = ac1 # acs1"
    using Cons.prems(1) by (auto split: prod.splits)
  let ?s1 = "s\<lparr>vp_accounts := (front @ [ac1]) @ acs, vp_arena := ar1\<rparr>"
  have "vpn_step W s ?s1"
    using vpn_step.reap [of "length front" s ac1 ar1 W] r(1) Cons.prems(2) by simp
  moreover have "(vpn_step W)\<^sup>*\<^sup>* ?s1 (?s1\<lparr>vp_accounts := (front @ [ac1]) @ acs1, vp_arena := ar\<rparr>)"
    by (rule Cons.IH) (use r(2) in simp_all)
  ultimately show ?case using r(3) by (simp add: converse_rtranclp_into_rtranclp)
next
  case Nil
  then have "s\<lparr>vp_accounts := front @ acs', vp_arena := ar\<rparr> = s" by (cases s) auto
  then show ?case by simp
qed



section \<open>The tunnels the accounts hold\<close>

text \<open>
  \<open>connected W acs ar\<close>: every live tunnel came out of a successful connect for the profile of one of
  the accounts.
\<close>

definition connected :: "('v, 'c) vpn_world \<Rightarrow> vpn_account list \<Rightarrow> 'v arena \<Rightarrow> bool" where
  "connected W acs ar \<longleftrightarrow>
     (\<forall>a l. ar_lives ar a = Some l \<longrightarrow>
        (\<exists>ac \<in> set acs. \<exists>timeout t. vw_connect W (ac_profile ac) timeout t = Inr (lv_tunnel l)))"

definition same_profile :: "vpn_account \<Rightarrow> vpn_account \<Rightarrow> bool" where
  "same_profile ac ac' \<longleftrightarrow> ac_profile ac' = ac_profile ac"

lemma account_live_connected:
  assumes "connected W acs ar" "ac \<in> set acs" "account_live W t ac ar = (r, ac', ar')"
  shows "connected W acs ar' \<and> same_profile ac ac'"
  using assms
  by (auto simp: account_live_def account_connect_def connected_def same_profile_def Let_def split: option.splits sum.splits if_splits)
    blast+

lemma account_warm_connected:
  "\<lbrakk>connected W acs ar; ac \<in> set acs; account_warm W t ac ar = (ac', ar')\<rbrakk> \<Longrightarrow> connected W acs ar' \<and> same_profile ac ac'"
  using account_live_connected [of W acs ar ac t "fst (account_live W t ac ar)" ac' ar'] by (simp add: account_warm_def prod_eq_iff)

lemma account_open_connected:
  assumes "connected W acs ar" "ac \<in> set acs" "account_open W t host port ac ar = (r, ac', ar')"
  shows "connected W acs ar' \<and> same_profile ac ac'"
proof -
  obtain r1 ac1 ar1 where l: "account_live W t ac ar = (r1, ac1, ar1)" by (metis prod_cases3)
  have up: "connected W acs (update_live a (\<lambda>l. l\<lparr>lv_connections := lv_connections l + 1\<rparr>) ar1)" if "connected W acs ar1" for a
    using that by (auto simp: connected_def)
  show ?thesis using account_live_connected [OF assms(1,2) l] assms(3) l up
    by (auto simp: account_open_def split: sum.splits option.splits)
qed

lemma account_reap_connected:
  assumes "connected W acs ar" "account_reap t ac ar = (ac', ar')"
  shows "connected W acs ar' \<and> same_profile ac ac'"
  using assms
  by (auto simp: account_reap_def connected_def same_profile_def idle_expired_def Let_def split: option.splits if_splits)

lemma connected_update:
  assumes "connected W acs ar" "i < length acs" "same_profile (acs ! i) ac"
  shows "connected W (acs[i := ac]) ar"
proof -
  have "ac_profile ` set (acs[i := ac]) = ac_profile ` set acs"
  proof -
    have "map ac_profile (acs[i := ac]) = map ac_profile acs"
      using assms(2,3) by (simp add: map_update same_profile_def list_update_same_conv)
    then show ?thesis by (metis set_map)
  qed
  then show ?thesis using assms(1) unfolding connected_def by (metis (no_types, lifting) image_iff)
qed

lemma vpn_step_connected:
  assumes "vpn_step W s s'" "connected W (vp_accounts s) (vp_arena s)"
  shows "connected W (vp_accounts s') (vp_arena s') \<and> map ac_profile (vp_accounts s') = map ac_profile (vp_accounts s)"
proof -
  have upd: "connected W ((vp_accounts s)[i := ac]) ar \<and> map ac_profile ((vp_accounts s)[i := ac]) = map ac_profile (vp_accounts s)"
    if "connected W (vp_accounts s) ar \<and> same_profile (vp_accounts s ! i) ac" "i < length (vp_accounts s)" for i ac ar
    using connected_update [of W "vp_accounts s" ar i ac] that by (simp add: map_update same_profile_def list_update_same_conv)
  from assms(1) show ?thesis
  proof cases
    case (warm i ac ar)
    then show ?thesis using upd [OF account_warm_connected [OF assms(2) nth_mem [OF warm(3)] warm(4)] warm(3)] by simp
  next
    case (dial i host port stream a ac ar)
    then show ?thesis using upd [OF account_open_connected [OF assms(2) nth_mem [OF dial(2)] dial(4)] dial(2)] by simp
  next
    case (dial_failed i host port err ac ar)
    then show ?thesis using upd [OF account_open_connected [OF assms(2) nth_mem [OF dial_failed(2)] dial_failed(4)] dial_failed(2)] by simp
  next
    case (close xs a ys)
    then show ?thesis using assms(2) by (auto simp: connected_def guard_drop_def drop_live_def Let_def)
  next
    case (reap i ac ar)
    then show ?thesis using upd [OF account_reap_connected [OF assms(2) reap(3)] reap(2)] by simp
  qed (use assms(2) in auto)
qed

text \<open>
  The tunnels the VPN accounts work with are fit for use. Let connecting be the OpenVPN client's
  connect (whatever the network, the TLS library and the random numbers are; an attempt that fails,
  panics or hangs gives no tunnel). Then in every state the tasks can reach, every live tunnel, also one
  that its account has already given up while connections still use it, has data keys in both directions,
  of the length its cipher needs and for the digest of an account's profile, and its cipher is one the
  server has pushed or the one of that profile.
\<close>

theorem live_tunnels_have_keys:
  assumes "\<forall>p timeout t tn. vw_connect W p timeout t = Inr tn \<longrightarrow> tunnel_connect S B C (D t) p = Returns tn"
    and "(vpn_step W)\<^sup>*\<^sup>* (vpn_start acs t0 pools h) s" "ar_lives (vp_arena s) a = Some l"
  shows "\<exists>ac \<in> set acs. \<exists>reply keys. ct_keys (tn_control (lv_tunnel l)) = Some keys \<and>
    tn_cipher (lv_tunnel l) = (case pu_cipher (parse_push reply) of Some c \<Rightarrow> c | None \<Rightarrow> prof_cipher (ac_profile ac)) \<and>
    list_all (\<lambda>k. dc_cipher k = tn_cipher (lv_tunnel l) \<and> dc_auth k = prof_auth (ac_profile ac) \<and>
        length (dc_key k) = key_len (tn_cipher (lv_tunnel l))) [ky_encrypt keys, ky_decrypt keys]"
proof -
  have "connected W (vp_accounts s) (vp_arena s) \<and> map ac_profile (vp_accounts s) = map ac_profile acs"
    using assms(2)
  proof (induction rule: rtranclp_induct)
    case base
    then show ?case by (simp add: vpn_start_def connected_def)
  next
    case (step s1 s2)
    then show ?case using vpn_step_connected [of W s1 s2] by simp
  qed
  then obtain ac timeout t where ac: "ac \<in> set (vp_accounts s)" "vw_connect W (ac_profile ac) timeout t = Inr (lv_tunnel l)"
    and same: "set (map ac_profile (vp_accounts s)) = set (map ac_profile acs)"
    using assms(3) unfolding connected_def by metis
  obtain ac' where "ac' \<in> set acs" "tunnel_connect S B C (D t) (ac_profile ac') = Returns (lv_tunnel l)"
  proof -
    have "ac_profile ac \<in> set (map ac_profile acs)" using same ac(1) by (metis imageI list.set_map)
    then obtain ac' where "ac' \<in> set acs" "ac_profile ac' = ac_profile ac" by auto
    moreover have "tunnel_connect S B C (D t) (ac_profile ac) = Returns (lv_tunnel l)"
      using assms(1) [rule_format, OF ac(2)] .
    ultimately show thesis by (intro that [of ac']) simp_all
  qed
  with tunnel_settings [OF this(2)] show ?thesis by blast
qed

end
