(* ===== verification/Geo.thy ===== *)
theory Geo
  imports Rust_Str
begin

text \<open>
  The lookup of an exit address's provider and country (\<open>src/geo.rs\<close>) with its two caches, and the
  rotation of browser profiles that every new HTTP client takes part in (\<open>src/emulation.rs\<close>). The
  HTTP client, the JSON reader and the LRU maps are parameters. Time is in milliseconds.
\<close>

section \<open>Browser profiles\<close>

datatype browser = Chrome136 | Chrome131 | Edge134 | Firefox135 | Safari26 | OkHttp5

definition PROFILES :: "browser list" where
  "PROFILES = [Chrome136, Chrome131, Edge134, Firefox135, Safari26, OkHttp5]"

definition emulation_next :: "u64 \<Rightarrow> browser \<times> u64" where
  "emulation_next n = (PROFILES ! (unat n mod length PROFILES), n + 1)"

section \<open>Lookups\<close>

record lookup =
  lk_isp :: string
  lk_country :: string

definition lookup_default :: lookup where
  "lookup_default = \<lparr>lk_isp = [], lk_country = []\<rparr>"

definition LOOKUP_TIMEOUT :: nat where [consts_defs]: "LOOKUP_TIMEOUT = 3000"

definition DEFAULT_BASE :: string where
  "DEFAULT_BASE = ''https://ipwho.is''"

text \<open>
  \<open>serde_json::Value\<close>: parsing, indexing by a key (\<open>Null\<close> when there is none), and the two
  conversions. A reply of the service is its status and, if it can be read, its text.
\<close>

record 'j json =
  js_parse :: "string \<Rightarrow> 'j option"
  js_index :: "string \<Rightarrow> 'j \<Rightarrow> 'j"
  js_str :: "'j \<Rightarrow> string option"
  js_bool :: "'j \<Rightarrow> bool option"

datatype geo_reply = BuildFailed | SendFailed | Reply nat "string option"

text \<open>
  \<open>gw_get\<close>: the reply to a GET by a client of the given profile at a time, and how long it took.
  \<open>LruCache::get\<close> moves the entry to the front, so it returns the cache too.
\<close>

record ('j, 'c) geo_world =
  gw_json :: "'j json"
  gw_get :: "browser \<Rightarrow> string \<Rightarrow> nat \<Rightarrow> geo_reply \<times> nat"
  gw_lru_get :: "string \<Rightarrow> 'c \<Rightarrow> string option \<times> 'c"
  gw_lru_put :: "string \<Rightarrow> string \<Rightarrow> 'c \<Rightarrow> 'c"

record 'c geo =
  ge_isp :: 'c
  ge_country :: 'c
  ge_base :: string
  ge_emulation :: u64
  ge_now :: nat

definition str_or_empty :: "'j json \<Rightarrow> 'j \<Rightarrow> string" where
  "str_or_empty J v = (case js_str J v of Some s \<Rightarrow> s | None \<Rightarrow> [])"

definition isp_of :: "'j json \<Rightarrow> 'j \<Rightarrow> string" where
  "isp_of J body =
     (let isp = str_or_empty J (js_index J ''isp'' (js_index J ''connection'' body)) in
      if isp = [] then str_or_empty J (js_index J ''org'' (js_index J ''connection'' body)) else isp)"

definition country_of :: "'j json \<Rightarrow> 'j \<Rightarrow> string" where
  "country_of J body =
     (if js_bool J (js_index J ''success'' body) = Some True
      then
        let code = to_ascii_uppercase (trim (str_or_empty J (js_index J ''country_code'' body))) in
        if length code = 2 \<and> list_all is_ascii_upper code then code else []
      else [])"

definition fetch_reply :: "'j json \<Rightarrow> geo_reply \<Rightarrow> lookup option" where
  "fetch_reply J r =
     (case r of
        Reply status (Some body_text) \<Rightarrow>
          if status \<noteq> 200 then None
          else map_option (\<lambda>body. \<lparr>lk_isp = isp_of J body, lk_country = country_of J body\<rparr>) (js_parse J body_text)
      | _ \<Rightarrow> None)"

definition fetch_uncached :: "('j, 'c) geo_world \<Rightarrow> string \<Rightarrow> 'c geo \<Rightarrow> (lookup option \<times> nat) \<times> 'c geo" where
  "fetch_uncached G ip g =
     (let (profile, n) = emulation_next (ge_emulation g);
          (r, took) = gw_get G profile (ge_base g @ ''/'' @ ip) (ge_now g) in
      ((fetch_reply (gw_json G) r, took), g\<lparr>ge_emulation := n\<rparr>))"

definition remember :: "('j, 'c) geo_world \<Rightarrow> string \<Rightarrow> lookup \<Rightarrow> 'c geo \<Rightarrow> 'c geo" where
  "remember G ip r g =
     (let g = (if lk_isp r \<noteq> [] then g\<lparr>ge_isp := gw_lru_put G ip (lk_isp r) (ge_isp g)\<rparr> else g) in
      if lk_country r \<noteq> [] then g\<lparr>ge_country := gw_lru_put G ip (lk_country r) (ge_country g)\<rparr> else g)"

text \<open>A fetch that takes longer than the timeout is given up there and leaves the caches alone.\<close>

definition lookup_within :: "('j, 'c) geo_world \<Rightarrow> nat \<Rightarrow> string \<Rightarrow> 'c geo \<Rightarrow> lookup \<times> 'c geo" where
  "lookup_within G timeout ip g =
     (if ip = [] then (lookup_default, g)
      else
        let (cached_isp, isps) = gw_lru_get G ip (ge_isp g);
            (cached_country, countries) = gw_lru_get G ip (ge_country g);
            g = g\<lparr>ge_isp := isps, ge_country := countries\<rparr> in
        case (cached_isp, cached_country) of
          (Some isp, Some country) \<Rightarrow> (\<lparr>lk_isp = isp, lk_country = country\<rparr>, g)
        | _ \<Rightarrow>
            let ((r, took), g) = fetch_uncached G ip g in
            if timeout < took then (lookup_default, g\<lparr>ge_now := ge_now g + timeout\<rparr>)
            else
              let g = g\<lparr>ge_now := ge_now g + took\<rparr> in
              (case r of None \<Rightarrow> (lookup_default, g) | Some r \<Rightarrow> (r, remember G ip r g)))"

section \<open>What is cached\<close>

text \<open>
  What the code relies on of the LRU maps, through the entries a map holds: reading gives the
  entry, a new entry can be read, and putting one may drop others but makes up none.
\<close>

definition lru_laws :: "('j, 'c) geo_world \<Rightarrow> ('c \<Rightarrow> string \<Rightarrow> string option) \<Rightarrow> bool" where
  "lru_laws G entries \<longleftrightarrow>
     (\<forall>k c. fst (gw_lru_get G k c) = entries c k \<and> entries (snd (gw_lru_get G k c)) = entries c) \<and>
     (\<forall>k v c. entries (gw_lru_put G k v c) k = Some v \<and> entries (gw_lru_put G k v c) \<subseteq>\<^sub>m (entries c)(k \<mapsto> v))"

definition is_country :: "string \<Rightarrow> bool" where
  "is_country s \<longleftrightarrow> length s = 2 \<and> list_all is_ascii_upper s"

definition geo_ok :: "('c \<Rightarrow> string \<Rightarrow> string option) \<Rightarrow> 'c geo \<Rightarrow> bool" where
  "geo_ok entries g \<longleftrightarrow> (\<forall>k v. entries (ge_isp g) k = Some v \<longrightarrow> v \<noteq> []) \<and>
     (\<forall>k v. entries (ge_country g) k = Some v \<longrightarrow> is_country v)"

lemma lru_get:
  assumes "lru_laws G entries" "gw_lru_get G k c = (v, c')"
  shows "v = entries c k" "entries c' = entries c"
proof -
  have "fst (gw_lru_get G k c) = entries c k \<and> entries (snd (gw_lru_get G k c)) = entries c"
    using assms(1) unfolding lru_laws_def by blast
  with assms(2) show "v = entries c k" "entries c' = entries c" by simp_all
qed

lemma lru_put:
  assumes "lru_laws G entries"
  shows "entries (gw_lru_put G k v c) k = Some v"
    "entries (gw_lru_put G k v c) k' = Some w \<Longrightarrow> k' \<noteq> k \<Longrightarrow> entries c k' = Some w"
proof -
  have l: "entries (gw_lru_put G k v c) k = Some v \<and> entries (gw_lru_put G k v c) \<subseteq>\<^sub>m (entries c)(k \<mapsto> v)"
    using assms unfolding lru_laws_def by blast
  then show "entries (gw_lru_put G k v c) k = Some v" ..
  assume "entries (gw_lru_put G k v c) k' = Some w" "k' \<noteq> k"
  with l have "((entries c)(k \<mapsto> v)) k' = Some w" by (metis domI map_le_def)
  with \<open>k' \<noteq> k\<close> show "entries c k' = Some w" by simp
qed

lemma lru_put_all:
  assumes "lru_laws G entries" "\<forall>k v. entries c k = Some v \<longrightarrow> P v" "P v"
  shows "\<forall>k' w. entries (gw_lru_put G k v c) k' = Some w \<longrightarrow> P w"
  using assms(2,3) lru_put [OF assms(1)] by (metis option.inject)

lemma country_of_ok: "country_of J body = [] \<or> is_country (country_of J body)"
  by (simp add: country_of_def is_country_def Let_def)

lemma fetch_reply_country: "fetch_reply J r = Some l \<Longrightarrow> lk_country l = [] \<or> is_country (lk_country l)"
  using country_of_ok by (fastforce simp: fetch_reply_def split: geo_reply.splits option.splits if_splits)

lemma remember_ok:
  assumes laws: "lru_laws G entries" and "geo_ok entries g" "lk_country r = [] \<or> is_country (lk_country r)"
  shows "geo_ok entries (remember G ip r g)"
proof -
  have isp: "\<forall>k v. entries (ge_isp g) k = Some v \<longrightarrow> v \<noteq> []" and country: "\<forall>k v. entries (ge_country g) k = Some v \<longrightarrow> is_country v"
    using assms(2) by (simp_all add: geo_ok_def)
  note put_isp = lru_put_all [OF laws isp] and put_country = lru_put_all [OF laws country]
  show ?thesis using isp country put_isp put_country assms(3) by (auto simp: remember_def Let_def geo_ok_def)
qed

text \<open>The cases of a lookup: answered from the caches, given up, or fetched.\<close>

lemma lookup_within_cases:
  assumes laws: "lru_laws G entries" and ip: "ip \<noteq> []" and l: "lookup_within G timeout ip g = (r, g')"
  obtains (cached) isp country where "entries (ge_isp g) ip = Some isp" "entries (ge_country g) ip = Some country"
      "r = \<lparr>lk_isp = isp, lk_country = country\<rparr>" "ge_now g' = ge_now g" "ge_emulation g' = ge_emulation g"
      "entries (ge_isp g') = entries (ge_isp g)" "entries (ge_country g') = entries (ge_country g)"
    | (failed) "r = lookup_default" "ge_now g \<le> ge_now g'" "ge_now g' \<le> ge_now g + timeout"
      "entries (ge_isp g') = entries (ge_isp g)" "entries (ge_country g') = entries (ge_country g)"
    | (fetched) g1 reply where "fetch_reply (gw_json G) reply = Some r" "g' = remember G ip r g1"
      "ge_now g \<le> ge_now g1" "ge_now g1 \<le> ge_now g + timeout"
      "entries (ge_isp g1) = entries (ge_isp g)" "entries (ge_country g1) = entries (ge_country g)"
proof -
  obtain vi ci where i: "gw_lru_get G ip (ge_isp g) = (vi, ci)" by fastforce
  obtain vc cc where c: "gw_lru_get G ip (ge_country g) = (vc, cc)" by fastforce
  note gi = lru_get [OF laws i] and gc = lru_get [OF laws c]
  define g0 where "g0 = g\<lparr>ge_isp := ci, ge_country := cc\<rparr>"
  show ?thesis
  proof (cases "\<exists>isp country. vi = Some isp \<and> vc = Some country")
    case True
    then show ?thesis using l ip i c gi gc cached by (auto simp: lookup_within_def)
  next
    case False
    obtain fr took g1 where f: "fetch_uncached G ip g0 = ((fr, took), g1)" by (metis prod.collapse)
    obtain profile n where pn: "emulation_next (ge_emulation g) = (profile, n)" by fastforce
    obtain reply tk where q: "gw_get G profile (ge_base g @ ''/'' @ ip) (ge_now g) = (reply, tk)" by fastforce
    have f': "fr = fetch_reply (gw_json G) reply" "took = tk" "g1 = g0\<lparr>ge_emulation := n\<rparr>"
      using f pn q by (simp_all add: fetch_uncached_def g0_def)
    have lw: "lookup_within G timeout ip g =
        (if timeout < took then (lookup_default, g1\<lparr>ge_now := ge_now g1 + timeout\<rparr>)
         else case fr of None \<Rightarrow> (lookup_default, g1\<lparr>ge_now := ge_now g1 + took\<rparr>)
           | Some r \<Rightarrow> (r, remember G ip r (g1\<lparr>ge_now := ge_now g1 + took\<rparr>)))"
      using ip i c f False by (cases vi; cases vc) (simp_all add: lookup_within_def g0_def [symmetric] Let_def)
    show ?thesis
    proof (cases "timeout < took \<or> fr = None")
      case True
      define d where "d = min timeout took"
      have "r = lookup_default" "g' = g1\<lparr>ge_now := ge_now g1 + d\<rparr>"
        using True l lw by (auto simp: d_def split: if_splits)
      moreover have "d \<le> timeout" by (simp add: d_def)
      ultimately show ?thesis using f'(3) gi gc by (intro failed) (simp_all add: g0_def)
    next
      case False
      then obtain r' where "fr = Some r'" by blast
      then have "r = r'" "g' = remember G ip r (g1\<lparr>ge_now := ge_now g1 + took\<rparr>)" "took \<le> timeout"
        using l lw False by auto
      then show ?thesis using \<open>fr = Some r'\<close> f' gi gc
        by (intro fetched [of reply "g1\<lparr>ge_now := ge_now g1 + took\<rparr>"]) (simp_all add: g0_def)
    qed
  qed
qed

lemma remember_now [simp]: "ge_now (remember G ip r g) = ge_now g"
  by (simp add: remember_def Let_def)

text \<open>
  C37: whatever the lookup service answers, a lookup names no country or one of two capital
  letters, it takes no longer than its timeout, and it caches no empty provider and no malformed
  country. \<open>lru_laws\<close> states how an LRU map behaves.
\<close>

theorem geo_lookup_wellformed:
  assumes "lru_laws G entries" "geo_ok entries g" "lookup_within G timeout ip g = (r, g')"
  shows "geo_ok entries g' \<and> (lk_country r = [] \<or> is_country (lk_country r)) \<and>
    ge_now g \<le> ge_now g' \<and> ge_now g' \<le> ge_now g + timeout"
proof (cases "ip = []")
  case True
  then show ?thesis using assms by (auto simp: lookup_within_def lookup_default_def)
next
  case False
  from assms(1) False assms(3) show ?thesis
  proof (cases rule: lookup_within_cases)
    case (cached isp country)
    then show ?thesis using assms(2) by (simp add: geo_ok_def)
  next
    case failed
    then show ?thesis using assms(2) by (simp add: geo_ok_def lookup_default_def)
  next
    case (fetched g1 reply)
    then have "geo_ok entries g1" using assms(2) by (simp add: geo_ok_def)
    then show ?thesis using fetched remember_ok [OF assms(1)] fetch_reply_country [OF fetched(1)] by simp
  qed
qed

text \<open>
  A complete lookup is made once: after a lookup that gave a provider and a country, the same
  lookup gives the same answer from the caches, without a request (no profile is used) and
  without waiting.
\<close>

theorem geo_lookup_cached:
  assumes laws: "lru_laws G entries" and l: "lookup_within G timeout ip g = (r, g')"
    and "lk_isp r \<noteq> []" "lk_country r \<noteq> []"
  shows "\<exists>g''. lookup_within G timeout' ip g' = (r, g'') \<and> ge_emulation g'' = ge_emulation g' \<and> ge_now g'' = ge_now g'"
proof -
  have ip: "ip \<noteq> []" using l assms(3) by (auto simp: lookup_within_def lookup_default_def)
  have e: "entries (ge_isp g') ip = Some (lk_isp r) \<and> entries (ge_country g') ip = Some (lk_country r)"
    using laws ip l
  proof (cases rule: lookup_within_cases)
    case (fetched g1 reply)
    then show ?thesis using assms(3,4) lru_put(1) [OF laws] by (simp add: remember_def Let_def)
  qed (use assms(3) in \<open>auto simp: lookup_default_def\<close>)
  obtain r2 g2 where l2: "lookup_within G timeout' ip g' = (r2, g2)" by fastforce
  obtain vi ci where i: "gw_lru_get G ip (ge_isp g') = (vi, ci)" by fastforce
  obtain vc cc where c: "gw_lru_get G ip (ge_country g') = (vc, cc)" by fastforce
  show ?thesis using ip i c e lru_get [OF laws i] lru_get [OF laws c] by (simp add: lookup_within_def)
qed

text \<open>A service that always answers, and caches that keep everything.\<close>

definition demo_json :: "string json" where
  "demo_json =
     \<lparr>js_parse = Some, js_index = (\<lambda>k v. if k = ''country_code'' then ''sg'' else k), js_str = Some,
      js_bool = (\<lambda>v. Some True)\<rparr>"

definition demo_geo_world :: "(string, string \<Rightarrow> string option) geo_world" where
  "demo_geo_world =
     \<lparr>gw_json = demo_json, gw_get = (\<lambda>profile url now. (Reply 200 (Some ''{}''), 40)),
      gw_lru_get = (\<lambda>k c. (c k, c)), gw_lru_put = (\<lambda>k v c. c(k \<mapsto> v))\<rparr>"

definition demo_geo :: "(string \<Rightarrow> string option) geo" where
  "demo_geo = \<lparr>ge_isp = Map.empty, ge_country = Map.empty, ge_base = DEFAULT_BASE, ge_emulation = 0, ge_now = 0\<rparr>"

lemma demo_geo_laws: "lru_laws demo_geo_world (\<lambda>c. c)"
  by (simp add: lru_laws_def demo_geo_world_def)

lemma demo_geo_lookup:
  "\<exists>g'. lookup_within demo_geo_world LOOKUP_TIMEOUT ''1.2.3.4'' demo_geo = (\<lparr>lk_isp = ''isp'', lk_country = ''SG''\<rparr>, g')"
proof -
  have "trim ''sg'' = ''sg''" by (simp add: trim_graphic graphic_def)
  moreover have "to_ascii_uppercase ''sg'' = ''SG''" by code_simp
  ultimately have "to_ascii_uppercase (trim ''sg'') = ''SG''" by simp
  then have "country_of demo_json ''{}'' = ''SG''" "isp_of demo_json ''{}'' = ''isp''"
    by (simp_all add: country_of_def isp_of_def demo_json_def str_or_empty_def is_ascii_upper_def Let_def)
  then show ?thesis
    by (simp add: lookup_within_def demo_geo_def demo_geo_world_def fetch_uncached_def fetch_reply_def
        emulation_next_def LOOKUP_TIMEOUT_def Let_def) (simp add: demo_json_def)
qed

theorem geo_lookup_wellformed_witness:
  "\<exists>r g'. lookup_within demo_geo_world LOOKUP_TIMEOUT ''1.2.3.4'' demo_geo = (r, g') \<and> is_country (lk_country r) \<and>
     geo_ok (\<lambda>c. c) g'"
proof -
  obtain g' where g': "lookup_within demo_geo_world LOOKUP_TIMEOUT ''1.2.3.4'' demo_geo =
      (\<lparr>lk_isp = ''isp'', lk_country = ''SG''\<rparr>, g')" using demo_geo_lookup by blast
  have "geo_ok (\<lambda>c. c) demo_geo" by (simp add: geo_ok_def demo_geo_def)
  from geo_lookup_wellformed [OF demo_geo_laws this g'] g' show ?thesis by auto
qed

theorem geo_lookup_cached_witness:
  "\<exists>r g' g''. lookup_within demo_geo_world LOOKUP_TIMEOUT ''1.2.3.4'' demo_geo = (r, g') \<and>
     lookup_within demo_geo_world LOOKUP_TIMEOUT ''1.2.3.4'' g' = (r, g'') \<and> ge_emulation g'' = ge_emulation g'"
proof -
  obtain g' where g': "lookup_within demo_geo_world LOOKUP_TIMEOUT ''1.2.3.4'' demo_geo =
      (\<lparr>lk_isp = ''isp'', lk_country = ''SG''\<rparr>, g')" using demo_geo_lookup by blast
  from geo_lookup_cached [OF demo_geo_laws g', of LOOKUP_TIMEOUT] g' show ?thesis by auto
qed

end
