(* ===== verification/Upstream.thy ===== *)
theory Upstream
  imports Proxy_Server Geo
begin

text \<open>
  The forwarder: a request is sent upstream through a ready exit of a pool, and a failed GET or
  HEAD is retried through another one (\<open>src/upstream.rs\<close>, \<open>src/forward.rs\<close>).
  Time is in milliseconds. The HTTP client library, the tunnels and the clock's jitter are the
  parameters of the record \<open>agent\<close>.
\<close>

section \<open>The rotating transport\<close>

definition MAX_ATTEMPTS :: nat where [consts_defs]: "MAX_ATTEMPTS = 6"
definition READY_TIMEOUT :: nat where [consts_defs]: "READY_TIMEOUT = 40000"

datatype upstream_error = NoUpstream | RequestFailed string

fun upstream_text :: "upstream_error \<Rightarrow> string" where
  "upstream_text NoUpstream = ''no upstream proxies available''"
| "upstream_text (RequestFailed e) = ''upstream request failed: '' @ e"

record 'w cached_client =
  cc_generation :: u64
  cc_client :: 'w

record transport =
  tr_pool :: pool_addr
  tr_protocol :: "protocol option"

text \<open>What is sent: the request with its body, and the group that separates connection pools.\<close>

record 'h outgoing =
  og_method :: string
  og_uri :: string
  og_headers :: 'h
  og_group :: string
  og_body :: string

text \<open>
  The parameters: a tunnel's readiness, generation and proxy address at a time; \<open>Proxy::all\<close>;
  building a client; sending (the answer, and how long it took); how much longer than 200 ms a
  sleep took; and how deep pools are nested.
\<close>

record ('t, 'p, 'w, 'h) agent =
  ag_is_ready :: "nat \<Rightarrow> 't \<Rightarrow> bool"
  ag_generation :: "nat \<Rightarrow> 't \<Rightarrow> u64"
  ag_proxy_url :: "nat \<Rightarrow> 't \<Rightarrow> string option"
  ag_proxy :: "string \<Rightarrow> string + 'p"
  ag_build :: "browser \<Rightarrow> 'p \<Rightarrow> string + 'w"
  ag_send :: "'w \<Rightarrow> 'h outgoing \<Rightarrow> nat \<Rightarrow> (string + 'h response) \<times> nat"
  ag_lag :: "nat \<Rightarrow> nat"
  ag_depth :: nat

text \<open>
  The state the transport works on: the pools, the clock, the static client cache and the profile
  counter. \<open>uw_sent\<close> is the trace of what left the program, with the key of the exit.
\<close>

record ('t, 'w, 'h) upworld =
  uw_heap :: "'t heap"
  uw_now :: nat
  uw_clients :: "string \<Rightarrow> 'w cached_client option"
  uw_emulation :: u64
  uw_sent :: "(string \<times> 'h outgoing) list"

definition build_client ::
  "('t, 'p, 'w, 'h) agent \<Rightarrow> 't candidate \<Rightarrow> ('t, 'w, 'h) upworld \<Rightarrow>
   (upstream_error + 'w) \<times> ('t, 'w, 'h) upworld" where
  "build_client A c uw =
     (case ag_proxy_url A (uw_now uw) (c_tunnel c) of
        None \<Rightarrow> (Inl NoUpstream, uw)
      | Some url \<Rightarrow>
          (case ag_proxy A url of
             Inl e \<Rightarrow> (Inl (RequestFailed e), uw)
           | Inr proxy \<Rightarrow>
               let (profile, n) = emulation_next (uw_emulation uw); uw = uw\<lparr>uw_emulation := n\<rparr> in
               (case ag_build A profile proxy of
                  Inl e \<Rightarrow> (Inl (RequestFailed e), uw)
                | Inr w \<Rightarrow>
                    (Inr w,
                     uw\<lparr>uw_clients := (uw_clients uw)(c_key c \<mapsto>
                       \<lparr>cc_generation = ag_generation A (uw_now uw) (c_tunnel c), cc_client = w\<rparr>)\<rparr>))))"

definition client_for ::
  "('t, 'p, 'w, 'h) agent \<Rightarrow> 't candidate \<Rightarrow> ('t, 'w, 'h) upworld \<Rightarrow>
   (upstream_error + 'w) \<times> ('t, 'w, 'h) upworld" where
  "client_for A c uw =
     (case uw_clients uw (c_key c) of
        Some cached \<Rightarrow>
          if cc_generation cached = ag_generation A (uw_now uw) (c_tunnel c) then (Inr (cc_client cached), uw)
          else build_client A c uw
      | None \<Rightarrow> build_client A c uw)"

definition evict :: "string \<Rightarrow> ('t, 'w, 'h) upworld \<Rightarrow> ('t, 'w, 'h) upworld" where
  "evict key uw = uw\<lparr>uw_clients := (uw_clients uw)(key := None)\<rparr>"

text \<open>One round of \<open>ready_candidate\<close>: exits that were not tried yet come first.\<close>

definition choose_exit :: "('t \<Rightarrow> bool) \<Rightarrow> string list \<Rightarrow> 't candidate list \<Rightarrow> 't candidate option" where
  "choose_exit rdy skip found =
     (let untried = filter (\<lambda>c. c_key c \<notin> set skip) found in
      find (\<lambda>c. rdy (c_tunnel c)) (if untried = [] then found else untried))"

definition ask_pool ::
  "('t, 'p, 'w, 'h) agent \<Rightarrow> transport \<Rightarrow> 't heap \<Rightarrow> ('t candidate list \<times> 't heap) option" where
  "ask_pool A tr h =
     (case tr_protocol tr of
        Some protocol \<Rightarrow> candidates_for (ag_depth A) h (tr_pool tr) protocol
      | None \<Rightarrow> candidates (ag_depth A) h (tr_pool tr))"

function ready_until ::
  "('t, 'p, 'w, 'h) agent \<Rightarrow> transport \<Rightarrow> nat \<Rightarrow> string list \<Rightarrow> ('t, 'w, 'h) upworld \<Rightarrow>
   ((upstream_error + 't candidate) \<times> ('t, 'w, 'h) upworld) option" where
  "ready_until A tr deadline skip uw =
     (if deadline \<le> uw_now uw then Some (Inl NoUpstream, uw)
      else
        case ask_pool A tr (uw_heap uw) of
          None \<Rightarrow> None
        | Some (found, h) \<Rightarrow>
            if found = [] then Some (Inl NoUpstream, uw\<lparr>uw_heap := h\<rparr>)
            else
              (case choose_exit (ag_is_ready A (uw_now uw)) skip found of
                 Some c \<Rightarrow> Some (Inr c, uw\<lparr>uw_heap := h\<rparr>)
               | None \<Rightarrow>
                   ready_until A tr deadline skip
                     (uw\<lparr>uw_heap := h, uw_now := uw_now uw + 200 + ag_lag A (uw_now uw)\<rparr>)))"
  by pat_completeness auto
termination
  by (relation "measure (\<lambda>(A, tr, deadline, skip, uw). deadline - uw_now uw)") auto

declare ready_until.simps [simp del]

definition ready_candidate ::
  "('t, 'p, 'w, 'h) agent \<Rightarrow> transport \<Rightarrow> string list \<Rightarrow> ('t, 'w, 'h) upworld \<Rightarrow>
   ((upstream_error + 't candidate) \<times> ('t, 'w, 'h) upworld) option" where
  "ready_candidate A tr skip uw = ready_until A tr (uw_now uw + READY_TIMEOUT) skip uw"

definition send_through ::
  "('t, 'p, 'w, 'h) agent \<Rightarrow> string \<Rightarrow> 'w \<Rightarrow> 'h outgoing \<Rightarrow> ('t, 'w, 'h) upworld \<Rightarrow>
   (upstream_error + 'h response) \<times> ('t, 'w, 'h) upworld" where
  "send_through A key w og uw =
     (let (r, took) = ag_send A w og (uw_now uw) in
      (case r of Inl e \<Rightarrow> Inl (RequestFailed e) | Inr response \<Rightarrow> Inr response,
       uw\<lparr>uw_now := uw_now uw + took, uw_sent := uw_sent uw @ [(key, og)]\<rparr>))"

text \<open>
  The loop of \<open>request\<close>: \<open>body\<close> is taken by the first attempt that sends; later ones send an
  empty body. A client that cannot be built costs an attempt but is not remembered as tried.
\<close>

fun attempts ::
  "('t, 'p, 'w, 'h) agent \<Rightarrow> transport \<Rightarrow> nat \<Rightarrow> 'h outgoing \<Rightarrow> string option \<Rightarrow> string list \<Rightarrow>
   upstream_error option \<Rightarrow> ('t, 'w, 'h) upworld \<Rightarrow>
   ((upstream_error + 't candidate \<times> 'h response) \<times> ('t, 'w, 'h) upworld) option" where
  "attempts A tr 0 og body tried previous uw =
     Some (Inl (case previous of Some e \<Rightarrow> e | None \<Rightarrow> NoUpstream), uw)"
| "attempts A tr (Suc k) og body tried previous uw =
     (case ready_candidate A tr tried uw of
        None \<Rightarrow> None
      | Some (Inl err, uw) \<Rightarrow> Some (Inl (case previous of Some e \<Rightarrow> e | None \<Rightarrow> err), uw)
      | Some (Inr c, uw) \<Rightarrow>
          (case client_for A c uw of
             (Inl err, uw) \<Rightarrow> attempts A tr k og body tried (Some err) uw
           | (Inr w, uw) \<Rightarrow>
               let payload = (case body of Some b \<Rightarrow> b | None \<Rightarrow> []) in
               (case send_through A (c_key c) w (og\<lparr>og_body := payload\<rparr>) uw of
                  (Inr response, uw) \<Rightarrow> Some (Inr (c, response), uw)
                | (Inl err, uw) \<Rightarrow>
                    attempts A tr k og None (tried @ [c_key c]) (Some err) (evict (c_key c) uw))))"

definition retryable :: "string \<Rightarrow> bool" where
  "retryable m \<longleftrightarrow> m = ''GET'' \<or> m = ''HEAD''"

definition attempts_for :: "string \<Rightarrow> nat" where
  "attempts_for m = (if retryable m then MAX_ATTEMPTS else 1)"

definition transport_request ::
  "('t, 'p, 'w, 'h) agent \<Rightarrow> transport \<Rightarrow> 'h outgoing \<Rightarrow> ('t, 'w, 'h) upworld \<Rightarrow>
   ((upstream_error + 't candidate \<times> 'h response) \<times> ('t, 'w, 'h) upworld) option" where
  "transport_request A tr og uw = attempts A tr (attempts_for (og_method og)) og (Some (og_body og)) [] None uw"

section \<open>Forwarding a request\<close>

text \<open>
  \<open>WreqForward\<close> and its factory: a region's forwarder takes any exit of its pool, a protocol's
  forwarder only exits of that protocol.
\<close>

definition region_transport :: "pool_addr \<Rightarrow> transport" where
  "region_transport pool = \<lparr>tr_pool = pool, tr_protocol = None\<rparr>"

definition protocol_transport :: "protocol \<Rightarrow> pool_addr \<Rightarrow> transport" where
  "protocol_transport protocol pool = \<lparr>tr_pool = pool, tr_protocol = Some protocol\<rparr>"

definition default_transport :: "pool_addr \<Rightarrow> transport" where
  "default_transport pool = \<lparr>tr_pool = pool, tr_protocol = None\<rparr>"

text \<open>
  More parameters of a forwarder: \<open>http::Uri\<close> (parsing, its host, printing), Unicode lower-casing,
  header maps, the exit a tunnel names for a host, the exit cache and the lookup service.
\<close>

record ('t, 'p, 'w, 'h, 'u, 'l, 'j, 'c) gateway =
  gt_agent :: "('t, 'p, 'w, 'h) agent"
  gt_uri :: "string \<Rightarrow> 'u option"
  gt_uri_host :: "'u \<Rightarrow> string option"
  gt_uri_text :: "'u \<Rightarrow> string"
  gt_lower :: "string \<Rightarrow> string"
  gt_headers :: "'h header_map"
  gt_exit_for :: "nat \<Rightarrow> 't \<Rightarrow> string \<Rightarrow> exit"
  gt_lru :: "'l lru"
  gt_geo :: "('j, 'c) geo_world"

record ('t, 'w, 'h, 'l, 'c) forward_state =
  fs_up :: "('t, 'w, 'h) upworld"
  fs_exits :: 'l
  fs_isp :: 'c
  fs_country :: 'c
  fs_base :: string

definition outgoing_headers :: "'h header_map \<Rightarrow> string \<Rightarrow> 'h \<Rightarrow> 'h" where
  "outgoing_headers H host h =
     (let h = strip_hop_headers H (strip_client_headers H h) in
      if hm_value H host then hm_insert H ''host'' host h else h)"

text \<open>The lookup of the provider shares the clock and the profile counter with the transport.\<close>

definition lookup_isp ::
  "('t, 'p, 'w, 'h, 'u, 'l, 'j, 'c) gateway \<Rightarrow> string \<Rightarrow> ('t, 'w, 'h, 'l, 'c) forward_state \<Rightarrow>
   string \<times> ('t, 'w, 'h, 'l, 'c) forward_state" where
  "lookup_isp Y ip fs =
     (let uw = fs_up fs;
          (r, g) = lookup_within (gt_geo Y) LOOKUP_TIMEOUT ip
            \<lparr>ge_isp = fs_isp fs, ge_country = fs_country fs, ge_base = fs_base fs,
             ge_emulation = uw_emulation uw, ge_now = uw_now uw\<rparr> in
      (lk_isp r,
       fs\<lparr>fs_up := uw\<lparr>uw_emulation := ge_emulation g, uw_now := ge_now g\<rparr>, fs_isp := ge_isp g,
          fs_country := ge_country g\<rparr>))"

definition set_egress_headers ::
  "('t, 'p, 'w, 'h, 'u, 'l, 'j, 'c) gateway \<Rightarrow> exit option \<Rightarrow> 'h \<Rightarrow> ('t, 'w, 'h, 'l, 'c) forward_state \<Rightarrow>
   'h \<times> ('t, 'w, 'h, 'l, 'c) forward_state" where
  "set_egress_headers Y found h fs =
     (case found of
        None \<Rightarrow> (h, fs)
      | Some e \<Rightarrow>
          if ex_ip e = [] then (h, fs)
          else
            let H = gt_headers Y;
                h = (if hm_value H (ex_ip e) then hm_insert H ''x-unroxy-ip'' (ex_ip e) h else h);
                (isp, fs) = lookup_isp Y (ex_ip e) fs in
            (if isp \<noteq> [] \<and> hm_value H isp then hm_insert H ''x-unroxy-isp'' isp h else h, fs))"

definition outgoing_of ::
  "('t, 'p, 'w, 'h, 'u, 'l, 'j, 'c) gateway \<Rightarrow> 'h request \<Rightarrow> target \<Rightarrow> 'u \<Rightarrow> 'h outgoing" where
  "outgoing_of Y rq target uri =
     \<lparr>og_method = rq_method rq, og_uri = gt_uri_text Y uri,
      og_headers = outgoing_headers (gt_headers Y) (t_host target) (rq_headers rq),
      og_group = gt_lower Y (case gt_uri_host Y uri of Some host \<Rightarrow> host | None \<Rightarrow> []),
      og_body = rq_body rq\<rparr>"

definition forward_send ::
  "('t, 'p, 'w, 'h, 'u, 'l, 'j, 'c) gateway \<Rightarrow> transport \<Rightarrow> 'h request \<Rightarrow> target \<Rightarrow>
   ('t, 'w, 'h, 'l, 'c) forward_state \<Rightarrow> ((server_error + 'h response) \<times> ('t, 'w, 'h, 'l, 'c) forward_state) option" where
  "forward_send Y tr rq target fs =
     (case gt_uri Y (target_uri target) of
        None \<Rightarrow> Some (Inl MissingTarget, fs)
      | Some uri \<Rightarrow>
          (case transport_request (gt_agent Y) tr (outgoing_of Y rq target uri) (fs_up fs) of
             None \<Rightarrow> None
           | Some (Inl err, uw) \<Rightarrow> Some (Inl (ForwardError (upstream_text err)), fs\<lparr>fs_up := uw\<rparr>)
           | Some (Inr (c, response), uw) \<Rightarrow>
               let host = t_host target;
                   exits = exit_record (gt_lru Y) host (gt_exit_for Y (uw_now uw) (c_tunnel c) host) (fs_exits fs);
                   found = exit_get (gt_lru Y) host exits;
                   (h, fs) = set_egress_headers Y found (strip_hop_headers (gt_headers Y) (rs_headers response))
                     (fs\<lparr>fs_up := uw, fs_exits := exits\<rparr>) in
               Some (Inr (response\<lparr>rs_headers := h\<rparr>), fs)))"

section \<open>Choosing an exit\<close>

text \<open>
  What the transport needs of a pool: asking it names the exits it offers, and asking does not
  change what it offers.
\<close>

locale exit_source =
  fixes ask :: "'s \<Rightarrow> ('t candidate list \<times> 's) option"
    and offers :: "'s \<Rightarrow> string set"
  assumes ask_offers: "ask s = Some (found, s') \<Longrightarrow> c_key ` set found = offers s"
    and ask_keeps: "ask s = Some (found, s') \<Longrightarrow> offers s' = offers s"
begin

lemma chosen_spec:
  assumes "ask s = Some (found, s')" "choose_exit rdy skip found = Some c"
  shows "rdy (c_tunnel c) \<and> c_key c \<in> offers s \<and> (c_key c \<in> set skip \<longrightarrow> offers s \<subseteq> set skip)"
proof -
  let ?untried = "filter (\<lambda>c. c_key c \<notin> set skip) found"
  have c: "c \<in> set (if ?untried = [] then found else ?untried)" "rdy (c_tunnel c)"
    using assms(2) find_ready_Some by (fastforce simp: choose_exit_def Let_def)+
  then have "c \<in> set found" by (auto split: if_splits)
  moreover have "c_key c \<in> set skip \<longrightarrow> ?untried = []" using c(1) by (auto split: if_splits)
  ultimately show ?thesis using c(2) unfolding ask_offers [OF assms(1), symmetric] by (auto simp: filter_empty_conv)
qed

lemma empty_iff: "ask s = Some (found, s') \<Longrightarrow> found = [] \<longleftrightarrow> offers s = {}"
  using ask_offers by fastforce

end

abbreviation tr_keys :: "transport \<Rightarrow> 't heap \<Rightarrow> string set" where
  "tr_keys tr h \<equiv> pool_keys h (tr_pool tr) (tr_protocol tr)"

lemma ask_pool_filtered: "ask_pool A tr h = filtered (ag_depth A) h (tr_pool tr) (tr_protocol tr)"
  by (simp add: ask_pool_def candidates_def candidates_for_def split: option.splits)

interpretation ex: exit_source "ask_pool A tr" "tr_keys tr" for A tr
proof
  fix h found h'
  assume "ask_pool A tr h = Some (found, h')"
  then have f: "filtered (ag_depth A) h (tr_pool tr) (tr_protocol tr) = Some (found, h')"
    by (simp add: ask_pool_filtered)
  show "c_key ` set found = tr_keys tr h" by (rule filtered_pool_keys(1) [OF f])
  show "tr_keys tr h' = tr_keys tr h" by (rule pool_keys_shape [OF filtered_shape(1) [OF f]])
qed

section \<open>Waiting for an exit\<close>

text \<open>What \<open>ready_candidate\<close> leaves alone.\<close>

definition only_waited :: "('t, 'w, 'h) upworld \<Rightarrow> ('t, 'w, 'h) upworld \<Rightarrow> bool" where
  "only_waited uw uw' \<longleftrightarrow> same_shape (uw_heap uw) (uw_heap uw') \<and> uw_now uw \<le> uw_now uw' \<and>
     uw_clients uw' = uw_clients uw \<and> uw_emulation uw' = uw_emulation uw \<and> uw_sent uw' = uw_sent uw"

lemma only_waited_ask:
  assumes "ask_pool A tr (uw_heap uw) = Some (found, h)" "uw_now uw \<le> n"
  shows "only_waited uw (uw\<lparr>uw_heap := h, uw_now := n\<rparr>)" "only_waited uw (uw\<lparr>uw_heap := h\<rparr>)"
  using assms filtered_shape(1) [OF assms(1) [unfolded ask_pool_filtered]] by (simp_all add: only_waited_def)

lemma only_waited_trans: "only_waited a b \<Longrightarrow> only_waited b c \<Longrightarrow> only_waited a c"
  unfolding only_waited_def by (metis le_trans same_shape_trans)

lemma only_waited_keys: "only_waited a b \<Longrightarrow> tr_keys tr (uw_heap b) = tr_keys tr (uw_heap a)"
  unfolding only_waited_def using pool_keys_shape by blast

text \<open>
  The outcome of waiting: an exit that is ready now, untried if any is untried; or no exit, when the
  pool is empty or the deadline has passed. Sleeps that are at most \<open>L\<close> too long overrun it by one sleep.
\<close>

definition waited_ok ::
  "('t, 'p, 'w, 'h) agent \<Rightarrow> transport \<Rightarrow> nat \<Rightarrow> string list \<Rightarrow> string set \<Rightarrow> (upstream_error + 't candidate) \<Rightarrow> nat \<Rightarrow> bool"
where
  "waited_ok A tr deadline skip K res now \<longleftrightarrow>
     (case res of
        Inr c \<Rightarrow> ag_is_ready A now (c_tunnel c) \<and> c_key c \<in> K \<and> (c_key c \<in> set skip \<longrightarrow> K \<subseteq> set skip) \<and> now < deadline
      | Inl e \<Rightarrow> e = NoUpstream \<and> (K = {} \<or> deadline \<le> now))"

lemma ready_until_spec:
  assumes "ready_until A tr deadline skip uw = Some (res, uw')"
  shows "only_waited uw uw' \<and> waited_ok A tr deadline skip (tr_keys tr (uw_heap uw)) res (uw_now uw') \<and>
    ((\<forall>t. ag_lag A t \<le> L) \<longrightarrow> uw_now uw' \<le> max (uw_now uw) (deadline + 200 + L))"
  using assms
proof (induction A tr deadline skip uw rule: ready_until.induct)
  case (1 A tr deadline skip uw)
  note unfold = ready_until.simps [of A tr deadline skip uw]
  show ?case
  proof (cases "deadline \<le> uw_now uw")
    case True
    then show ?thesis using "1.prems" by (auto simp: unfold only_waited_def waited_ok_def)
  next
    case False
    then obtain found h where f: "ask_pool A tr (uw_heap uw) = Some (found, h)"
      using "1.prems" by (fastforce simp: unfold split: option.splits)
    show ?thesis
    proof (cases "found = [] \<or> choose_exit (ag_is_ready A (uw_now uw)) skip found \<noteq> None")
      case True
      then have "uw' = uw\<lparr>uw_heap := h\<rparr> \<and> waited_ok A tr deadline skip (tr_keys tr (uw_heap uw)) res (uw_now uw)"
        using False f "1.prems" ex.empty_iff [OF f]
          ex.chosen_spec [OF f, of "ag_is_ready A (uw_now uw)" skip]
        by (auto simp: unfold waited_ok_def split: if_splits)
      then show ?thesis using only_waited_ask(2) [OF f le_refl] by simp
    next
      case none: False
      let ?uw = "uw\<lparr>uw_heap := h, uw_now := uw_now uw + 200 + ag_lag A (uw_now uw)\<rparr>"
      have step: "only_waited uw ?uw" by (rule only_waited_ask(1) [OF f]) simp
      have "ready_until A tr deadline skip ?uw = Some (res, uw')"
        using False f none "1.prems" by (simp add: unfold)
      from "1.IH" [OF False f refl _ _ this] none
      have "only_waited ?uw uw' \<and> waited_ok A tr deadline skip (tr_keys tr (uw_heap ?uw)) res (uw_now uw') \<and>
        ((\<forall>t. ag_lag A t \<le> L) \<longrightarrow> uw_now uw' \<le> max (uw_now ?uw) (deadline + 200 + L))" by blast
      moreover have "uw_now ?uw \<le> deadline + 200 + L" if "\<forall>t. ag_lag A t \<le> L"
        using False that [rule_format, of "uw_now uw"] by simp
      ultimately show ?thesis
        using only_waited_trans [OF step, of uw'] only_waited_keys [OF step, of tr] by auto
    qed
  qed
qed

lemma ready_until_total:
  assumes "ranked r (uw_heap uw)" "uw_heap uw (tr_pool tr) \<noteq> None" "r (tr_pool tr) < ag_depth A"
  shows "ready_until A tr deadline skip uw \<noteq> None"
  using assms
proof (induction A tr deadline skip uw rule: ready_until.induct)
  case (1 A tr deadline skip uw)
  note unfold = ready_until.simps [of A tr deadline skip uw]
  obtain found h where f: "ask_pool A tr (uw_heap uw) = Some (found, h)"
    using filtered_total(1) [OF "1.prems", of "tr_protocol tr"] by (auto simp: ask_pool_filtered)
  note sh = filtered_shape(1) [OF f [unfolded ask_pool_filtered]]
  show ?case
  proof (cases "deadline \<le> uw_now uw \<or> found = [] \<or> choose_exit (ag_is_ready A (uw_now uw)) skip found \<noteq> None")
    case True
    then show ?thesis using f by (auto simp: unfold)
  next
    case False
    then have "ready_until A tr deadline skip (uw\<lparr>uw_heap := h, uw_now := uw_now uw + 200 + ag_lag A (uw_now uw)\<rparr>) \<noteq> None"
      using "1.prems" ranked_shape [OF sh] same_shape_None [OF sh] by (intro "1.IH" [OF _ f refl]) auto
    then show ?thesis using f False by (simp add: unfold)
  qed
qed

section \<open>Retrying\<close>

lemma build_client_keeps:
  "build_client A c uw = (r, uw') \<Longrightarrow> uw_heap uw' = uw_heap uw \<and> uw_now uw' = uw_now uw \<and> uw_sent uw' = uw_sent uw"
  by (auto simp: build_client_def Let_def split: option.splits sum.splits prod.splits)

lemma client_for_keeps:
  "client_for A c uw = (r, uw') \<Longrightarrow> uw_heap uw' = uw_heap uw \<and> uw_now uw' = uw_now uw \<and> uw_sent uw' = uw_sent uw"
  using build_client_keeps by (fastforce simp: client_for_def split: option.splits if_splits)

lemma evict_simps [simp]:
  "uw_heap (evict k uw) = uw_heap uw" "uw_now (evict k uw) = uw_now uw" "uw_sent (evict k uw) = uw_sent uw"
  by (simp_all add: evict_def)

lemma send_through_keeps:
  assumes "send_through A key w og uw = (r, uw')"
  shows "uw_heap uw' = uw_heap uw" "uw_sent uw' = uw_sent uw @ [(key, og)]"
    "\<exists>took. uw_now uw' = uw_now uw + took \<and> took = snd (ag_send A w og (uw_now uw))"
  using assms by (auto simp: send_through_def Let_def split: prod.splits)

text \<open>Sending through the exits \<open>ks\<close> in turn repeats none while an exit of \<open>K\<close> was not tried.\<close>

fun rotates :: "string set \<Rightarrow> string list \<Rightarrow> string list \<Rightarrow> bool" where
  "rotates K tried [] \<longleftrightarrow> True"
| "rotates K tried (k # ks) \<longleftrightarrow> k \<in> K \<and> (k \<in> set tried \<longrightarrow> K \<subseteq> set tried) \<and> rotates K (tried @ [k]) ks"

lemma rotates_distinct:
  "rotates K tried ks \<Longrightarrow> distinct tried \<Longrightarrow> set tried \<subseteq> K \<Longrightarrow> length tried + length ks \<le> card K \<Longrightarrow>
   distinct (tried @ ks)"
proof (induction ks arbitrary: tried)
  case (Cons k ks)
  have fin: "finite K" using Cons.prems(4) by (metis add_Suc_right card.infinite le_zero_eq list.size(4) nat.distinct(1) add.commute plus_1_eq_Suc)
  have "k \<notin> set tried"
  proof
    assume "k \<in> set tried"
    then have "K = set tried" using Cons.prems(1,3) by auto
    then show False using Cons.prems(2,4) distinct_card by force
  qed
  with Cons.prems Cons.IH [of "tried @ [k]"] show ?case by simp
qed simp

text \<open>What one run of the loop has sent: \<open>log\<close>, the last of it answered if there is an answer.\<close>

definition bodies_ok :: "string option \<Rightarrow> (string \<times> 'h outgoing) list \<Rightarrow> bool" where
  "bodies_ok body log \<longleftrightarrow>
     (\<forall>i < length log. og_body (snd (log ! i)) = (if i = 0 then (case body of Some b \<Rightarrow> b | None \<Rightarrow> []) else []))"

definition sent_ok ::
  "'h outgoing \<Rightarrow> string option \<Rightarrow> string set \<Rightarrow> string list \<Rightarrow> nat \<Rightarrow> (upstream_error + 't candidate \<times> 'h response) \<Rightarrow>
   (string \<times> 'h outgoing) list \<Rightarrow> bool" where
  "sent_ok og body K tried k res log \<longleftrightarrow>
     length log \<le> k \<and> rotates K tried (map fst log) \<and> bodies_ok body log \<and>
     (\<forall>(key, sent) \<in> set log. \<exists>b. sent = og\<lparr>og_body := b\<rparr>) \<and>
     (case res of Inr (c, response) \<Rightarrow> log \<noteq> [] \<and> fst (last log) = c_key c | Inl e \<Rightarrow> True)"

lemma bodies_ok_Cons:
  "bodies_ok body ((k, og) # log) \<longleftrightarrow> og_body og = (case body of Some b \<Rightarrow> b | None \<Rightarrow> []) \<and> bodies_ok None log"
  by (auto simp: bodies_ok_def nth_Cons less_Suc_eq_0_disj split: nat.splits)

text \<open>The four ways a turn of the loop goes: no exit, no client for it, an answer, or a failed request.\<close>

lemma attempts_SucE:
  assumes "attempts A tr (Suc k) og body tried previous uw = Some (res, uw')"
  obtains (no_exit) err where "ready_candidate A tr tried uw = Some (Inl err, uw')"
      "res = Inl (case previous of Some e \<Rightarrow> e | None \<Rightarrow> err)"
  | (no_client) c uw1 err uw2 where "ready_candidate A tr tried uw = Some (Inr c, uw1)"
      "client_for A c uw1 = (Inl err, uw2)" "attempts A tr k og body tried (Some err) uw2 = Some (res, uw')"
  | (answered) c uw1 w uw2 response where "ready_candidate A tr tried uw = Some (Inr c, uw1)"
      "client_for A c uw1 = (Inr w, uw2)" "res = Inr (c, response)"
      "send_through A (c_key c) w (og\<lparr>og_body := case body of Some b \<Rightarrow> b | None \<Rightarrow> []\<rparr>) uw2 = (Inr response, uw')"
  | (failed) c uw1 w uw2 err uw3 where "ready_candidate A tr tried uw = Some (Inr c, uw1)"
      "client_for A c uw1 = (Inr w, uw2)"
      "send_through A (c_key c) w (og\<lparr>og_body := case body of Some b \<Rightarrow> b | None \<Rightarrow> []\<rparr>) uw2 = (Inl err, uw3)"
      "attempts A tr k og None (tried @ [c_key c]) (Some err) (evict (c_key c) uw3) = Some (res, uw')"
proof (cases "ready_candidate A tr tried uw")
  case None
  then show ?thesis using assms by simp
next
  case (Some f)
  note rc = this
  obtain found uw1 where f: "f = (found, uw1)" by fastforce
  show ?thesis
  proof (cases found)
    case (Inl err)
    then show ?thesis using assms rc f no_exit by simp
  next
    case (Inr c)
    obtain cl uw2 where cl: "client_for A c uw1 = (cl, uw2)" by fastforce
    show ?thesis
    proof (cases cl)
      case (Inl err)
      then show ?thesis using assms rc f \<open>found = Inr c\<close> cl no_client by simp
    next
      case (Inr w)
      obtain r uw3 where "send_through A (c_key c) w (og\<lparr>og_body := case body of Some b \<Rightarrow> b | None \<Rightarrow> []\<rparr>) uw2 = (r, uw3)"
        by fastforce
      then show ?thesis using assms rc f \<open>found = Inr c\<close> cl Inr answered failed by (cases r) auto
    qed
  qed
qed

text \<open>What choosing an exit and its client leaves alone, and which exit it can be.\<close>

lemma chosen_keeps:
  assumes "ready_candidate A tr tried uw = Some (Inr c, uw1)" "client_for A c uw1 = (cl, uw2)"
  shows "same_shape (uw_heap uw) (uw_heap uw2)" "tr_keys tr (uw_heap uw2) = tr_keys tr (uw_heap uw)" "uw_sent uw2 = uw_sent uw"
    "c_key c \<in> tr_keys tr (uw_heap uw)" "c_key c \<in> set tried \<Longrightarrow> tr_keys tr (uw_heap uw) \<subseteq> set tried"
proof -
  note w = ready_until_spec [OF assms(1) [unfolded ready_candidate_def]] and k = client_for_keeps [OF assms(2)]
  show "same_shape (uw_heap uw) (uw_heap uw2)" "uw_sent uw2 = uw_sent uw"
    using w k by (simp_all add: only_waited_def)
  show "tr_keys tr (uw_heap uw2) = tr_keys tr (uw_heap uw)" using w k only_waited_keys [of uw uw1 tr] by simp
  show "c_key c \<in> tr_keys tr (uw_heap uw)" "c_key c \<in> set tried \<Longrightarrow> tr_keys tr (uw_heap uw) \<subseteq> set tried"
    using w by (auto simp: waited_ok_def)
qed

lemma attempts_sent:
  assumes "attempts A tr k og body tried previous uw = Some (res, uw')"
  shows "\<exists>log. uw_sent uw' = uw_sent uw @ log \<and> sent_ok og body (tr_keys tr (uw_heap uw)) tried k res log"
  using assms
proof (induction k arbitrary: body tried previous uw)
  case 0
  then show ?case by (auto simp: sent_ok_def bodies_ok_def)
next
  case (Suc k)
  let ?og = "og\<lparr>og_body := case body of Some b \<Rightarrow> b | None \<Rightarrow> []\<rparr>"
  from Suc.prems show ?case
  proof (cases rule: attempts_SucE)
    case (no_exit err)
    then show ?thesis using ready_until_spec [OF no_exit(1) [unfolded ready_candidate_def]]
      by (auto simp: sent_ok_def bodies_ok_def only_waited_def)
  next
    case (no_client c uw1 err uw2)
    with Suc.IH [OF no_client(3)] chosen_keeps [OF no_client(1,2)] show ?thesis by (auto simp: sent_ok_def)
  next
    case (answered c uw1 w uw2 response)
    then show ?thesis using send_through_keeps(2) [OF answered(4)] chosen_keeps(3-5) [OF answered(1,2)]
      by (intro exI [of _ "[(c_key c, ?og)]"]) (auto simp: sent_ok_def bodies_ok_def)
  next
    case (failed c uw1 w uw2 err uw3)
    note sk = send_through_keeps(1,2) [OF failed(3)] and ck = chosen_keeps(2-5) [OF failed(1,2)]
    obtain log where "uw_sent uw' = uw_sent uw3 @ log"
      "sent_ok og None (tr_keys tr (uw_heap uw)) (tried @ [c_key c]) k res log"
      using Suc.IH [OF failed(4)] sk(1) ck(1) by auto
    then show ?thesis using sk(2) ck(2-4)
      by (intro exI [of _ "(c_key c, ?og) # log"]) (auto simp: sent_ok_def bodies_ok_Cons split: sum.splits)
  qed
qed

lemma attempts_shape:
  "attempts A tr k og body tried previous uw = Some (res, uw') \<Longrightarrow> same_shape (uw_heap uw) (uw_heap uw')"
proof (induction k arbitrary: body tried previous uw)
  case (Suc k)
  from Suc.prems show ?case
  proof (cases rule: attempts_SucE)
    case (no_exit err)
    then show ?thesis using ready_until_spec [OF no_exit(1) [unfolded ready_candidate_def]] by (simp add: only_waited_def)
  next
    case (no_client c uw1 err uw2)
    show ?thesis using same_shape_trans [OF chosen_keeps(1) [OF no_client(1,2)] Suc.IH [OF no_client(3)]] .
  next
    case (answered c uw1 w uw2 response)
    then show ?thesis using chosen_keeps(1) [OF answered(1,2)] send_through_keeps(1) [OF answered(4)] by simp
  next
    case (failed c uw1 w uw2 err uw3)
    then show ?thesis using same_shape_trans [OF chosen_keeps(1) [OF failed(1,2)]] Suc.IH [OF failed(4)]
        send_through_keeps(1) [OF failed(3)] by simp
  qed
qed simp

text \<open>The loop ends, and when: \<open>S\<close> bounds the time a single request takes.\<close>

lemma attempts_total:
  assumes "ranked r (uw_heap uw)" "uw_heap uw (tr_pool tr) \<noteq> None" "r (tr_pool tr) < ag_depth A"
    "\<forall>t. ag_lag A t \<le> L" "\<forall>w og t. snd (ag_send A w og t) \<le> S"
  shows "\<exists>res uw'. attempts A tr k og body tried previous uw = Some (res, uw') \<and>
    uw_now uw' \<le> uw_now uw + k * (READY_TIMEOUT + 200 + L + S)"
  using assms(1,2)
proof (induction k arbitrary: body tried previous uw)
  case 0
  then show ?case by simp
next
  case (Suc k)
  obtain found uw1 where rc: "ready_candidate A tr tried uw = Some (found, uw1)"
    using ready_until_total [OF Suc.prems assms(3)] by (fastforce simp: ready_candidate_def)
  note w = ready_until_spec [OF rc [unfolded ready_candidate_def], of L]
  have sh: "same_shape (uw_heap uw) (uw_heap uw1)" using w by (simp add: only_waited_def)
  have ok: "ranked r h" "h (tr_pool tr) \<noteq> None" if "h = uw_heap uw1" for h
    using that ranked_shape [OF sh Suc.prems(1)] same_shape_None [OF sh] Suc.prems(2) by auto
  have now: "uw_now uw1 \<le> uw_now uw + (READY_TIMEOUT + 200 + L)" using w assms(4) by simp
  show ?case
  proof (cases found)
    case (Inl err)
    then show ?thesis using rc now by simp
  next
    case (Inr c)
    obtain cl uw2 where cl: "client_for A c uw1 = (cl, uw2)" by fastforce
    note ck = client_for_keeps [OF cl]
    show ?thesis
    proof (cases cl)
      case (Inl err)
      obtain res uw' where "attempts A tr k og body tried (Some err) uw2 = Some (res, uw')"
        "uw_now uw' \<le> uw_now uw2 + k * (READY_TIMEOUT + 200 + L + S)"
        using Suc.IH [of uw2] ok ck by metis
      then show ?thesis using rc Inr cl Inl ck now by simp
    next
      case w: (Inr w)
      define og1 where "og1 = og\<lparr>og_body := case body of Some b \<Rightarrow> b | None \<Rightarrow> []\<rparr>"
      obtain r uw3 where s: "send_through A (c_key c) w og1 uw2 = (r, uw3)" by fastforce
      note sk = send_through_keeps [OF s]
      have now3: "uw_now uw3 \<le> uw_now uw + (READY_TIMEOUT + 200 + L + S)"
        using sk(3) assms(5) [rule_format, of w og1 "uw_now uw2"] ck now by auto
      show ?thesis
      proof (cases r)
        case (Inr response)
        then show ?thesis using rc \<open>found = Inr c\<close> cl w s now3 by (simp add: og1_def [symmetric] Let_def)
      next
        case (Inl err)
        obtain res uw' where "attempts A tr k og None (tried @ [c_key c]) (Some err) (evict (c_key c) uw3) = Some (res, uw')"
          "uw_now uw' \<le> uw_now uw3 + k * (READY_TIMEOUT + 200 + L + S)"
          using Suc.IH [of "evict (c_key c) uw3"] ok ck sk(1) by (metis evict_simps(1,2))
        then show ?thesis using rc \<open>found = Inr c\<close> cl w s Inl now3 by (simp add: og1_def [symmetric] Let_def)
      qed
    qed
  qed
qed

text \<open>
  C7: the discipline of retries. A request that is not a GET or HEAD leaves at most once, a GET or
  HEAD at most six times; each time it is the same request except that only the first carries
  the client's body; it leaves through exits of the pool, through none twice while there is an
  untried one (so the exits are distinct as long as there are enough); and an answer comes from
  the exit it was last sent through.
\<close>

theorem request_retries:
  assumes "transport_request A tr og uw = Some (res, uw')"
  shows "\<exists>log. uw_sent uw' = uw_sent uw @ log \<and>
    length log \<le> (if og_method og = ''GET'' \<or> og_method og = ''HEAD'' then 6 else 1) \<and>
    set (map fst log) \<subseteq> tr_keys tr (uw_heap uw) \<and> rotates (tr_keys tr (uw_heap uw)) [] (map fst log) \<and>
    (length log \<le> card (tr_keys tr (uw_heap uw)) \<longrightarrow> distinct (map fst log)) \<and>
    (\<forall>i < length log. snd (log ! i) = og\<lparr>og_body := if i = 0 then og_body og else []\<rparr>) \<and>
    (case res of Inr (c, response) \<Rightarrow> log \<noteq> [] \<and> fst (last log) = c_key c | Inl e \<Rightarrow> True)"
proof -
  let ?K = "tr_keys tr (uw_heap uw)"
  obtain log where log: "uw_sent uw' = uw_sent uw @ log"
    "sent_ok og (Some (og_body og)) ?K [] (attempts_for (og_method og)) res log"
    using attempts_sent assms unfolding transport_request_def by blast
  have sub: "rotates K tried ks \<Longrightarrow> set ks \<subseteq> K" for K tried ks
    by (induction ks arbitrary: tried) auto
  have same: "snd (log ! i) = og\<lparr>og_body := if i = 0 then og_body og else []\<rparr>" if "i < length log" for i
  proof -
    have "log ! i \<in> set log" using that by simp
    then obtain b where "snd (log ! i) = og\<lparr>og_body := b\<rparr>" using log(2) by (fastforce simp: sent_ok_def)
    moreover have "og_body (snd (log ! i)) = (if i = 0 then og_body og else [])"
      using log(2) that by (simp add: sent_ok_def bodies_ok_def)
    ultimately show ?thesis by simp
  qed
  show ?thesis
    using log same sub [of ?K "[]" "map fst log"] rotates_distinct [of ?K "[]" "map fst log"]
    by (intro exI [of _ log]) (auto simp: sent_ok_def attempts_for_def retryable_def MAX_ATTEMPTS_def)
qed

text \<open>
  C26: a forwarded request is answered in bounded time. On an acyclic pool graph the request loop
  ends with an answer or an error, after at most six rounds (one for methods that are not
  retried) of 40 s waiting for an exit, one sleep of 200 ms, and the time of one request; \<open>L\<close>
  and \<open>S\<close> bound how late a sleep wakes and how long a request takes.
\<close>

theorem request_bounded:
  assumes "ranked r (uw_heap uw)" "uw_heap uw (tr_pool tr) \<noteq> None" "r (tr_pool tr) < ag_depth A"
    "\<forall>t. ag_lag A t \<le> L" "\<forall>w og t. snd (ag_send A w og t) \<le> S"
  shows "\<exists>res uw'. transport_request A tr og uw = Some (res, uw') \<and>
    uw_now uw' \<le> uw_now uw + attempts_for (og_method og) * (40200 + L + S)"
  using attempts_total [OF assms] by (simp add: transport_request_def READY_TIMEOUT_def)

section \<open>What the forwarder sends and answers\<close>

lemma lookup_isp_keeps:
  "lookup_isp Y ip fs = (isp, fs') \<Longrightarrow> uw_sent (fs_up fs') = uw_sent (fs_up fs) \<and> fs_exits fs' = fs_exits fs"
  by (auto simp: lookup_isp_def Let_def split: prod.splits)

lemma set_egress_keeps:
  "set_egress_headers Y found h fs = (h', fs') \<Longrightarrow> uw_sent (fs_up fs') = uw_sent (fs_up fs) \<and> fs_exits fs' = fs_exits fs"
  using lookup_isp_keeps by (fastforce simp: set_egress_headers_def Let_def split: option.splits if_splits prod.splits)

lemma outgoing_headers_get:
  assumes "header_laws H"
  shows "hm_get H n (outgoing_headers H host h) =
    (if n = ''host'' \<and> hm_value H host then Some (Some host)
     else if n \<in> set (client_headers @ hop_headers) then None else hm_get H n h)"
proof -
  have ins: "hm_get H m (hm_insert H ''host'' host h') = (if m = ''host'' then Some (Some host) else hm_get H m h')"
    if "hm_value H host" for h' m
    using assms that by (simp add: header_laws_def)
  show ?thesis using get_stripped(1) [OF assms, of n h] ins by (cases "n = ''host''") (simp_all add: outgoing_headers_def Let_def)
qed

lemma forward_send_log:
  assumes "forward_send Y tr rq target fs = Some (res, fs')"
  shows "\<exists>log. uw_sent (fs_up fs') = uw_sent (fs_up fs) @ log \<and>
    (\<forall>(key, sent) \<in> set log. \<exists>uri b. gt_uri Y (target_uri target) = Some uri \<and> sent = (outgoing_of Y rq target uri)\<lparr>og_body := b\<rparr>)"
proof (cases "gt_uri Y (target_uri target)")
  case None
  then show ?thesis using assms by (simp add: forward_send_def)
next
  case (Some uri)
  let ?og = "outgoing_of Y rq target uri"
  obtain r uw where t: "transport_request (gt_agent Y) tr ?og (fs_up fs) = Some (r, uw)"
    using assms Some by (auto simp: forward_send_def split: option.splits)
  obtain log where log: "uw_sent uw = uw_sent (fs_up fs) @ log" "\<forall>(key, sent) \<in> set log. \<exists>b. sent = ?og\<lparr>og_body := b\<rparr>"
    using attempts_sent [OF t [unfolded transport_request_def]] by (auto simp: sent_ok_def)
  have "uw_sent (fs_up fs') = uw_sent uw"
  proof (cases r)
    case (Inl err)
    then show ?thesis using assms Some t by (auto simp: forward_send_def)
  next
    case (Inr a)
    obtain c response where a: "a = (c, response)" by fastforce
    define exits where "exits = exit_record (gt_lru Y) (t_host target) (gt_exit_for Y (uw_now uw) (c_tunnel c) (t_host target)) (fs_exits fs)"
    obtain h fs2 where s: "set_egress_headers Y (exit_get (gt_lru Y) (t_host target) exits)
        (strip_hop_headers (gt_headers Y) (rs_headers response)) (fs\<lparr>fs_up := uw, fs_exits := exits\<rparr>) = (h, fs2)" by fastforce
    then have "fs' = fs2" using assms Some t Inr a by (simp add: forward_send_def exits_def Let_def)
    then show ?thesis using set_egress_keeps [OF s] by simp
  qed
  then show ?thesis using log Some by (intro exI [of _ log]) auto
qed

lemma stripped_headers:
  "set (client_headers @ hop_headers) =
     {''x-forwarded-for'', ''x-real-ip'', ''x-originating-ip'', ''true-client-ip'', ''client-ip'',
             ''forwarded'', ''x-forwarded-host'', ''x-forwarded-proto'', ''cf-connecting-ip'', ''proxy-authorization'', ''connection'', ''proxy-connection'', ''keep-alive'', ''proxy-authenticate'', ''te'',
             ''trailer'', ''transfer-encoding'', ''upgrade''}"
  unfolding client_headers_def hop_headers_def by auto

text \<open>
  C8: what is forwarded does not tell who the client is. Every request that leaves for a target has
  the client's method and the target's address; of its headers, none that names the client or
  belongs to the hop is left (proxy credentials among them), \<open>Host\<close> is the target's, and every
  other header is as the client sent it. \<open>header_laws\<close> states how a header map behaves.
\<close>

theorem forward_hides_client:
  assumes "header_laws (gt_headers Y)" "forward_send Y tr rq target fs = Some (res, fs')"
  shows "\<exists>log. uw_sent (fs_up fs') = uw_sent (fs_up fs) @ log \<and>
    (\<forall>(key, sent) \<in> set log. og_method sent = rq_method rq \<and>
      (\<exists>uri. gt_uri Y (target_uri target) = Some uri \<and> og_uri sent = gt_uri_text Y uri) \<and>
      (\<forall>n. hm_get (gt_headers Y) n (og_headers sent) =
        (if n = ''host'' \<and> hm_value (gt_headers Y) (t_host target) then Some (Some (t_host target))
         else if n \<in> {''x-forwarded-for'', ''x-real-ip'', ''x-originating-ip'', ''true-client-ip'', ''client-ip'',
             ''forwarded'', ''x-forwarded-host'', ''x-forwarded-proto'', ''cf-connecting-ip'', ''proxy-authorization'', ''connection'', ''proxy-connection'', ''keep-alive'', ''proxy-authenticate'', ''te'',
             ''trailer'', ''transfer-encoding'', ''upgrade''} then None
         else hm_get (gt_headers Y) n (rq_headers rq))))"
proof -
  obtain log where log: "uw_sent (fs_up fs') = uw_sent (fs_up fs) @ log"
    "\<forall>(key, sent) \<in> set log. \<exists>uri b. gt_uri Y (target_uri target) = Some uri \<and> sent = (outgoing_of Y rq target uri)\<lparr>og_body := b\<rparr>"
    using forward_send_log [OF assms(2)] by blast
  show ?thesis
  proof (intro exI [of _ log] conjI ballI)
    fix x assume x: "x \<in> set log"
    then obtain uri b where u: "gt_uri Y (target_uri target) = Some uri" "snd x = (outgoing_of Y rq target uri)\<lparr>og_body := b\<rparr>"
      using log(2) by fastforce
    then show "case x of (key, sent) \<Rightarrow> og_method sent = rq_method rq \<and>
      (\<exists>uri. gt_uri Y (target_uri target) = Some uri \<and> og_uri sent = gt_uri_text Y uri) \<and>
      (\<forall>n. hm_get (gt_headers Y) n (og_headers sent) =
        (if n = ''host'' \<and> hm_value (gt_headers Y) (t_host target) then Some (Some (t_host target))
         else if n \<in> {''x-forwarded-for'', ''x-real-ip'', ''x-originating-ip'', ''true-client-ip'', ''client-ip'',
             ''forwarded'', ''x-forwarded-host'', ''x-forwarded-proto'', ''cf-connecting-ip'', ''proxy-authorization'', ''connection'', ''proxy-connection'', ''keep-alive'', ''proxy-authenticate'', ''te'',
             ''trailer'', ''transfer-encoding'', ''upgrade''} then None
         else hm_get (gt_headers Y) n (rq_headers rq)))"
      unfolding stripped_headers [symmetric]
      using outgoing_headers_get [OF assms(1)] by (simp add: case_prod_beta outgoing_of_def)
  qed (rule log(1))
qed

lemma set_egress_ip:
  assumes laws: "header_laws (gt_headers Y)" and s: "set_egress_headers Y found h fs = (h', fs')"
  shows "hm_get (gt_headers Y) ''x-unroxy-ip'' h' =
    (case found of
       Some e \<Rightarrow> if ex_ip e \<noteq> [] \<and> hm_value (gt_headers Y) (ex_ip e) then Some (Some (ex_ip e))
         else hm_get (gt_headers Y) ''x-unroxy-ip'' h
     | None \<Rightarrow> hm_get (gt_headers Y) ''x-unroxy-ip'' h)"
proof (cases found)
  case None
  then show ?thesis using s by (simp add: set_egress_headers_def)
next
  case (Some e)
  have ins: "hm_get (gt_headers Y) ''x-unroxy-ip'' (hm_insert (gt_headers Y) m v h) =
      (if m = ''x-unroxy-ip'' then Some (Some v) else hm_get (gt_headers Y) ''x-unroxy-ip'' h)"
    if "hm_value (gt_headers Y) v" for m v h
    using laws that by (auto simp: header_laws_def)
  show ?thesis
  proof (cases "ex_ip e = []")
    case True
    then show ?thesis using s Some by (simp add: set_egress_headers_def)
  next
    case False
    obtain isp fs2 where l: "lookup_isp Y (ex_ip e) fs = (isp, fs2)" by fastforce
    define h1 where "h1 = (if hm_value (gt_headers Y) (ex_ip e) then hm_insert (gt_headers Y) ''x-unroxy-ip'' (ex_ip e) h else h)"
    have "h' = (if isp \<noteq> [] \<and> hm_value (gt_headers Y) isp then hm_insert (gt_headers Y) ''x-unroxy-isp'' isp h1 else h1)"
      using s Some False l by (auto simp: set_egress_headers_def h1_def Let_def)
    then show ?thesis using Some False ins by (simp add: h1_def)
  qed
qed


section \<open>A working gateway\<close>

text \<open>One exit, always ready, that answers every request within 5 ms.\<close>

definition demo_agent :: "(nat, string, string, (string \<times> string) list) agent" where
  "demo_agent =
     \<lparr>ag_is_ready = (\<lambda>now t. True), ag_generation = (\<lambda>now t. 0), ag_proxy_url = (\<lambda>now t. Some ''socks5h://127.0.0.1:1''),
      ag_proxy = Inr, ag_build = (\<lambda>profile p. Inr p),
      ag_send = (\<lambda>w og now. (Inr \<lparr>rs_status = 200, rs_headers = [(''upgrade'', ''x'')], rs_body = ''hi''\<rparr>, 5)),
      ag_lag = (\<lambda>now. 0), ag_depth = 2\<rparr>"

definition demo_gateway ::
  "(nat, string, string, (string \<times> string) list, string, string \<Rightarrow> exit option, string, string \<Rightarrow> string option) gateway" where
  "demo_gateway =
     \<lparr>gt_agent = demo_agent, gt_uri = Some, gt_uri_host = Some, gt_uri_text = (\<lambda>u. u), gt_lower = (\<lambda>s. s),
      gt_headers = list_headers, gt_exit_for = (\<lambda>now t host. \<lparr>ex_ip = ''9.9.9.9'', ex_region = ''sg'', ex_protocol = ''ssh''\<rparr>),
      gt_lru = \<lparr>lru_put = (\<lambda>k e l. l(k \<mapsto> e)), lru_peek = (\<lambda>k l. l k), lru_lower = (\<lambda>s. s)\<rparr>, gt_geo = demo_geo_world\<rparr>"

definition demo_upworld :: "(nat, string, (string \<times> string) list) upworld" where
  "demo_upworld =
     \<lparr>uw_heap = [0 \<mapsto> pool_new [demo_proxy ''a'']], uw_now = 0, uw_clients = Map.empty, uw_emulation = 0, uw_sent = []\<rparr>"

definition demo_forward_state ::
  "(nat, string, (string \<times> string) list, string \<Rightarrow> exit option, string \<Rightarrow> string option) forward_state" where
  "demo_forward_state =
     \<lparr>fs_up = demo_upworld, fs_exits = Map.empty, fs_isp = Map.empty, fs_country = Map.empty, fs_base = DEFAULT_BASE\<rparr>"

definition demo_target :: target where
  "demo_target = \<lparr>t_scheme = ''http'', t_host = ''a.io'', t_path = ''/'', t_query = []\<rparr>"

definition demo_request :: "(string \<times> string) list request" where
  "demo_request =
     \<lparr>rq_method = ''GET'', rq_scheme = None, rq_authority = None, rq_path = ''/a.io'', rq_query = None,
      rq_headers = [(''x-real-ip'', ''1.1.1.1''), (''accept'', ''text/html'')], rq_body = []\<rparr>"

lemma demo_transport:
  "\<exists>c response uw'. transport_request demo_agent (region_transport 0) og demo_upworld = Some (Inr (c, response), uw') \<and>
     uw_sent uw' = [(''a'', og)]"
proof -
  define og' where "og' = og\<lparr>og_body := og_body og\<rparr>"
  have same: "og' = og" by (simp add: og'_def)
  obtain n where n: "attempts_for (og_method og) = Suc n"
    by (cases "attempts_for (og_method og)") (auto simp: attempts_for_def MAX_ATTEMPTS_def split: if_splits)
  have "ready_candidate demo_agent (region_transport 0) [] demo_upworld =
      Some (Inr (to_candidate (demo_proxy ''a'')), demo_upworld)"
    by (simp add: ready_candidate_def ready_until.simps demo_upworld_def demo_agent_def ask_pool_def region_transport_def
        candidates_def numeral_2_eq_2 pool_new_def pool_local_def to_candidate_def choose_exit_def READY_TIMEOUT_def)
  then show ?thesis
    by (simp add: transport_request_def n client_for_def build_client_def send_through_def demo_upworld_def demo_agent_def
        to_candidate_def demo_proxy_def Let_def emulation_next_def og'_def [symmetric] same)
qed

lemma demo_forward:
  "\<exists>answer fs'. forward_send demo_gateway (region_transport 0) demo_request demo_target demo_forward_state = Some (Inr answer, fs')"
proof -
  let ?og = "outgoing_of demo_gateway demo_request demo_target (target_uri demo_target)"
  obtain c response uw' where
    "transport_request demo_agent (region_transport 0) ?og demo_upworld = Some (Inr (c, response), uw')"
    using demo_transport by blast
  moreover have "gt_agent demo_gateway = demo_agent" "gt_uri demo_gateway = Some" "fs_up demo_forward_state = demo_upworld"
    by (simp_all add: demo_gateway_def demo_forward_state_def)
  ultimately show ?thesis by (simp add: forward_send_def case_prod_beta Let_def)
qed

theorem request_retries_witness:
  "\<exists>res uw' log. transport_request demo_agent (region_transport 0)
       \<lparr>og_method = ''POST'', og_uri = [], og_headers = [], og_group = [], og_body = ''x''\<rparr> demo_upworld = Some (res, uw') \<and>
     uw_sent uw' = log \<and> length log \<le> 1"
proof -
  let ?og = "\<lparr>og_method = ''POST'', og_uri = [], og_headers = [], og_group = [], og_body = ''x''\<rparr>
    :: (string \<times> string) list outgoing"
  obtain c response uw' where t: "transport_request demo_agent (region_transport 0) ?og demo_upworld = Some (Inr (c, response), uw')"
    using demo_transport by blast
  from request_retries [OF t] have "length (uw_sent uw') \<le> 1" by (auto simp: demo_upworld_def)
  with t show ?thesis by blast
qed

theorem request_bounded_witness:
  "\<exists>res uw'. transport_request demo_agent (region_transport 0)
       \<lparr>og_method = ''GET'', og_uri = [], og_headers = [], og_group = [], og_body = []\<rparr> demo_upworld = Some (res, uw') \<and>
     uw_now uw' \<le> 6 * 40205"
proof -
  have "ranked (\<lambda>_. 0) (uw_heap demo_upworld)" "uw_heap demo_upworld (tr_pool (region_transport 0)) \<noteq> None"
    by (auto simp: demo_upworld_def ranked_def pool_new_def region_transport_def split: if_splits)
  from request_bounded [OF this, of demo_agent 0 5 "\<lparr>og_method = ''GET'', og_uri = [], og_headers = [], og_group = [], og_body = []\<rparr>"]
  show ?thesis
    by (simp add: demo_agent_def attempts_for_def retryable_def MAX_ATTEMPTS_def) (simp add: demo_upworld_def)
qed

theorem forward_hides_client_witness:
  "\<exists>res fs' log. forward_send demo_gateway (region_transport 0) demo_request demo_target demo_forward_state = Some (res, fs') \<and>
     uw_sent (fs_up fs') = log \<and> (\<forall>x \<in> set log. hm_get list_headers ''x-real-ip'' (og_headers (snd x)) = None)"
proof -
  obtain answer fs' where f: "forward_send demo_gateway (region_transport 0) demo_request demo_target demo_forward_state = Some (Inr answer, fs')"
    using demo_forward by blast
  have h: "gt_headers demo_gateway = list_headers" by (simp add: demo_gateway_def)
  from forward_hides_client [OF _ f] list_headers_laws h obtain log where
    "uw_sent (fs_up fs') = uw_sent (fs_up demo_forward_state) @ log"
    "\<forall>(key, sent) \<in> set log. hm_get list_headers ''x-real-ip'' (og_headers sent) = None"
    by fastforce
  then show ?thesis using f by (intro exI [of _ "Inr answer"] exI [of _ fs'] exI [of _ log])
    (auto simp: demo_forward_state_def demo_upworld_def)
qed


end
