(* ===== verification/Socks.thy ===== *)
theory Socks
  imports Ip_Addr Utf8
begin

text \<open>
  The SOCKS5 bridges through which the HTTP client library reaches a tunnel: \<open>src/ssh/socks.rs\<close> and
  the one of \<open>src/vpn/provider.rs\<close>. A client connection is the bytes it sends before it closes;
  what the bridge writes is part of the result. Sessions and streams are parameters.
\<close>

section \<open>Printing an IPv6 address\<close>

text \<open>
  \<open>Ipv6Addr::to_string\<close>: a mapped IPv4 address in dotted form, otherwise hexadecimal groups with the
  first longest run of at least two zero groups left out.
\<close>

definition hex_char :: "nat \<Rightarrow> char" where
  "hex_char d = char_of (if d < 10 then 48 + d else 87 + d)"

fun show_hex :: "nat \<Rightarrow> string" where
  "show_hex n = (if n < 16 then [hex_char n] else show_hex (n div 16) @ [hex_char (n mod 16)])"

declare show_hex.simps [simp del]

fun show_groups :: "u16 list \<Rightarrow> string" where
  "show_groups [] = []"
| "show_groups [g] = show_hex (unat g)"
| "show_groups (g # gs) = show_hex (unat g) @ '':'' @ show_groups gs"

text \<open>The scan for the longest run: position, current run and longest run, as start and length.\<close>

fun zero_run :: "u16 list \<Rightarrow> nat \<Rightarrow> nat \<times> nat \<Rightarrow> nat \<times> nat \<Rightarrow> nat \<times> nat" where
  "zero_run [] i current longest = longest"
| "zero_run (g # gs) i (cs, cl) (ls, ll) =
     (if g = 0
      then let current = (if cl = 0 then i else cs, cl + 1) in
        zero_run gs (Suc i) current (if ll < cl + 1 then current else (ls, ll))
      else zero_run gs (Suc i) (0, 0) (ls, ll))"

definition show_ipv6 :: "u16 list \<Rightarrow> string" where
  "show_ipv6 segments =
     (if take 5 segments = replicate 5 0 \<and> segments ! 5 = 0xFFFF
      then
        let hi = segments ! 6; lo = segments ! 7 in
        ''::ffff:'' @ show_ipv4 (Ipv4 (ucast (drop_bit 8 hi)) (ucast hi) (ucast (drop_bit 8 lo)) (ucast lo))
      else
        let (start, len) = zero_run segments 0 (0, 0) (0, 0) in
        if 1 < len then show_groups (take start segments) @ ''::'' @ show_groups (drop (start + len) segments)
        else show_groups segments)"

fun be_groups :: "bytes \<Rightarrow> u16 list" where
  "be_groups (a # b # bs) = u16_from_be_bytes [a, b] # be_groups bs"
| "be_groups _ = []"

section \<open>Reading the request\<close>

text \<open>\<open>read_exact\<close> on the client: \<open>None\<close> when it closes too early.\<close>

definition take_exact :: "nat \<Rightarrow> bytes \<Rightarrow> (bytes \<times> bytes) option" where
  "take_exact n s = (if n \<le> length s then Some (take n s, drop n s) else None)"

text \<open>How reading ends: the client closed, the bridge gave up, or there is a target and more to read.\<close>

datatype socks_end = ClientClosed | Refused | Target string u16 bytes

definition socks_host :: "u8 \<Rightarrow> bytes \<Rightarrow> (string \<times> bytes) option option" where
  "socks_host atyp s =
     (if atyp = 1 then Some (map_option (\<lambda>(a, s). (show_ipv4 (Ipv4 (a ! 0) (a ! 1) (a ! 2) (a ! 3)), s)) (take_exact 4 s))
      else if atyp = 4 then Some (map_option (\<lambda>(a, s). (show_ipv6 (be_groups a), s)) (take_exact 16 s))
      else if atyp = 3 then
        Some (Option.bind (take_exact 1 s) (\<lambda>(len, s).
          map_option (\<lambda>(a, s). (from_utf8_lossy a, s)) (take_exact (unat (len ! 0)) s)))
      else None)"

definition socks_request :: "bytes \<Rightarrow> socks_end" where
  "socks_request s =
     (case take_exact 4 s of
        None \<Rightarrow> ClientClosed
      | Some (request, s) \<Rightarrow>
          if request ! 0 \<noteq> 5 \<or> request ! 1 \<noteq> 1 then Refused
          else
            (case socks_host (request ! 3) s of
               None \<Rightarrow> Refused
             | Some None \<Rightarrow> ClientClosed
             | Some (Some (host, s)) \<Rightarrow>
                 (case take_exact 2 s of
                    None \<Rightarrow> ClientClosed
                  | Some (port, s) \<Rightarrow> Target host (u16_from_be_bytes port) s)))"

definition socks_target :: "bytes \<Rightarrow> socks_end \<times> bytes" where
  "socks_target s =
     (case take_exact 2 s of
        None \<Rightarrow> (ClientClosed, [])
      | Some (greeting, s) \<Rightarrow>
          if greeting ! 0 \<noteq> 5 then (Refused, [])
          else
            (case take_exact (unat (greeting ! 1)) s of
               None \<Rightarrow> (ClientClosed, [])
             | Some (methods, s) \<Rightarrow> (socks_request s, [5, 0])))"

section \<open>The two bridges\<close>

definition socks_ok :: bytes where "socks_ok = [5, 0, 0, 1, 0, 0, 0, 0, 0, 0]"
definition socks_failed :: bytes where "socks_failed = [5, 1, 0, 1, 0, 0, 0, 0, 0, 0]"

text \<open>
  The SSH bridge: what is written to the client, and the session and remote stream it is joined to
  with the host whose exit is recorded and the bytes the client has sent on.
\<close>

definition socks_handle ::
  "'s option \<Rightarrow> ('s \<Rightarrow> string \<Rightarrow> u16 \<Rightarrow> 'e + 'r) \<Rightarrow> bytes \<Rightarrow> bytes \<times> ('s \<times> 'r \<times> string \<times> bytes) option" where
  "socks_handle pick_session dial s =
     (case socks_target s of
        (Target host port rest, out) \<Rightarrow>
          (case pick_session of
             None \<Rightarrow> (out @ socks_failed, None)
           | Some session \<Rightarrow>
               (case dial session host port of
                  Inl e \<Rightarrow> (out @ socks_failed, None)
                | Inr remote \<Rightarrow> (out @ socks_ok, Some (session, remote, host, rest))))
      | (_, out) \<Rightarrow> (out, None))"

definition serve_socks :: "(string \<Rightarrow> u16 \<Rightarrow> 'e + 'r) \<Rightarrow> bytes \<Rightarrow> bytes \<times> ('r \<times> bytes) option" where
  "serve_socks open_stream s =
     (case socks_target s of
        (Target host port rest, out) \<Rightarrow>
          (case open_stream host port of
             Inr remote \<Rightarrow> (out @ socks_ok, Some (remote, rest))
           | Inl e \<Rightarrow> (out @ socks_failed, None))
      | (_, out) \<Rightarrow> (out, None))"

text \<open>
  The accept loop of a bridge: the connections handed to a handler each, and whether it still
  listens. An accept that fails ends it.
\<close>

fun socks_serve :: "('e + 'c) list \<Rightarrow> 'c list \<times> bool" where
  "socks_serve [] = ([], True)"
| "socks_serve (Inr client # accepts) = (let (clients, listening) = socks_serve accepts in (client # clients, listening))"
| "socks_serve (Inl e # accepts) = ([], False)"

text \<open>\<open>spawn_socks\<close> of the OpenVPN accounts: bind a port of the loopback interface, and serve on it.\<close>

definition spawn_socks :: "string + 'l \<Rightarrow> ('l \<Rightarrow> string + u16) \<Rightarrow> string + u16 \<times> 'l" where
  "spawn_socks bound local_port =
     (case bound of
        Inl e \<Rightarrow> Inl e
      | Inr listener \<Rightarrow>
          (case local_port listener of
             Inl e \<Rightarrow> Inl e
           | Inr port \<Rightarrow> Inr (port, listener)))"

section \<open>A client's request is understood\<close>

lemma take_exact_append [simp]: "length a = n \<Longrightarrow> take_exact n (a @ b) = Some (a, b)"
  by (simp add: take_exact_def)

text \<open>How a client asks: the address forms of RFC 1928.\<close>

datatype socks_address = Domain string | Address4 u8 u8 u8 u8

fun encode_address :: "socks_address \<Rightarrow> bytes" where
  "encode_address (Domain name) = [3, of_nat (length name)] @ as_bytes name"
| "encode_address (Address4 a b c d) = [1, a, b, c, d]"

fun address_host :: "socks_address \<Rightarrow> string" where
  "address_host (Domain name) = name"
| "address_host (Address4 a b c d) = show_ipv4 (Ipv4 a b c d)"

fun address_ok :: "socks_address \<Rightarrow> bool" where
  "address_ok (Domain name) \<longleftrightarrow> is_ascii name \<and> length name < 256"
| "address_ok (Address4 a b c d) \<longleftrightarrow> True"

definition encode_request :: "bytes \<Rightarrow> socks_address \<Rightarrow> u16 \<Rightarrow> bytes" where
  "encode_request methods address port =
     [5, of_nat (length methods)] @ methods @ [5, 1, 0] @ encode_address address @ u16_to_be_bytes port"

lemma socks_request_head:
  "socks_request ([5, 1, 0, atyp] @ s) =
     (case socks_host atyp s of
        None \<Rightarrow> Refused
      | Some None \<Rightarrow> ClientClosed
      | Some (Some (host, s)) \<Rightarrow>
          (case take_exact 2 s of None \<Rightarrow> ClientClosed | Some (port, s) \<Rightarrow> Target host (u16_from_be_bytes port) s))"
  using take_exact_append [of "[5, 1, 0, atyp]" 4 s] unfolding socks_request_def by simp

lemma socks_host_encoded:
  "is_ascii name \<Longrightarrow> length name < 256 \<Longrightarrow> socks_host 3 ([of_nat (length name)] @ as_bytes name @ s) = Some (Some (name, s))"
  "socks_host 1 ([a, b, c, d] @ s) = Some (Some (show_ipv4 (Ipv4 a b c d), s))"
proof -
  assume a: "is_ascii name" "length name < 256"
  then have len: "unat (of_nat (length name) :: u8) = length name" by (simp add: unat_of_nat)
  have "length (as_bytes name) = length name" by (simp add: as_bytes_def)
  then have "take_exact (length name) (as_bytes name @ s) = Some (as_bytes name, s)" by simp
  then show "socks_host 3 ([of_nat (length name)] @ as_bytes name @ s) = Some (Some (name, s))"
    using take_exact_append [of "[of_nat (length name)]" 1 "as_bytes name @ s"] from_utf8_lossy_ascii [OF a(1)] len
    unfolding socks_host_def by simp
next
  show "socks_host 1 ([a, b, c, d] @ s) = Some (Some (show_ipv4 (Ipv4 a b c d), s))"
    using take_exact_append [of "[a, b, c, d]" 4 s] unfolding socks_host_def by simp
qed

lemma socks_request_encoded:
  assumes "address_ok address"
  shows "socks_request ([5, 1, 0] @ encode_address address @ u16_to_be_bytes port @ rest) =
    Target (address_host address) port rest"
proof -
  have port: "take_exact 2 (u16_to_be_bytes port @ rest) = Some (u16_to_be_bytes port, rest)" by simp
  show ?thesis
  proof (cases address)
    case (Domain name)
    then have "socks_host 3 ([of_nat (length name)] @ as_bytes name @ u16_to_be_bytes port @ rest) =
        Some (Some (name, u16_to_be_bytes port @ rest))"
      using assms socks_host_encoded(1) by simp
    then show ?thesis
      using Domain port socks_request_head [of 3 "[of_nat (length name)] @ as_bytes name @ u16_to_be_bytes port @ rest"] by simp
  next
    case (Address4 a b c d)
    then show ?thesis
      using port socks_request_head [of 1 "[a, b, c, d] @ u16_to_be_bytes port @ rest"]
        socks_host_encoded(2) [of a b c d "u16_to_be_bytes port @ rest"] by simp
  qed
qed

lemma socks_target_encoded:
  assumes "address_ok address" "length methods < 256"
  shows "socks_target (encode_request methods address port @ rest) = (Target (address_host address) port rest, [5, 0])"
proof -
  have len: "unat (of_nat (length methods) :: u8) = length methods" using assms(2) by (simp add: unat_of_nat)
  let ?s = "[5, 1, 0] @ encode_address address @ u16_to_be_bytes port @ rest"
  have "take_exact 2 ([5, of_nat (length methods)] @ methods @ ?s) = Some ([5, of_nat (length methods)], methods @ ?s)"
    by (rule take_exact_append) simp
  moreover have "take_exact (length methods) (methods @ ?s) = Some (methods, ?s)" by (rule take_exact_append) simp
  ultimately show ?thesis
    using socks_request_encoded [OF assms(1)] len by (simp add: socks_target_def encode_request_def)
qed

text \<open>
  C30: a SOCKS5 client's CONNECT request, with a domain name or an IPv4 address, is understood: the
  bridge dials exactly the host and port that were asked for through the session it picked, the
  reply says whether that worked, and what the client sent behind the request is passed on. With
  no session the request fails.
\<close>

theorem socks_connect:
  assumes "address_ok address" "length methods < 256"
  shows "socks_handle (Some session) dial (encode_request methods address port @ rest) =
      (case dial session (address_host address) port of
         Inr remote \<Rightarrow> ([5, 0] @ socks_ok, Some (session, remote, address_host address, rest))
       | Inl e \<Rightarrow> ([5, 0] @ socks_failed, None)) \<and>
    socks_handle None dial (encode_request methods address port @ rest) = ([5, 0] @ socks_failed, None)"
  using socks_target_encoded [OF assms] by (simp add: socks_handle_def split: sum.splits)

theorem socks_connect_witness:
  "socks_handle (Some ()) (\<lambda>u host port. Inr (host, port) :: unit + _) (encode_request [0] (Domain ''a.io'') 443 @ [7]) =
     ([5, 0] @ socks_ok, Some ((), (''a.io'', 443), ''a.io'', [7]))"
proof -
  have "address_ok (Domain ''a.io'')" "length [0 :: u8] < 256" by (simp_all add: is_ascii_def)
  from socks_connect [OF this, of "()" "\<lambda>u host port. Inr (host, port) :: unit + _" 443 "[7]"] show ?thesis by simp
qed


text \<open>
  A bridge serves every connection up to the first accept that fails, and none after it: from then on
  nobody is served any more, whatever comes.
\<close>

lemma socks_serve_until_error:
  "socks_serve accepts =
     (map projr (takeWhile (\<lambda>a. \<not> isl a) accepts), list_all (\<lambda>a. \<not> isl a) accepts)"
  by (induction accepts rule: socks_serve.induct) auto

theorem bridge_dies_at_first_error:
  "socks_serve (map Inr clients @ Inl e # later) = (clients, False)"
  by (induction clients) simp_all

end
