(* ===== verification/Ssh_Account.thy ===== *)
theory Ssh_Account
  imports Embedded
begin

text \<open>
  The SSH accounts (\<open>src/ssh/account.rs\<close>): loading the embedded files, the accounts of a region and
  the grouping by region. The TOML reader is a parameter, from a text to the record of a file.
\<close>

section \<open>Accounts\<close>

record ssh_account =
  sa_ip :: string
  sa_region :: string
  sa_ssh_port :: u16
  sa_ossh_port :: u16
  sa_username :: string
  sa_password :: string
  sa_host_key :: string
  sa_obfuscated_key :: string

record ssh_file =
  sf_region :: string
  sf_ssh_port :: u16
  sf_ossh_port :: u16
  sf_username :: string
  sf_password :: string
  sf_host_key :: string
  sf_obfuscated_key :: string

definition account_of_file :: "string \<Rightarrow> ssh_file \<Rightarrow> ssh_account" where
  "account_of_file ip f =
     \<lparr>sa_ip = ip, sa_region = sf_region f, sa_ssh_port = sf_ssh_port f, sa_ossh_port = sf_ossh_port f,
      sa_username = sf_username f, sa_password = sf_password f, sa_host_key = sf_host_key f,
      sa_obfuscated_key = sf_obfuscated_key f\<rparr>"

fun ssh_load :: "(string \<Rightarrow> string + ssh_file) \<Rightarrow> embedded_file list \<Rightarrow> ssh_account list" where
  "ssh_load toml [] = []"
| "ssh_load toml (file # files) =
     (case contents_utf8 file of
        None \<Rightarrow> ssh_load toml files
      | Some text \<Rightarrow>
          (case toml text of
             Inl err \<Rightarrow> ssh_load toml files
           | Inr account \<Rightarrow>
               (case stem_of file of
                  None \<Rightarrow> ssh_load toml files
                | Some ip \<Rightarrow> account_of_file ip account # ssh_load toml files)))"

definition ssh_parse :: "ssh_account list \<Rightarrow> string \<Rightarrow> ssh_account list" where
  "ssh_parse accounts region = filter (\<lambda>a. region = [] \<or> sa_region a = region) accounts"

text \<open>\<open>grouped.entry(region).or_default().push(account)\<close>.\<close>

definition push_entry :: "string \<Rightarrow> 'a \<Rightarrow> (string \<times> 'a list) list \<Rightarrow> (string \<times> 'a list) list" where
  "push_entry k v m = btree_insert k ((case map_of m k of Some vs \<Rightarrow> vs | None \<Rightarrow> []) @ [v]) m"

definition group_by_region :: "ssh_account list \<Rightarrow> (string \<times> ssh_account list) list" where
  "group_by_region accounts =
     fold (\<lambda>a m. if sa_region a = [] then m else push_entry (sa_region a) a m) accounts []"

section \<open>What is loaded\<close>

text \<open>
  Every file that can be read gives one account, in the order of the files; unlike the VPN accounts,
  two files with the same stem give two accounts.
\<close>

lemma ssh_load_exact:
  "ssh_load toml files =
     List.map_filter (\<lambda>file. Option.bind (contents_utf8 file) (\<lambda>text. case toml text of
        Inl err \<Rightarrow> None
      | Inr account \<Rightarrow> map_option (\<lambda>ip. account_of_file ip account) (stem_of file))) files"
  by (induction toml files rule: ssh_load.induct) (auto simp: map_filter_simps split: option.splits sum.splits)

section \<open>Grouping accounts\<close>

definition grouped :: "ssh_account list \<Rightarrow> (string \<times> ssh_account list) list \<Rightarrow> bool" where
  "grouped accounts m \<longleftrightarrow> btree_ok m \<and>
     (\<forall>r. map_of m r =
       (let as = filter (\<lambda>a. sa_region a = r) accounts in if r = [] \<or> as = [] then None else Some as))"

text \<open>
  Grouping accounts by region loses and invents none: the map has exactly the regions that occur
  (the empty one apart), in order, each with its accounts in the order they came.
\<close>

lemma group_by_region_exact: "grouped accounts (group_by_region accounts)"
proof -
  let ?key = "\<lambda>a. if sa_region a = [] then None else Some (sa_region a)"
  have e: "group_by_region accounts = bt_lists.collect_by ?key accounts []"
    unfolding group_by_region_def bt_lists.collect_by_def push_entry_def by (rule arg_cong [of _ _ "\<lambda>f. fold f accounts []"]) auto
  have keys: "filter (\<lambda>a. ?key a = Some r) accounts = (if r = [] then [] else filter (\<lambda>a. sa_region a = r) accounts)" for r
    by (auto simp: filter_empty_conv intro: filter_cong)
  show ?thesis
    unfolding grouped_def e using bt_lists.collect_by_get [of ?key accounts] by (auto simp: keys Let_def)
qed

section \<open>An example\<close>

definition demo_ssh_account :: ssh_account where
  "demo_ssh_account =
     \<lparr>sa_ip = ''1.2.3.4'', sa_region = ''sg'', sa_ssh_port = 22, sa_ossh_port = 53, sa_username = ''u'', sa_password = ''p'',
      sa_host_key = ''k'', sa_obfuscated_key = ''o''\<rparr>"

end
