(* ===== verification/Ossh.thy ===== *)
theory Ossh
  imports Utf8 Async_Io
begin

text \<open>
  The obfuscated SSH transport (\<open>src/ssh/ossh.rs\<close>): the RC4 stream cipher, the key schedule,
  and the state machine that obfuscates the SSH identification and key exchange in both
  directions and passes everything after \<open>NEWKEYS\<close> through. SHA-1 is a parameter; the inner
  stream is a script of the results its polls give.
\<close>

section \<open>RC4\<close>

record rc4 =
  rc_s :: bytes
  rc_i :: u8
  rc_j :: u8

definition swap_at :: "nat \<Rightarrow> nat \<Rightarrow> 'a list \<Rightarrow> 'a list" where
  "swap_at i j xs = xs[i := xs ! j, j := xs ! i]"

fun ksa :: "bytes \<Rightarrow> nat list \<Rightarrow> bytes \<times> u8 \<Rightarrow> bytes \<times> u8" where
  "ksa key [] sj = sj"
| "ksa key (i # is) (s, j) =
     (let j = j + s ! i + key ! (i mod length key) in ksa key is (swap_at i (unat j) s, j))"

definition rc4_new :: "bytes \<Rightarrow> rc4 exec" where
  "rc4_new key =
     (if key = [] then Panicked
      else Done \<lparr>rc_s = fst (ksa key [0..<256] (map of_nat [0..<256], 0)), rc_i = 0, rc_j = 0\<rparr>)"

definition rc4_byte :: "rc4 \<Rightarrow> u8 \<times> rc4" where
  "rc4_byte c =
     (let i = rc_i c + 1;
          j = rc_j c + rc_s c ! unat i;
          s = swap_at (unat i) (unat j) (rc_s c) in
      (s ! unat (s ! unat i + s ! unat j), \<lparr>rc_s = s, rc_i = i, rc_j = j\<rparr>))"

fun rc4_apply :: "rc4 \<Rightarrow> bytes \<Rightarrow> bytes \<times> rc4" where
  "rc4_apply c [] = ([], c)"
| "rc4_apply c (b # bs) =
     (let (k, c) = rc4_byte c; (rest, c) = rc4_apply c bs in ((b XOR k) # rest, c))"

text \<open>
  What the transport relies on: a cipher works through its input byte by byte, so the pieces
  in which the input comes do not matter, and applying it twice from the same state gives the
  input back.
\<close>

locale stream_cipher =
  fixes app :: "'c \<Rightarrow> bytes \<Rightarrow> bytes \<times> 'c"
  assumes app_Nil: "app c [] = ([], c)"
    and app_append: "app c (xs @ ys) = (fst (app c xs) @ fst (app (snd (app c xs)) ys), snd (app (snd (app c xs)) ys))"
    and app_twice: "fst (app c (fst (app c xs))) = xs \<and> snd (app c (fst (app c xs))) = snd (app c xs)"
begin

lemma length_app: "length (fst (app c xs)) = length xs"
proof (induction xs arbitrary: c)
  case (Cons x xs)
  have one: "length (fst (app c [x])) = 1"
  proof (rule ccontr)
    assume a: "length (fst (app c [x])) \<noteq> 1"
    then consider "fst (app c [x]) = []" | y z zs where "fst (app c [x]) = y # z # zs"
      by (metis One_nat_def length_Cons list.size(3) neq_Nil_conv)
    then show False
    proof cases
      case 1
      with app_twice [of c "[x]"] show False by (simp add: app_Nil)
    next
      case (2 y z zs)
      from app_twice [of c "[x]"] app_append [of c "[y]" "z # zs"] 2
      have "fst (app c [y]) = [] \<or> fst (app (snd (app c [y])) (z # zs)) = []" by (auto simp: append_eq_Cons_conv)
      then show False
      proof
        assume "fst (app c [y]) = []"
        with app_twice [of c "[y]"] show False by (simp add: app_Nil)
      next
        assume "fst (app (snd (app c [y])) (z # zs)) = []"
        with app_twice [of "snd (app c [y])" "z # zs"] show False by (simp add: app_Nil)
      qed
    qed
  qed
  show ?case using app_append [of c "[x]" xs] one Cons [of "snd (app c [x])"] by simp
qed (simp add: app_Nil)

end

lemma rc4_apply_append:
  "rc4_apply c (xs @ ys) =
     (fst (rc4_apply c xs) @ fst (rc4_apply (snd (rc4_apply c xs)) ys), snd (rc4_apply (snd (rc4_apply c xs)) ys))"
  by (induction xs arbitrary: c) (auto simp: case_prod_beta Let_def)

lemma rc4_apply_twice:
  "fst (rc4_apply c (fst (rc4_apply c xs))) = xs \<and> snd (rc4_apply c (fst (rc4_apply c xs))) = snd (rc4_apply c xs)"
proof (induction xs arbitrary: c)
  case (Cons x xs)
  have "(x XOR k) XOR k = x" for k :: u8 by (simp add: xor.assoc)
  with Cons [of "snd (rc4_byte c)"] show ?case by (simp add: case_prod_beta Let_def)
qed simp

interpretation rc: stream_cipher rc4_apply
  by unfold_locales (simp, rule rc4_apply_append, rule rc4_apply_twice)

section \<open>Keys and packets\<close>

definition SEED_LENGTH :: nat where [consts_defs]: "SEED_LENGTH = 16"
definition KEY_LENGTH :: nat where [consts_defs]: "KEY_LENGTH = 16"
definition HASH_ITERATIONS :: nat where [consts_defs]: "HASH_ITERATIONS = 6000"
definition MAGIC :: u32 where [consts_defs]: "MAGIC = 0x0BF5CA7E"
definition MAX_SSH_PACKET :: nat where [consts_defs]: "MAX_SSH_PACKET = 256 * 1024"
definition MAX_LINE :: nat where [consts_defs]: "MAX_LINE = 4096"
definition MSG_NEWKEYS :: u8 where [consts_defs]: "MSG_NEWKEYS = 21"

definition derive_key :: "(bytes \<Rightarrow> bytes) \<Rightarrow> bytes \<Rightarrow> bytes \<Rightarrow> bytes \<Rightarrow> bytes exec" where
  "derive_key sha1 seed keyword iv =
     (let digest = (sha1 ^^ HASH_ITERATIONS) (sha1 (seed @ keyword @ iv)) in slice digest 0 KEY_LENGTH)"

lemma mod8_step: "m mod 8 \<noteq> 0 \<Longrightarrow> (8 - Suc m mod 8) mod 8 < (8 - m mod 8) mod (8 :: nat)"
proof -
  assume a: "m mod 8 \<noteq> 0"
  have "m mod 8 < 8" by simp
  with a show ?thesis by (cases "m mod 8 = 7") (auto simp: mod_Suc)
qed

function pad_loop :: "nat \<Rightarrow> nat \<Rightarrow> nat" where
  "pad_loop n new_padding =
     (if (n + 1 + new_padding + 4) mod 8 = 0 then new_padding else pad_loop n (new_padding + 1))"
  by pat_completeness auto
termination
proof (relation "measure (\<lambda>(n, p). (8 - (n + 1 + p + 4) mod 8) mod 8)")
  fix n p :: nat assume "(n + 1 + p + 4) mod 8 \<noteq> 0"
  from mod8_step [OF this] show "((n, p + 1), (n, p)) \<in> measure (\<lambda>(n, p). (8 - (n + 1 + p + 4) mod 8) mod 8)"
    by simp
qed simp

declare pad_loop.simps [simp del]

definition normalize_packet :: "bytes \<Rightarrow> bytes exec" where
  "normalize_packet packet =
     (if length packet < 5 then Panicked
      else
        let packet_length = unat (u32_from_be_bytes (take 4 packet));
            padding_length = unat (packet ! 4);
            payload_length = packet_length - (padding_length + 1);
            payload_end = min (5 + payload_length) (length packet);
            payload = take (payload_end - 5) (drop 5 packet);
            new_padding = pad_loop (length payload) 4 in
        Done (u32_to_be_bytes (of_nat (length payload + 1 + new_padding)) @ [of_nat new_padding] @
              payload @ replicate new_padding 0))"

fun find_crlf :: "bytes \<Rightarrow> nat option" where
  "find_crlf (a # b # bs) = (if a = 13 \<and> b = 10 then Some 0 else map_option Suc (find_crlf (b # bs)))"
| "find_crlf _ = None"

section \<open>The stream\<close>

datatype ossh_phase = Ident | Kex | Passed

text \<open>\<open>Passed\<close> is the state \<open>Done\<close> of \<open>WriteState\<close> and \<open>ReadState\<close>.\<close>

record ossh =
  os_c2s :: rc4
  os_s2c :: rc4
  os_wstate :: ossh_phase
  os_wbuf :: bytes
  os_wout :: bytes
  os_rstate :: ossh_phase
  os_rin :: bytes
  os_rbuf :: bytes
  os_rline :: bytes
  os_kex_prefix :: "(bytes \<times> nat) option"

text \<open>\<open>seed\<close> and \<open>padding\<close> are what \<open>rand::fill\<close> gives.\<close>

definition ossh_new :: "(bytes \<Rightarrow> bytes) \<Rightarrow> bytes \<Rightarrow> bytes \<Rightarrow> bytes \<Rightarrow> ossh exec" where
  "ossh_new sha1 seed padding keyword =
     exec_bind (derive_key sha1 seed keyword (as_bytes ''client_to_server''))
       (\<lambda>c2s_key.
     exec_bind (derive_key sha1 seed keyword (as_bytes ''server_to_client''))
       (\<lambda>s2c_key.
     exec_bind (rc4_new c2s_key) (\<lambda>c2s.
     exec_bind (rc4_new s2c_key) (\<lambda>s2c.
       let (encrypted, c2s) =
         rc4_apply c2s (u32_to_be_bytes MAGIC @ u32_to_be_bytes (of_nat (length padding)) @ padding) in
       Done \<lparr>os_c2s = c2s, os_s2c = s2c, os_wstate = Ident, os_wbuf = [], os_wout = seed @ encrypted,
             os_rstate = Ident, os_rin = [], os_rbuf = [], os_rline = [], os_kex_prefix = None\<rparr>))))"

definition write_ident :: "ossh \<Rightarrow> ossh" where
  "write_ident o1 =
     (if os_wstate o1 = Ident
      then case find_crlf (os_wbuf o1) of
          None \<Rightarrow> o1
        | Some index \<Rightarrow>
            let stop = index + 2;
                (line, c2s) = rc4_apply (os_c2s o1) (take stop (os_wbuf o1)) in
            o1\<lparr>os_wbuf := drop stop (os_wbuf o1), os_c2s := c2s, os_wout := os_wout o1 @ line,
               os_wstate := Kex\<rparr>
      else o1)"

definition packet_size :: "bytes \<Rightarrow> nat option" where
  "packet_size buf =
     (if length buf < 5 then None
      else
        let packet_length = unat (u32_from_be_bytes (take 4 buf)) in
        if packet_length < 1 \<or> MAX_SSH_PACKET < packet_length then None
        else if length buf < packet_length + 4 then None
        else Some (packet_length + 4))"

text \<open>The loop over whole packets: \<open>packet[5]\<close> panics on a packet of five bytes.\<close>

function write_kex :: "ossh \<Rightarrow> ossh exec" where
  "write_kex o1 =
     (case packet_size (os_wbuf o1) of
        None \<Rightarrow> Done o1
      | Some len \<Rightarrow>
          let packet = take len (os_wbuf o1) in
          if length packet \<le> 5 then Panicked
          else
            let newkeys = (packet ! 5 = MSG_NEWKEYS);
                (out, c2s) = rc4_apply (os_c2s o1) packet;
                o1 = o1\<lparr>os_wbuf := drop len (os_wbuf o1), os_c2s := c2s, os_wout := os_wout o1 @ out\<rparr> in
            if newkeys then Done (o1\<lparr>os_wstate := Passed\<rparr>) else write_kex o1)"
  by pat_completeness auto
termination
  by (relation "measure (\<lambda>o1. length (os_wbuf o1))")
    (auto simp: packet_size_def Let_def split: if_splits)

declare write_kex.simps [simp del]

definition write_rest :: "ossh \<Rightarrow> ossh" where
  "write_rest o1 =
     (if os_wstate o1 = Passed \<and> os_wbuf o1 \<noteq> []
      then o1\<lparr>os_wout := os_wout o1 @ os_wbuf o1, os_wbuf := []\<rparr> else o1)"

definition process_write :: "ossh \<Rightarrow> ossh exec" where
  "process_write o1 =
     (let o1 = write_ident o1 in
      exec_bind (if os_wstate o1 = Kex then write_kex o1 else Done o1) (\<lambda>o1. Done (write_rest o1)))"

text \<open>
  \<open>process_read\<close>. One round either stops the loop or goes on with what is left; the shrinking
  of empty buffers has no effect on their content.
\<close>

definition read_ident :: "ossh \<Rightarrow> bool \<times> ossh" where
  "read_ident o1 =
     (case os_rin o1 of
        [] \<Rightarrow> (False, o1)
      | b # rin \<Rightarrow>
          let (byte, s2c) = rc4_apply (os_s2c o1) [b];
              rline = os_rline o1 @ byte;
              o1 = o1\<lparr>os_rin := rin, os_s2c := s2c, os_rline := rline\<rparr> in
          if MAX_LINE < length rline then (True, o1\<lparr>os_rline := []\<rparr>)
          else if ends_with rline [13, 10] then
            if starts_with rline (as_bytes ''SSH-'')
            then (False, o1\<lparr>os_rbuf := os_rbuf o1 @ rline, os_rline := [], os_rstate := Kex\<rparr>)
            else (True, o1\<lparr>os_rline := []\<rparr>)
          else (True, o1))"

definition read_prefix :: "ossh \<Rightarrow> bool \<times> ossh" where
  "read_prefix o1 =
     (case os_kex_prefix o1 of
        Some _ \<Rightarrow> (True, o1)
      | None \<Rightarrow>
          if length (os_rin o1) < 5 then (False, o1)
          else
            let (prefix, s2c) = rc4_apply (os_s2c o1) (take 5 (os_rin o1));
                o1 = o1\<lparr>os_rin := drop 5 (os_rin o1), os_s2c := s2c\<rparr>;
                packet_length = unat (u32_from_be_bytes (take 4 prefix)) in
            if packet_length < 1 \<or> MAX_SSH_PACKET < packet_length then (False, o1)
            else (True, o1\<lparr>os_kex_prefix := Some (prefix, packet_length - 1)\<rparr>))"

definition read_body :: "ossh \<Rightarrow> (bool \<times> ossh) exec" where
  "read_body o1 =
     (case os_kex_prefix o1 of
        None \<Rightarrow> Panicked
      | Some (prefix, remaining) \<Rightarrow>
          if length (os_rin o1) < remaining then Done (False, o1)
          else
            let (rest, s2c) = rc4_apply (os_s2c o1) (take remaining (os_rin o1));
                packet = prefix @ rest;
                newkeys = (5 < length packet \<and> packet ! 5 = MSG_NEWKEYS);
                o1 = o1\<lparr>os_rin := drop remaining (os_rin o1), os_s2c := s2c, os_kex_prefix := None\<rparr> in
            exec_bind (normalize_packet packet) (\<lambda>normalized.
              let o1 = o1\<lparr>os_rbuf := os_rbuf o1 @ normalized\<rparr> in
              if newkeys then Done (False, o1\<lparr>os_rstate := Passed\<rparr>) else Done (True, o1)))"

definition read_round :: "ossh \<Rightarrow> (bool \<times> ossh) exec" where
  "read_round o1 =
     (case os_rstate o1 of
        Ident \<Rightarrow> Done (read_ident o1)
      | Kex \<Rightarrow> (let (go, o1) = read_prefix o1 in if go then read_body o1 else Done (False, o1))
      | Passed \<Rightarrow> Done (False, o1))"

definition read_left :: "ossh \<Rightarrow> nat" where
  "read_left o1 = 2 * length (os_rin o1) + (if os_kex_prefix o1 = None then 0 else 1)"

lemma read_round_less: "read_round o1 = Done (True, o2) \<Longrightarrow> read_left o2 < read_left o1"
proof (cases "os_rstate o1")
  case Ident
  then show "read_round o1 = Done (True, o2) \<Longrightarrow> ?thesis"
    by (auto simp: read_round_def read_ident_def read_left_def Let_def case_prod_beta split: list.splits if_splits)
next
  case Kex
  assume a: "read_round o1 = Done (True, o2)"
  then obtain o3 where o3: "read_prefix o1 = (True, o3)" "read_body o3 = Done (True, o2)"
    using Kex by (cases "read_prefix o1") (auto simp: read_round_def split: if_splits)
  have "read_left o3 \<le> read_left o1"
    using o3(1) by (auto simp: read_prefix_def read_left_def Let_def case_prod_beta split: option.splits if_splits)
  moreover obtain prefix n where k: "os_kex_prefix o3 = Some (prefix, n)" "n \<le> length (os_rin o3)"
    using o3(2) by (auto simp: read_body_def split: option.splits if_splits)
  moreover have "os_rin o2 = drop n (os_rin o3) \<and> os_kex_prefix o2 = None"
    using o3(2) k by (cases "normalize_packet (prefix @ fst (rc4_apply (os_s2c o3) (take n (os_rin o3))))")
      (auto simp: read_body_def Let_def case_prod_beta simp del: nth_append split: if_splits)
  then have "read_left o2 < read_left o3" using k by (simp add: read_left_def)
  ultimately show ?thesis by simp
qed (simp add: read_round_def)

function process_read :: "ossh \<Rightarrow> ossh exec" where
  "process_read o1 =
     (case read_round o1 of
        Panicked \<Rightarrow> Panicked
      | Done (go, o2) \<Rightarrow> if go then process_read o2 else Done o2)"
  by pat_completeness auto
termination
  by (relation "measure read_left") (auto simp: read_round_less)

declare process_read.simps [simp del]

section \<open>Polling\<close>

text \<open>
  The inner stream: the results its polls will give (\<open>Ready (Inl e)\<close> is an I/O error; a read gives
  at most the 8192 bytes it was asked for), pending when there are no more, what a flush and a
  shutdown of it answer, and the bytes it has taken.
\<close>

record inner =
  in_reads :: "bytes poll list"
  in_writes :: "nat poll list"
  in_flush :: "unit poll"
  in_shutdown :: "unit poll"
  in_sent :: bytes

definition next_write :: "inner \<Rightarrow> nat poll \<times> inner" where
  "next_write w = (case in_writes w of [] \<Rightarrow> (Pending, w) | r # rs \<Rightarrow> (r, w\<lparr>in_writes := rs\<rparr>))"

text \<open>\<open>advance\<close> past the end of the buffer would panic.\<close>

function flush_out :: "ossh \<times> inner \<Rightarrow> (unit poll \<times> ossh \<times> inner) exec" where
  "flush_out (o1, w) =
     (if os_wout o1 = [] then Done (Ready (Inr ()), o1, w)
      else case next_write w of
        (Pending, w) \<Rightarrow> Done (Pending, o1, w)
      | (Ready (Inl e), w) \<Rightarrow> Done (Ready (Inl e), o1, w)
      | (Ready (Inr n), w) \<Rightarrow>
          if n = 0 then Done (Ready (Inl ''write zero''), o1, w)
          else if length (os_wout o1) < n then Panicked
          else flush_out (o1\<lparr>os_wout := drop n (os_wout o1)\<rparr>, w\<lparr>in_sent := in_sent w @ take n (os_wout o1)\<rparr>))"
  by pat_completeness auto
termination
  by (relation "measure (\<lambda>(o1, w). length (os_wout o1))") auto

declare flush_out.simps [simp del]

definition push_bytes :: "bytes \<Rightarrow> ossh \<Rightarrow> ossh" where
  "push_bytes b o1 = o1\<lparr>os_wbuf := os_wbuf o1 @ b\<rparr>"

text \<open>\<open>poll_write\<close> looks only whether the first flush is pending; its error is dropped.\<close>

definition poll_write :: "bytes \<Rightarrow> ossh \<times> inner \<Rightarrow> (nat poll \<times> ossh \<times> inner) exec" where
  "poll_write buf s =
     exec_bind (flush_out s) (\<lambda>(r, o1, w).
       if r = Pending then Done (Pending, o1, w)
       else
         exec_bind (process_write (push_bytes buf o1)) (\<lambda>o1.
         exec_bind (flush_out (o1, w)) (\<lambda>(r, o1, w).
           case r of
             Ready (Inl e) \<Rightarrow> Done (Ready (Inl e), o1, w)
           | _ \<Rightarrow> Done (Ready (Inr (length buf)), o1, w))))"

definition poll_flush :: "ossh \<times> inner \<Rightarrow> (unit poll \<times> ossh \<times> inner) exec" where
  "poll_flush s =
     exec_bind (flush_out s) (\<lambda>(r, o1, w).
       case r of
         Pending \<Rightarrow> Done (Pending, o1, w)
       | Ready (Inl e) \<Rightarrow> Done (Ready (Inl e), o1, w)
       | Ready (Inr u) \<Rightarrow> Done (in_flush w, o1, w))"

definition poll_shutdown :: "ossh \<times> inner \<Rightarrow> (unit poll \<times> ossh \<times> inner) exec" where
  "poll_shutdown s =
     exec_bind (flush_out s) (\<lambda>(r, o1, w).
       case r of
         Pending \<Rightarrow> Done (Pending, o1, w)
       | Ready (Inl e) \<Rightarrow> Done (Ready (Inl e), o1, w)
       | Ready (Inr u) \<Rightarrow> Done (in_shutdown w, o1, w))"

fun read_more :: "bytes poll list \<Rightarrow> nat \<Rightarrow> ossh \<Rightarrow> (bytes poll \<times> ossh \<times> bytes poll list) exec" where
  "read_more reads room o1 =
     exec_bind (process_read o1) (\<lambda>o1.
       let o1 = (if os_rbuf o1 = [] \<and> os_rstate o1 = Passed \<and> os_rin o1 \<noteq> []
                 then o1\<lparr>os_rbuf := os_rin o1, os_rin := []\<rparr> else o1) in
       if os_rbuf o1 \<noteq> []
       then Done (Ready (Inr (take room (os_rbuf o1))), o1\<lparr>os_rbuf := drop room (os_rbuf o1)\<rparr>, reads)
       else case reads of
           [] \<Rightarrow> Done (Pending, o1, [])
         | Pending # reads \<Rightarrow> Done (Pending, o1, reads)
         | Ready (Inl e) # reads \<Rightarrow> Done (Ready (Inl e), o1, reads)
         | Ready (Inr data) # reads \<Rightarrow>
             if data = [] then Done (Ready (Inr []), o1, reads)
             else read_more reads room (o1\<lparr>os_rin := os_rin o1 @ data\<rparr>))"

definition poll_read :: "nat \<Rightarrow> ossh \<times> inner \<Rightarrow> (bytes poll \<times> ossh \<times> inner) exec" where
  "poll_read room s =
     exec_bind (read_more (in_reads (snd s)) room (fst s)) (\<lambda>(r, o1, reads).
       Done (r, o1, (snd s)\<lparr>in_reads := reads\<rparr>))"

section \<open>The way in which a client writes does not matter\<close>

lemma push_bytes_simps [simp]:
  "os_wbuf (push_bytes b o1) = os_wbuf o1 @ b" "os_wstate (push_bytes b o1) = os_wstate o1"
  "os_c2s (push_bytes b o1) = os_c2s o1" "os_wout (push_bytes b o1) = os_wout o1"
  "push_bytes b (push_bytes a o1) = push_bytes (a @ b) o1" "push_bytes [] o1 = o1"
  by (simp_all add: push_bytes_def)

lemma find_crlf_Some: "find_crlf bs = Some i \<Longrightarrow> i + 2 \<le> length bs"
  by (induction bs arbitrary: i rule: find_crlf.induct) (auto split: if_splits)

lemma find_crlf_append: "find_crlf xs = Some i \<Longrightarrow> find_crlf (xs @ ys) = Some i"
  by (induction xs arbitrary: i rule: find_crlf.induct) (auto split: if_splits)

lemma packet_size_append: "packet_size xs = Some n \<Longrightarrow> packet_size (xs @ ys) = Some n"
  by (auto simp: packet_size_def Let_def split: if_splits)

lemma packet_size_le: "packet_size xs = Some n \<Longrightarrow> n \<le> length xs"
  by (auto simp: packet_size_def Let_def split: if_splits)

text \<open>One round of the packet loop.\<close>

definition kex_sent :: "nat \<Rightarrow> ossh \<Rightarrow> ossh" where
  "kex_sent n o1 =
     o1\<lparr>os_wbuf := drop n (os_wbuf o1), os_c2s := snd (rc4_apply (os_c2s o1) (take n (os_wbuf o1))),
        os_wout := os_wout o1 @ fst (rc4_apply (os_c2s o1) (take n (os_wbuf o1)))\<rparr>"

lemma write_kex_Some:
  "packet_size (os_wbuf o1) = Some n \<Longrightarrow> write_kex o1 =
     (if length (take n (os_wbuf o1)) \<le> 5 then Panicked
      else if take n (os_wbuf o1) ! 5 = MSG_NEWKEYS then Done ((kex_sent n o1)\<lparr>os_wstate := Passed\<rparr>)
      else write_kex (kex_sent n o1))"
  by (simp add: write_kex.simps [of o1] kex_sent_def case_prod_beta Let_def)

lemma kex_sent_push:
  "n \<le> length (os_wbuf o1) \<Longrightarrow> kex_sent n (push_bytes b o1) = push_bytes b (kex_sent n o1)"
  by (simp add: kex_sent_def push_bytes_def)

lemma write_kex_append:
  assumes "os_wstate o1 = Kex"
  shows "exec_bind (write_kex o1) (\<lambda>o2. if os_wstate o2 = Kex then write_kex (push_bytes b o2) else Done (push_bytes b o2)) =
    write_kex (push_bytes b o1)"
  using assms
proof (induction o1 rule: write_kex.induct)
  case (1 o1)
  show ?case
  proof (cases "packet_size (os_wbuf o1)")
    case None
    then show ?thesis using "1.prems" by (simp add: write_kex.simps [of o1])
  next
    case (Some n)
    let ?p = "take n (os_wbuf o1)" and ?o2 = "kex_sent n o1"
    have n: "n \<le> length (os_wbuf o1)" by (rule packet_size_le [OF Some])
    have p: "take n (os_wbuf (push_bytes b o1)) = ?p" using n by simp
    have app: "packet_size (os_wbuf (push_bytes b o1)) = Some n" using packet_size_append [OF Some] by simp
    have st: "os_wstate ?o2 = Kex" using "1.prems" by (simp add: kex_sent_def)
    have IH: "exec_bind (write_kex ?o2) (\<lambda>o2. if os_wstate o2 = Kex then write_kex (push_bytes b o2)
        else Done (push_bytes b o2)) = write_kex (push_bytes b ?o2)"
      if "\<not> length ?p \<le> 5" "?p ! 5 \<noteq> MSG_NEWKEYS"
      using "1.IH" [OF Some refl that(1) refl, of "rc4_apply (os_c2s o1) ?p" "fst (rc4_apply (os_c2s o1) ?p)"
          "snd (rc4_apply (os_c2s o1) ?p)" ?o2] that(2) st
      by (simp add: kex_sent_def del: nth_take)
    show ?thesis
      unfolding write_kex_Some [OF Some] write_kex_Some [OF app, unfolded p kex_sent_push [OF n]]
      using IH by (auto simp: push_bytes_def simp del: nth_take)
  qed
qed

lemma write_ident_push:
  "os_wstate o1 \<noteq> Ident \<Longrightarrow> write_ident (push_bytes b o1) = push_bytes b (write_ident o1)"
  by (simp add: write_ident_def)

lemma write_ident_append: "write_ident (push_bytes b (write_ident o1)) = write_ident (push_bytes b o1)"
proof (cases "os_wstate o1 = Ident \<and> find_crlf (os_wbuf o1) \<noteq> None")
  case True
  then obtain i where i: "find_crlf (os_wbuf o1) = Some i" by blast
  then have "find_crlf (os_wbuf o1 @ b) = Some i" "i + 2 \<le> length (os_wbuf o1)"
    using find_crlf_append find_crlf_Some by blast+
  with True i show ?thesis
    by (simp add: write_ident_def case_prod_beta Let_def push_bytes_def)
next
  case False
  then have "write_ident o1 = o1" by (auto simp: write_ident_def)
  then show ?thesis by simp
qed

lemma write_kex_state: "write_kex o1 = Done o2 \<Longrightarrow> os_wstate o1 = Kex \<Longrightarrow> os_wstate o2 = Kex \<or> os_wstate o2 = Passed"
proof (induction o1 rule: write_kex.induct)
  case (1 o1)
  show ?case
  proof (cases "packet_size (os_wbuf o1)")
    case (Some n)
    let ?p = "take n (os_wbuf o1)"
    have IH: "write_kex (kex_sent n o1) = Done o2 \<Longrightarrow> ?thesis"
      if "\<not> length ?p \<le> 5" "?p ! 5 \<noteq> MSG_NEWKEYS"
      using "1.IH" [OF Some refl that(1) refl, of "rc4_apply (os_c2s o1) ?p" "fst (rc4_apply (os_c2s o1) ?p)"
          "snd (rc4_apply (os_c2s o1) ?p)" "kex_sent n o1"] that(2) "1.prems"(2)
      by (simp add: kex_sent_def del: nth_take)
    from "1.prems"(1) IH show ?thesis
      unfolding write_kex_Some [OF Some] by (auto split: if_splits simp del: nth_take)
  qed (use "1.prems" in \<open>simp add: write_kex.simps [of o1]\<close>)
qed

lemma write_rest_push: "write_rest (push_bytes b (write_rest o1)) = write_rest (push_bytes b o1)"
  by (auto simp: write_rest_def push_bytes_def)

lemma process_write_append:
  "exec_bind (process_write o1) (\<lambda>o2. process_write (push_bytes b o2)) = process_write (push_bytes b o1)"
proof -
  define i1 where "i1 = write_ident o1"
  have i2: "write_ident (push_bytes b o1) = write_ident (push_bytes b i1)"
    by (simp add: i1_def write_ident_append)
  have other: "write_ident o2 = o2" if "os_wstate o2 \<noteq> Ident" for o2
    using that by (simp add: write_ident_def)
  have finish: "process_write (push_bytes b (write_rest o2)) =
      exec_bind (if os_wstate o2 = Kex then write_kex (push_bytes b o2) else Done (push_bytes b o2)) (\<lambda>o3. Done (write_rest o3))"
    if "os_wstate o2 \<noteq> Ident" for o2
  proof -
    have "os_wstate (write_rest o2) = os_wstate o2" by (simp add: write_rest_def)
    then have "process_write (push_bytes b (write_rest o2)) =
        exec_bind (if os_wstate o2 = Kex then write_kex (push_bytes b (write_rest o2))
          else Done (push_bytes b (write_rest o2))) (\<lambda>o3. Done (write_rest o3))"
      using other [of "push_bytes b (write_rest o2)"] that by (simp add: process_write_def Let_def)
    moreover have "write_rest o2 = o2" if "os_wstate o2 = Kex" using that by (simp add: write_rest_def)
    ultimately show ?thesis by (simp add: write_rest_push)
  qed
  show ?thesis
  proof (cases "os_wstate i1")
    case Ident
    then have "process_write o1 = Done i1" by (simp add: process_write_def i1_def [symmetric] write_rest_def)
    then show ?thesis by (simp add: process_write_def i2)
  next
    case Kex
    then have "write_ident (push_bytes b i1) = push_bytes b i1" by (simp add: other)
    then have "process_write (push_bytes b o1) = exec_bind (write_kex (push_bytes b i1)) (\<lambda>o3. Done (write_rest o3))"
      using Kex by (simp add: process_write_def i2)
    also have "\<dots> = exec_bind (process_write o1) (\<lambda>o2. process_write (push_bytes b o2))"
      unfolding write_kex_append [OF Kex, symmetric] process_write_def [of o1] i1_def [symmetric]
      using Kex finish write_kex_state [OF _ Kex]
      by (cases "write_kex i1") (auto simp: Let_def)
    finally show ?thesis by simp
  next
    case Passed
    then have "process_write o1 = Done (write_rest i1)" by (simp add: process_write_def i1_def [symmetric])
    with Passed finish [of i1] other [of "push_bytes b i1"] show ?thesis
      by (simp add: process_write_def [of "push_bytes b o1"] i2)
  qed
qed

fun write_all :: "bytes list \<Rightarrow> ossh \<Rightarrow> ossh exec" where
  "write_all [] o1 = Done o1"
| "write_all (w # ws) o1 = exec_bind (process_write (push_bytes w o1)) (write_all ws)"

text \<open>
  It does not matter in which pieces a client's bytes come: writing them piece by piece leaves the
  transport in the same state, with the same bytes for the wire, as writing them at once (and panics
  exactly when that does).
\<close>

lemma process_write_list:
  "write_all (w # ws) o1 = process_write (push_bytes (concat (w # ws)) o1)"
proof (induction ws arbitrary: w o1)
  case Nil
  then show ?case by (cases "process_write (push_bytes w o1)") simp_all
next
  case (Cons v ws)
  have "write_all (w # v # ws) o1 =
      exec_bind (process_write (push_bytes w o1)) (\<lambda>o2. process_write (push_bytes (concat (v # ws)) o2))"
    using Cons by (cases "process_write (push_bytes w o1)") simp_all
  then show ?case by (simp add: process_write_append)
qed

text \<open>The obfuscated part of what was written.\<close>

definition obfuscated :: "ossh \<Rightarrow> bytes \<Rightarrow> ossh \<Rightarrow> bool" where
  "obfuscated o1 h o2 \<longleftrightarrow>
     os_wbuf o1 = h @ os_wbuf o2 \<and> os_wout o2 = os_wout o1 @ fst (rc4_apply (os_c2s o1) h) \<and>
     os_c2s o2 = snd (rc4_apply (os_c2s o1) h)"

lemma obfuscated_trans: "obfuscated o1 h o2 \<Longrightarrow> obfuscated o2 k o3 \<Longrightarrow> obfuscated o1 (h @ k) o3"
  by (simp add: obfuscated_def rc4_apply_append)

lemma obfuscated_kex_sent: "n \<le> length (os_wbuf o1) \<Longrightarrow> obfuscated o1 (take n (os_wbuf o1)) (kex_sent n o1)"
  by (simp add: obfuscated_def kex_sent_def)

lemma obfuscated_ident: "\<exists>h. obfuscated o1 h (write_ident o1)"
proof (cases "os_wstate o1 = Ident \<and> find_crlf (os_wbuf o1) \<noteq> None")
  case True
  then obtain i where "find_crlf (os_wbuf o1) = Some i" by blast
  with True have "obfuscated o1 (take (i + 2) (os_wbuf o1)) (write_ident o1)"
    by (simp add: write_ident_def obfuscated_def case_prod_beta)
  then show ?thesis ..
next
  case False
  then have "write_ident o1 = o1" by (auto simp: write_ident_def)
  then show ?thesis by (intro exI [of _ "[]"]) (simp add: obfuscated_def)
qed

lemma obfuscated_kex: "write_kex o1 = Done o2 \<Longrightarrow> \<exists>h. obfuscated o1 h o2"
proof (induction o1 rule: write_kex.induct)
  case (1 o1)
  show ?case
  proof (cases "packet_size (os_wbuf o1)")
    case None
    with "1.prems" have "o2 = o1" by (simp add: write_kex.simps [of o1])
    then show ?thesis by (intro exI [of _ "[]"]) (simp add: obfuscated_def)
  next
    case (Some n)
    let ?p = "take n (os_wbuf o1)"
    note one = obfuscated_kex_sent [OF packet_size_le [OF Some]]
    have big: "\<not> length ?p \<le> 5" using "1.prems" unfolding write_kex_Some [OF Some] by (auto split: if_splits)
    show ?thesis
    proof (cases "?p ! 5 = MSG_NEWKEYS")
      case True
      with big "1.prems" have "o2 = (kex_sent n o1)\<lparr>os_wstate := Passed\<rparr>"
        unfolding write_kex_Some [OF Some] by (auto simp del: nth_take)
      with one show ?thesis by (intro exI [of _ ?p]) (simp add: obfuscated_def)
    next
      case False
      with big "1.prems" have "write_kex (kex_sent n o1) = Done o2"
        unfolding write_kex_Some [OF Some] by (auto simp del: nth_take)
      then have "\<exists>h. obfuscated (kex_sent n o1) h o2"
        using "1.IH" [OF Some refl big refl, of "rc4_apply (os_c2s o1) ?p" "fst (rc4_apply (os_c2s o1) ?p)"
            "snd (rc4_apply (os_c2s o1) ?p)" "kex_sent n o1"] False
        by (simp add: kex_sent_def del: nth_take)
      with one obfuscated_trans show ?thesis by blast
    qed
  qed
qed

section \<open>Normalised packets\<close>

lemma pad_loop_spec: "p \<le> pad_loop n p \<and> pad_loop n p \<le> p + 7 \<and> (n + 1 + pad_loop n p + 4) mod 8 = 0"
proof -
  have ex: "\<exists>d. d \<le> 7 \<and> (n + 1 + (p + d) + 4) mod 8 = 0" by presburger
  have loop: "p \<le> pad_loop n p \<and> pad_loop n p \<le> p + d \<and> (n + 1 + pad_loop n p + 4) mod 8 = 0"
    if "(n + 1 + (p + d) + 4) mod 8 = 0" for d p
    using that
  proof (induction d arbitrary: p)
    case (Suc d)
    have IH: "p + 1 \<le> pad_loop n (p + 1) \<and> pad_loop n (p + 1) \<le> p + 1 + d \<and>
        (n + 1 + pad_loop n (p + 1) + 4) mod 8 = 0"
      by (rule Suc.IH) (use Suc.prems in simp)
    show ?case
    proof (cases "(n + 1 + p + 4) mod 8 = 0")
      case True
      then show ?thesis by (simp add: pad_loop.simps [of n p])
    next
      case False
      then have "pad_loop n p = pad_loop n (p + 1)" by (simp add: pad_loop.simps [of n p])
      with IH show ?thesis by simp
    qed
  next
    case 0
    then show ?case by (simp add: pad_loop.simps [of n p])
  qed
  from ex obtain d where d: "d \<le> 7" "(n + 1 + (p + d) + 4) mod 8 = 0" by (elim exE conjE)
  from loop [OF d(2)] d(1) show ?thesis by linarith
qed

text \<open>
  A well-formed SSH packet is normalised to a well-formed one with the same payload: its
  length fields agree, the whole is a multiple of eight bytes, and the padding is 4 to 11 zero
  bytes, whatever padding the server chose.
\<close>

theorem normalize_packet_payload:
  assumes "length padding < 256" "length payload + 1 + length padding < 2 ^ 32"
    "packet = u32_to_be_bytes (of_nat (length payload + 1 + length padding)) @ [of_nat (length padding)] @
       payload @ padding"
  shows "\<exists>n. 4 \<le> n \<and> n \<le> 11 \<and> (5 + length payload + n) mod 8 = 0 \<and>
    normalize_packet packet = Done (u32_to_be_bytes (of_nat (length payload + 1 + n)) @ [of_nat n] @
       payload @ replicate n 0)"
proof -
  let ?n = "pad_loop (length payload) 4"
  have u: "unat (of_nat (length payload + 1 + length padding) :: u32) = length payload + 1 + length padding"
    using assms(2) by (simp only: unat_of_nat) simp
  have v: "unat (of_nat (length padding) :: u8) = length padding" using assms(1) by (simp add: unat_of_nat)
  have parts: "take 4 packet = u32_to_be_bytes (of_nat (length payload + 1 + length padding))"
    "packet ! 4 = of_nat (length padding)" "drop 5 packet = payload @ padding"
    "length packet = 5 + length payload + length padding"
    using assms(3) by (simp_all add: nth_append)
  have "normalize_packet packet = Done (u32_to_be_bytes (of_nat (length payload + 1 + ?n)) @ [of_nat ?n] @
       payload @ replicate ?n 0)"
    unfolding normalize_packet_def parts(1,2,3) u32_be_roundtrip u v using parts(4) by (simp add: Let_def)
  then show ?thesis using pad_loop_spec [of 4 "length payload"] by (intro exI [of _ ?n]) (simp add: ac_simps)
qed

theorem normalize_packet_payload_witness:
  "\<exists>n. 4 \<le> n \<and> n \<le> 11 \<and> (5 + 2 + n) mod 8 = 0 \<and>
     normalize_packet ([0, 0, 0, 5, 2] @ [20, 7] @ [9, 9]) =
       Done (u32_to_be_bytes (of_nat (2 + 1 + n)) @ [of_nat n] @ [20, 7] @ replicate n 0)"
proof -
  have "[0, 0, 0, 5, 2] @ [20, 7] @ [9, 9] = u32_to_be_bytes (of_nat (length [20, 7 :: u8] + 1 + length [9, 9 :: u8])) @
      [of_nat (length [9, 9 :: u8])] @ [20, 7] @ [9, 9]" by (simp add: u32_to_be_bytes_def)
  from normalize_packet_payload [OF _ _ this] show ?thesis by simp
qed

end
