(* ===== verification/Ossh_Stream.thy ===== *)
theory Ossh_Stream
  imports Ossh
begin

text \<open>
  What a client reads from the obfuscated transport (\<open>src/ssh/ossh.rs\<close>): the reading half of the
  definitions of \<open>Ossh\<close> refines a plain byte stream. The server's side is given by what it sends:
  lines, the last of which identifies it, packets up to the one that ends the key exchange, both under
  RC4, and everything after that in the clear.
\<close>

section \<open>What the server sends\<close>

definition line_ok :: "bytes \<Rightarrow> bool" where
  "line_ok l \<longleftrightarrow> length l \<le> MAX_LINE \<and> ends_with l [13, 10] \<and> (\<forall>k < length l. \<not> ends_with (take k l) [13, 10])"

definition is_ident :: "bytes \<Rightarrow> bool" where
  "is_ident l \<longleftrightarrow> starts_with l (as_bytes ''SSH-'')"

fun lines_ok :: "bytes list \<Rightarrow> bool" where
  "lines_ok [] = False"
| "lines_ok (l # ls) = (line_ok l \<and> (if ls = [] then is_ident l else \<not> is_ident l \<and> lines_ok ls))"

text \<open>A packet as its payload and its padding.\<close>

type_synonym packet = "bytes \<times> bytes"

definition kex_packet :: "packet \<Rightarrow> bytes" where
  "kex_packet p =
     u32_to_be_bytes (of_nat (length (fst p) + 1 + length (snd p))) @ [of_nat (length (snd p))] @ fst p @ snd p"

definition clean_packet :: "packet \<Rightarrow> bytes" where
  "clean_packet p =
     (let n = pad_loop (length (fst p)) 4 in
      u32_to_be_bytes (of_nat (length (fst p) + 1 + n)) @ [of_nat n] @ fst p @ replicate n 0)"

definition packet_ok :: "packet \<Rightarrow> bool" where
  "packet_ok p \<longleftrightarrow> fst p \<noteq> [] \<and> length (snd p) < 256 \<and> length (fst p) + 1 + length (snd p) \<le> MAX_SSH_PACKET"

fun kex_ok :: "packet list \<Rightarrow> bool" where
  "kex_ok [] = False"
| "kex_ok (p # ps) = (packet_ok p \<and> (if ps = [] then hd (fst p) = MSG_NEWKEYS else hd (fst p) \<noteq> MSG_NEWKEYS \<and> kex_ok ps))"

lemma packet_facts:
  assumes "packet_ok p"
  shows "length (kex_packet p) = 5 + length (fst p) + length (snd p)"
    "unat (u32_from_be_bytes (take 4 (kex_packet p))) = length (fst p) + 1 + length (snd p)"
    "kex_packet p ! 5 = hd (fst p)" "normalize_packet (kex_packet p) = Done (clean_packet p)"
    "clean_packet p \<noteq> []"
proof -
  let ?n = "length (fst p) + 1 + length (snd p)"
  have "?n \<le> 262144" using assms by (simp add: packet_ok_def MAX_SSH_PACKET_def)
  then have u: "unat (of_nat ?n :: u32) = ?n" by (simp only: unat_of_nat) simp
  have v: "unat (of_nat (length (snd p)) :: u8) = length (snd p)" using assms by (simp add: packet_ok_def unat_of_nat)
  show len: "length (kex_packet p) = 5 + length (fst p) + length (snd p)" by (simp add: kex_packet_def)
  have parts: "take 4 (kex_packet p) = u32_to_be_bytes (of_nat ?n)" "kex_packet p ! 4 = of_nat (length (snd p))"
    "drop 5 (kex_packet p) = fst p @ snd p"
    by (simp_all add: kex_packet_def nth_append)
  show "unat (u32_from_be_bytes (take 4 (kex_packet p))) = ?n" unfolding parts(1) u32_be_roundtrip by (rule u)
  have "kex_packet p ! (4 + Suc 0) = hd (fst p)"
    using assms by (simp add: kex_packet_def nth_append packet_ok_def hd_conv_nth)
  then show "kex_packet p ! 5 = hd (fst p)" by simp
  show "normalize_packet (kex_packet p) = Done (clean_packet p)"
    unfolding normalize_packet_def parts u32_be_roundtrip u v using len by (simp add: Let_def clean_packet_def)
  show "clean_packet p \<noteq> []" by (simp add: clean_packet_def Let_def)
qed

section \<open>What is still due\<close>

text \<open>
  \<open>due o1 wire out\<close>: when the server still sends \<open>wire\<close> (bytes that wait in the input buffer
  included), the client has to read \<open>out\<close>.
\<close>

definition due :: "ossh \<Rightarrow> bytes \<Rightarrow> bytes \<Rightarrow> bool" where
  "due o1 wire out \<longleftrightarrow>
     (case os_rstate o1 of
        Ident \<Rightarrow> \<exists>todo l ls ps rest. os_kex_prefix o1 = None \<and> todo \<noteq> [] \<and> os_rline o1 @ todo = l \<and> lines_ok (l # ls) \<and> kex_ok ps \<and>
          wire = fst (rc4_apply (os_s2c o1) (todo @ concat ls @ concat (map kex_packet ps))) @ rest \<and>
          out = os_rbuf o1 @ last (l # ls) @ concat (map clean_packet ps) @ rest
      | Kex \<Rightarrow> \<exists>p ps rest. kex_ok (p # ps) \<and> out = os_rbuf o1 @ concat (map clean_packet (p # ps)) @ rest \<and>
          (case os_kex_prefix o1 of
             None \<Rightarrow> wire = fst (rc4_apply (os_s2c o1) (kex_packet p @ concat (map kex_packet ps))) @ rest
           | Some (prefix, remaining) \<Rightarrow> prefix = take 5 (kex_packet p) \<and> remaining = length (kex_packet p) - 5 \<and>
               wire = fst (rc4_apply (os_s2c o1) (drop 5 (kex_packet p) @ concat (map kex_packet ps))) @ rest)
      | Passed \<Rightarrow> os_kex_prefix o1 = None \<and> out = os_rbuf o1 @ wire)"

lemma due_rin [simp]: "due (o1\<lparr>os_rin := rin\<rparr>) wire out = due o1 wire out"
  by (cases "os_rstate o1") (simp_all add: due_def cong: option.case_cong)

lemma length_rc4 [simp]: "length (fst (rc4_apply c xs)) = length xs"
  by (rule rc.length_app)

lemma decrypt_prefix:
  assumes "rin @ future = fst (rc4_apply c (x @ y)) @ rest" "length x \<le> length rin"
  shows "rc4_apply c (take (length x) rin) = (x, snd (rc4_apply c x))"
    "drop (length x) rin @ future = fst (rc4_apply (snd (rc4_apply c x)) y) @ rest"
proof -
  let ?e = "fst (rc4_apply c x)"
  have e: "rin @ future = ?e @ fst (rc4_apply (snd (rc4_apply c x)) y) @ rest"
    using assms(1) by (simp add: rc4_apply_append [of c x y])
  have "take (length x) (rin @ future) = ?e" unfolding e by simp
  then have "take (length x) rin = ?e" using assms(2) by simp
  then show "rc4_apply c (take (length x) rin) = (x, snd (rc4_apply c x))"
    using rc4_apply_twice [of c x] by (simp add: prod_eq_iff)
  have "drop (length x) (rin @ future) = fst (rc4_apply (snd (rc4_apply c x)) y) @ rest" unfolding e by simp
  then show "drop (length x) rin @ future = fst (rc4_apply (snd (rc4_apply c x)) y) @ rest" using assms(2) by simp
qed

text \<open>A round keeps what is due; it stops only with bytes to hand out, after the key exchange, or to wait for more.\<close>

definition round_good :: "bytes \<Rightarrow> bytes \<Rightarrow> (bool \<times> ossh) exec \<Rightarrow> bool" where
  "round_good future out r \<longleftrightarrow>
     (\<exists>go o2. r = Done (go, o2) \<and> due o2 (os_rin o2 @ future) out \<and>
        (\<not> go \<longrightarrow> os_rbuf o2 \<noteq> [] \<or> os_rstate o2 = Passed \<or> future \<noteq> []))"

lemma due_kex:
  assumes "due o1 wire out" "os_rstate o1 = Kex"
  obtains p ps rest where "kex_ok (p # ps)" "out = os_rbuf o1 @ concat (map clean_packet (p # ps)) @ rest"
    "case os_kex_prefix o1 of
       None \<Rightarrow> wire = fst (rc4_apply (os_s2c o1) (kex_packet p @ concat (map kex_packet ps))) @ rest
     | Some (prefix, remaining) \<Rightarrow> prefix = take 5 (kex_packet p) \<and> remaining = length (kex_packet p) - 5 \<and>
         wire = fst (rc4_apply (os_s2c o1) (drop 5 (kex_packet p) @ concat (map kex_packet ps))) @ rest"
  using assms(1) unfolding due_def assms(2) ossh_phase.case by blast

lemma due_kexI:
  assumes "os_rstate o1 = Kex" "kex_ok (p # ps)" "out = os_rbuf o1 @ concat (map clean_packet (p # ps)) @ rest"
    "case os_kex_prefix o1 of
       None \<Rightarrow> wire = fst (rc4_apply (os_s2c o1) (kex_packet p @ concat (map kex_packet ps))) @ rest
     | Some (prefix, remaining) \<Rightarrow> prefix = take 5 (kex_packet p) \<and> remaining = length (kex_packet p) - 5 \<and>
         wire = fst (rc4_apply (os_s2c o1) (drop 5 (kex_packet p) @ concat (map kex_packet ps))) @ rest"
  shows "due o1 wire out"
  unfolding due_def assms(1) ossh_phase.case using assms(2-4) by blast

lemma due_identI:
  assumes "os_rstate o1 = Ident" "os_kex_prefix o1 = None" "todo \<noteq> []" "os_rline o1 @ todo = l" "lines_ok (l # ls)" "kex_ok ps"
    "wire = fst (rc4_apply (os_s2c o1) (todo @ concat ls @ concat (map kex_packet ps))) @ rest"
    "out = os_rbuf o1 @ last (l # ls) @ concat (map clean_packet ps) @ rest"
  shows "due o1 wire out"
  unfolding due_def assms(1) ossh_phase.case using assms(2-8) by blast

text \<open>While identifying, either a byte of the current line arrives decrypted or more must be read.\<close>

lemma ident_byte:
  assumes "due o1 (os_rin o1 @ future) out" "os_rstate o1 = Ident"
  obtains (more) "os_rin o1 = []" "future \<noteq> []"
  | (byte) b rin t todo l ls ps rest c where "os_rin o1 = b # rin" "rc4_apply (os_s2c o1) [b] = ([t], c)"
      "rin @ future = fst (rc4_apply c (todo @ concat ls @ concat (map kex_packet ps))) @ rest"
      "os_kex_prefix o1 = None" "os_rline o1 @ t # todo = l" "lines_ok (l # ls)" "kex_ok ps"
      "out = os_rbuf o1 @ last (l # ls) @ concat (map clean_packet ps) @ rest"
proof -
  obtain todo l ls ps rest where d: "os_kex_prefix o1 = None" "todo \<noteq> []" "os_rline o1 @ todo = l" "lines_ok (l # ls)" "kex_ok ps"
    "os_rin o1 @ future = fst (rc4_apply (os_s2c o1) (todo @ concat ls @ concat (map kex_packet ps))) @ rest"
    "out = os_rbuf o1 @ last (l # ls) @ concat (map clean_packet ps) @ rest"
    using assms by (auto simp: due_def)
  obtain t todo' where t: "todo = t # todo'" using d(2) by (cases todo) auto
  show ?thesis
  proof (cases "os_rin o1")
    case Nil
    have "0 < length (os_rin o1 @ future)" unfolding d(6) t by (simp only: length_append length_rc4) simp
    with Nil show ?thesis by (intro more) auto
  next
    case (Cons b rin)
    let ?c = "snd (rc4_apply (os_s2c o1) [t])" and ?tail = "todo' @ concat ls @ concat (map kex_packet ps)"
    have "os_rin o1 @ future = fst (rc4_apply (os_s2c o1) ([t] @ ?tail)) @ rest" using d(6) t by simp
    from decrypt_prefix [OF this] Cons have c: "rc4_apply (os_s2c o1) [b] = ([t], ?c)"
      "rin @ future = fst (rc4_apply ?c ?tail) @ rest" by (simp_all del: rc4_apply.simps)
    show ?thesis by (rule byte [OF Cons c d(1) d(3) [unfolded t] d(4,5,7)])
  qed
qed

text \<open>A byte within a line; a finished line that is not the identification; the identification line.\<close>

lemma round_ident_inside:
  assumes "os_rstate o1 = Ident" "os_rin o1 = b # rin" "rc4_apply (os_s2c o1) [b] = ([t], c)" "os_rline o1 @ t # todo = l"
    "line_ok l" "todo \<noteq> []"
  shows "read_round o1 = Done (True, o1\<lparr>os_rin := rin, os_s2c := c, os_rline := os_rline o1 @ [t]\<rparr>)"
proof -
  have l: "os_rline o1 @ [t] = take (length (os_rline o1) + 1) l" "length (os_rline o1) + 1 < length l"
    using assms(4,6) by auto
  then have "\<not> ends_with (os_rline o1 @ [t]) [13, 10]" unfolding l(1) using assms(5) line_ok_def by blast
  moreover have "\<not> MAX_LINE < Suc (length (os_rline o1))" using l(2) assms(5) by (simp add: line_ok_def)
  ultimately show ?thesis
    using assms(1-3) by (simp add: read_round_def read_ident_def Let_def del: rc4_apply.simps)
qed

lemma round_ident_line:
  assumes "os_rstate o1 = Ident" "os_rin o1 = b # rin" "rc4_apply (os_s2c o1) [b] = ([t], c)" "os_rline o1 @ [t] = l" "line_ok l"
  shows "read_round o1 =
    (if is_ident l
     then Done (False, o1\<lparr>os_rin := rin, os_s2c := c, os_rbuf := os_rbuf o1 @ l, os_rline := [], os_rstate := Kex\<rparr>)
     else Done (True, o1\<lparr>os_rin := rin, os_s2c := c, os_rline := []\<rparr>))"
proof -
  have "Suc (length (os_rline o1)) = length l" using assms(4) by auto
  then have "\<not> MAX_LINE < Suc (length (os_rline o1))" "ends_with l [13, 10]" using assms(5) by (simp_all add: line_ok_def)
  then show ?thesis
    using assms(1-4) by (simp add: read_round_def read_ident_def Let_def is_ident_def del: rc4_apply.simps)
qed

lemma round_ident:
  assumes "due o1 (os_rin o1 @ future) out" "os_rstate o1 = Ident"
  shows "round_good future out (read_round o1)"
  using assms
proof (cases rule: ident_byte)
  case more
  then show ?thesis using assms by (auto simp: round_good_def read_round_def read_ident_def)
next
  case (byte b rin t todo l ls ps rest c)
  have l: "line_ok l" using byte(6) by (auto split: if_splits)
  note s = byte(3,4,8) assms(2)
  consider (inside) "todo \<noteq> []" | (ident) "todo = []" "is_ident l" | (other) "todo = []" "\<not> is_ident l" by blast
  then show ?thesis
  proof cases
    case inside
    let ?o2 = "o1\<lparr>os_rin := rin, os_s2c := c, os_rline := os_rline o1 @ [t]\<rparr>"
    have "due ?o2 (os_rin ?o2 @ future) out"
      by (rule due_identI [OF _ _ inside _ byte(6,7), where rest = rest]) (use s byte(5) in \<open>simp_all del: rc4_apply.simps\<close>)
    then show ?thesis unfolding round_ident_inside [OF assms(2) byte(1,2,5) l inside] round_good_def by blast
  next
    case ident
    then have line: "os_rline o1 @ [t] = l" "l \<noteq> []" using byte(5) by auto
    have ls: "ls = []" using ident(2) byte(6) by (auto split: if_splits)
    obtain p ps' where ps: "ps = p # ps'" using byte(7) by (cases ps) auto
    let ?o2 = "o1\<lparr>os_rin := rin, os_s2c := c, os_rbuf := os_rbuf o1 @ l, os_rline := [], os_rstate := Kex\<rparr>"
    have "due ?o2 (os_rin ?o2 @ future) out"
      by (rule due_kexI [OF _ byte(7) [unfolded ps], where rest = rest]) (use s ident(1) ls ps in \<open>simp_all del: rc4_apply.simps\<close>)
    then show ?thesis unfolding round_ident_line [OF assms(2) byte(1,2) line(1) l] round_good_def using ident(2) line(2) by auto
  next
    case other
    then have line: "os_rline o1 @ [t] = l" using byte(5) by simp
    obtain l2 ls2 where ls: "ls = l2 # ls2" "lines_ok (l2 # ls2)" using other(2) byte(6) by (cases ls) (auto split: if_splits)
    then have "l2 \<noteq> []" by (auto simp: line_ok_def ends_with_def)
    let ?o2 = "o1\<lparr>os_rin := rin, os_s2c := c, os_rline := []\<rparr>"
    have "due ?o2 (os_rin ?o2 @ future) out"
      by (rule due_identI [OF _ _ \<open>l2 \<noteq> []\<close> _ ls(2) byte(7), where rest = rest])
        (use s other(1) ls(1) in \<open>simp_all del: rc4_apply.simps\<close>)
    then show ?thesis unfolding round_ident_line [OF assms(2) byte(1,2) line l] round_good_def using other(2) by auto
  qed
qed

lemma round_kex_prefix:
  assumes "due o1 (os_rin o1 @ future) out" "os_rstate o1 = Kex"
  obtains (more) "read_prefix o1 = (False, o1)" "future \<noteq> []"
  | (prefix) o2 where "read_prefix o1 = (True, o2)" "os_rstate o2 = Kex" "os_kex_prefix o2 \<noteq> None" "due o2 (os_rin o2 @ future) out"
proof -
  obtain p ps rest where d: "kex_ok (p # ps)" "out = os_rbuf o1 @ concat (map clean_packet (p # ps)) @ rest"
    "os_kex_prefix o1 = None \<Longrightarrow>
       os_rin o1 @ future = fst (rc4_apply (os_s2c o1) (kex_packet p @ concat (map kex_packet ps))) @ rest"
    by (rule due_kex [OF assms]) (auto split: option.splits)
  show thesis
  proof (cases "os_kex_prefix o1")
    case (Some x)
    then show thesis using assms by (intro prefix [of o1]) (auto simp: read_prefix_def)
  next
    case None
    let ?x = "take 5 (kex_packet p)" and ?y = "drop 5 (kex_packet p) @ concat (map kex_packet ps)"
    have ok: "packet_ok p" using d(1) by simp
    note f = packet_facts [OF ok]
    have x: "length ?x = 5" using f(1) by simp
    have w: "os_rin o1 @ future = fst (rc4_apply (os_s2c o1) (?x @ ?y)) @ rest"
      using d(3) [OF None] by (simp flip: append_assoc)
    show thesis
    proof (cases "length (os_rin o1) < 5")
      case True
      have "5 \<le> length (os_rin o1 @ future)" unfolding w using x by simp
      with True None show thesis by (intro more) (auto simp: read_prefix_def)
    next
      case False
      then have "length ?x \<le> length (os_rin o1)" unfolding x by simp
      note c = decrypt_prefix [OF w this, unfolded x]
      let ?c = "snd (rc4_apply (os_s2c o1) ?x)"
      let ?o2 = "o1\<lparr>os_rin := drop 5 (os_rin o1), os_s2c := ?c, os_kex_prefix := Some (?x, length (kex_packet p) - 5)\<rparr>"
      have "take 4 ?x = take 4 (kex_packet p)" by simp
      then have n: "unat (u32_from_be_bytes (take 4 ?x)) = length (kex_packet p) - 4" using f(1,2) by simp
      have "4 < length (kex_packet p) \<and> length (kex_packet p) - 4 \<le> MAX_SSH_PACKET"
        using f(1) ok by (simp add: packet_ok_def)
      then have "read_prefix o1 = (True, ?o2)"
        using None False c(1) n by (simp add: read_prefix_def Let_def)
      then show thesis
        by (rule prefix) (use assms(2) c(2) due_kexI [OF _ d(1), of ?o2 out rest] d(2) in auto)
    qed
  qed
qed

lemma round_kex_body:
  assumes "due o1 (os_rin o1 @ future) out" "os_rstate o1 = Kex" "os_kex_prefix o1 \<noteq> None"
  shows "round_good future out (read_body o1)"
proof -
  obtain p ps rest where d: "kex_ok (p # ps)" "out = os_rbuf o1 @ concat (map clean_packet (p # ps)) @ rest"
    "os_kex_prefix o1 = Some (take 5 (kex_packet p), length (kex_packet p) - 5)"
    "os_rin o1 @ future = fst (rc4_apply (os_s2c o1) (drop 5 (kex_packet p) @ concat (map kex_packet ps))) @ rest"
    by (rule due_kex [OF assms(1,2)]) (use assms(3) in \<open>auto split: option.splits\<close>)
  have ok: "packet_ok p" using d(1) by simp
  note f = packet_facts [OF ok]
  let ?x = "drop 5 (kex_packet p)"
  show ?thesis
  proof (cases "length (os_rin o1) < length (kex_packet p) - 5")
    case True
    have "length ?x \<le> length (os_rin o1 @ future)" unfolding d(4) by simp
    with True have "future \<noteq> []" by auto
    with True assms(1) d(3) show ?thesis by (auto simp: round_good_def read_body_def)
  next
    case False
    then have "length ?x \<le> length (os_rin o1)" by simp
    note c = decrypt_prefix [OF d(4) this]
    let ?c = "snd (rc4_apply (os_s2c o1) ?x)"
    let ?o2 = "o1\<lparr>os_rin := drop (length ?x) (os_rin o1), os_s2c := ?c, os_kex_prefix := None, os_rbuf := os_rbuf o1 @ clean_packet p\<rparr>"
    have "5 < length (kex_packet p)" using f(1) ok by (simp add: packet_ok_def)
    then have r: "read_body o1 =
        (if hd (fst p) = MSG_NEWKEYS then Done (False, ?o2\<lparr>os_rstate := Passed\<rparr>) else Done (True, ?o2))"
      using d(3) False c(1) f(3,4) by (simp add: read_body_def Let_def)
    show ?thesis
    proof (cases "ps = []")
      case True
      then have "hd (fst p) = MSG_NEWKEYS" using d(1) by simp
      with True show ?thesis unfolding r round_good_def using d(2) c(2) f(5)
        by (intro exI [of _ False] exI conjI) (auto simp: due_def)
    next
      case False
      then obtain q qs where ps: "ps = q # qs" "kex_ok (q # qs)" "hd (fst p) \<noteq> MSG_NEWKEYS" using d(1) by (cases ps) auto
      then show ?thesis unfolding r round_good_def using d(2) c(2) assms(2) due_kexI [OF _ ps(2), of ?o2 out rest] by auto
    qed
  qed
qed

lemma round_good:
  assumes "due o1 (os_rin o1 @ future) out"
  shows "round_good future out (read_round o1)"
proof (cases "os_rstate o1")
  case Ident
  then show ?thesis by (rule round_ident [OF assms])
next
  case Kex
  from assms Kex show ?thesis
  proof (cases rule: round_kex_prefix)
    case more
    then show ?thesis using Kex assms by (auto simp: round_good_def read_round_def)
  next
    case (prefix o2)
    then show ?thesis using Kex round_kex_body [OF prefix(4,2,3)] by (simp add: read_round_def)
  qed
next
  case Passed
  then show ?thesis using assms by (auto simp: round_good_def read_round_def)
qed

lemma process_read_due:
  "due o1 (os_rin o1 @ future) out \<Longrightarrow>
   \<exists>o2. process_read o1 = Done o2 \<and> due o2 (os_rin o2 @ future) out \<and>
     (os_rbuf o2 \<noteq> [] \<or> os_rstate o2 = Passed \<or> future \<noteq> [])"
proof (induction o1 rule: process_read.induct)
  case (1 o1)
  obtain go o2 where r: "read_round o1 = Done (go, o2)" "due o2 (os_rin o2 @ future) out"
    "\<not> go \<longrightarrow> os_rbuf o2 \<noteq> [] \<or> os_rstate o2 = Passed \<or> future \<noteq> []"
    using round_good [OF 1(2)] by (auto simp: round_good_def)
  show ?case
  proof (cases go)
    case True
    then show ?thesis using 1(1) [OF r(1) refl True r(2)] r(1) by (simp add: process_read.simps [of o1])
  next
    case False
    then show ?thesis using r by (simp add: process_read.simps [of o1])
  qed
qed

section \<open>Polling the stream\<close>

text \<open>
  The bytes the inner stream is going to give, if none of its reads fails: an empty read is the end
  of the connection, after which nothing more comes.
\<close>

fun arriving :: "bytes poll list \<Rightarrow> bytes option" where
  "arriving [] = Some []"
| "arriving (Pending # reads) = arriving reads"
| "arriving (Ready (Inl e) # reads) = None"
| "arriving (Ready (Inr d) # reads) =
     (if d = [] then if arriving reads = Some [] then Some [] else None else map_option ((@) d) (arriving reads))"

definition more_good :: "nat \<Rightarrow> bytes \<Rightarrow> bytes poll list \<Rightarrow> (bytes poll \<times> ossh \<times> bytes poll list) exec \<Rightarrow> bool" where
  "more_good room out reads r \<longleftrightarrow>
     (\<exists>p o2 reads2 future2 rest. r = Done (p, o2, reads2) \<and> arriving reads2 = Some future2 \<and>
        due o2 (os_rin o2 @ future2) rest \<and> length reads2 \<le> length reads \<and>
        (case p of
           Pending \<Rightarrow> rest = out \<and> (out \<noteq> [] \<longrightarrow> length reads2 < length reads)
         | Ready (Inl e) \<Rightarrow> False
         | Ready (Inr b) \<Rightarrow> out = b @ rest \<and> length b \<le> room \<and> (b = [] \<longrightarrow> room = 0 \<or> out = [])))"

lemma due_rbuf:
  assumes "due o1 wire out"
  obtains tail where "out = os_rbuf o1 @ tail" "\<forall>buf. due (o1\<lparr>os_rbuf := buf\<rparr>) wire (buf @ tail)"
proof (cases "os_rstate o1")
  case Ident
  obtain todo l ls ps rest where d: "os_kex_prefix o1 = None" "todo \<noteq> []" "os_rline o1 @ todo = l" "lines_ok (l # ls)" "kex_ok ps"
    "wire = fst (rc4_apply (os_s2c o1) (todo @ concat ls @ concat (map kex_packet ps))) @ rest"
    "out = os_rbuf o1 @ last (l # ls) @ concat (map clean_packet ps) @ rest"
    using assms(1) unfolding due_def Ident ossh_phase.case by blast
  have "due (o1\<lparr>os_rbuf := buf\<rparr>) wire (buf @ last (l # ls) @ concat (map clean_packet ps) @ rest)" for buf
    by (rule due_identI [OF _ _ d(2) _ d(4,5), where rest = rest]) (use Ident d(1,3,6) in simp_all)
  then show thesis using that [OF d(7)] by blast
next
  case Kex
  from assms Kex show thesis
  proof (cases rule: due_kex)
    case (1 p ps rest)
    have "due (o1\<lparr>os_rbuf := buf\<rparr>) wire (buf @ concat (map clean_packet (p # ps)) @ rest)" for buf
      by (rule due_kexI [OF _ 1(1), where rest = rest]) (use Kex 1(3) in \<open>auto split: option.splits\<close>)
    then show thesis using that [OF 1(2)] by blast
  qed
next
  case Passed
  then show thesis using assms by (intro that [of wire]) (simp_all add: due_def)
qed

lemma lines_last: "lines_ok ls \<Longrightarrow> last ls \<noteq> []"
  by (induction ls) (auto simp: line_ok_def ends_with_def split: if_splits)

lemma due_empty: "due o1 wire [] \<Longrightarrow> os_rstate o1 = Passed \<and> os_rbuf o1 = [] \<and> wire = [] \<and> os_kex_prefix o1 = None"
proof (cases "os_rstate o1")
  case Ident
  moreover assume "due o1 wire []"
  ultimately show ?thesis using lines_last by (auto simp: due_def simp del: lines_ok.simps last.simps)
next
  case Kex
  moreover assume "due o1 wire []"
  ultimately show ?thesis using packet_facts(5) by (auto elim!: due_kex)
qed (simp add: due_def)

lemma read_more_deliver:
  assumes "os_rbuf o1 \<noteq> []" "arriving reads = Some future" "due o1 (os_rin o1 @ future) out"
  shows "more_good room out reads (Done (Ready (Inr (take room (os_rbuf o1))), o1\<lparr>os_rbuf := drop room (os_rbuf o1)\<rparr>, reads))"
proof -
  obtain tail where t: "out = os_rbuf o1 @ tail" "\<forall>buf. due (o1\<lparr>os_rbuf := buf\<rparr>) (os_rin o1 @ future) (buf @ tail)"
    by (rule due_rbuf [OF assms(3)])
  have "due (o1\<lparr>os_rbuf := drop room (os_rbuf o1)\<rparr>) (os_rin o1 @ future) (drop room (os_rbuf o1) @ tail)" using t(2) by blast
  then show ?thesis
    using assms(1,2) t(1) by (auto simp: more_good_def simp flip: append_assoc)
qed

lemma read_more_step:
  assumes "due o1 (os_rin o1 @ future) out"
  obtains o3 where "due o3 (os_rin o3 @ future) out" "os_rbuf o3 = [] \<Longrightarrow> future \<noteq> [] \<or> out = []"
    "\<And>reads. read_more reads room o1 =
       (if os_rbuf o3 \<noteq> []
        then Done (Ready (Inr (take room (os_rbuf o3))), o3\<lparr>os_rbuf := drop room (os_rbuf o3)\<rparr>, reads)
        else case reads of
            [] \<Rightarrow> Done (Pending, o3, [])
          | Pending # reads \<Rightarrow> Done (Pending, o3, reads)
          | Ready (Inl e) # reads \<Rightarrow> Done (Ready (Inl e), o3, reads)
          | Ready (Inr data) # reads \<Rightarrow>
              if data = [] then Done (Ready (Inr []), o3, reads)
              else read_more reads room (o3\<lparr>os_rin := os_rin o3 @ data\<rparr>))"
proof -
  obtain o2 where p: "process_read o1 = Done o2" "due o2 (os_rin o2 @ future) out"
    "os_rbuf o2 \<noteq> [] \<or> os_rstate o2 = Passed \<or> future \<noteq> []"
    using process_read_due [OF assms] by blast
  define o3 where "o3 = (if os_rbuf o2 = [] \<and> os_rstate o2 = Passed \<and> os_rin o2 \<noteq> []
    then o2\<lparr>os_rbuf := os_rin o2, os_rin := []\<rparr> else o2)"
  show thesis
  proof (rule that [of o3])
    show "due o3 (os_rin o3 @ future) out" using p(2) by (auto simp: o3_def due_def)
    show "os_rbuf o3 = [] \<Longrightarrow> future \<noteq> [] \<or> out = []" using p(2,3) by (auto simp: o3_def due_def split: if_splits)
  qed (simp only: read_more.simps [of _ room o1] p(1) exec_bind_simps Let_def o3_def [symmetric])
qed

lemma more_good_Cons: "more_good room out reads r \<Longrightarrow> more_good room out (x # reads) r"
  unfolding more_good_def
  by (elim exE conjE) (intro exI conjI, assumption+, auto split: poll.splits sum.splits)

lemma read_more_good:
  "\<lbrakk>arriving reads = Some future; due o1 (os_rin o1 @ future) out\<rbrakk> \<Longrightarrow> more_good room out reads (read_more reads room o1)"
proof (induction reads arbitrary: o1 future)
  case Nil
  from Nil(2) show ?case
  proof (cases rule: read_more_step [where room = room])
    case (1 o3)
    show ?thesis
    proof (cases "os_rbuf o3 = []")
      case True
      then show ?thesis using 1 Nil(1) by (auto simp: more_good_def simp del: read_more.simps)
    next
      case False
      then show ?thesis using read_more_deliver [OF False Nil(1) 1(1)] 1(3) by (simp del: read_more.simps)
    qed
  qed
next
  case (Cons r reads)
  from Cons.prems(2) show ?case
  proof (cases rule: read_more_step [where room = room])
    case (1 o3)
    show ?thesis
    proof (cases "os_rbuf o3 = []")
      case False
      then show ?thesis using read_more_deliver [OF False Cons.prems(1) 1(1)] 1(3) by (simp del: read_more.simps)
    next
      case True
      show ?thesis
      proof (cases "\<exists>d. r = Ready (Inr d) \<and> d \<noteq> []")
        case data: True
        then obtain d future2 where d: "r = Ready (Inr d)" "d \<noteq> []" "arriving reads = Some future2" "future = d @ future2"
          using Cons.prems(1) by auto
        have "due (o3\<lparr>os_rin := os_rin o3 @ d\<rparr>) (os_rin (o3\<lparr>os_rin := os_rin o3 @ d\<rparr>) @ future2) out"
          using 1(1) d(4) by simp
        from more_good_Cons [OF Cons.IH [OF d(3) this]] show ?thesis
          using 1(3) [of "r # reads"] True d(1,2) by (simp del: read_more.simps)
      next
        case False
        then show ?thesis using 1 True Cons.prems(1)
          by (cases r rule: poll.exhaust) (auto simp: more_good_def simp del: read_more.simps split: sum.splits if_splits)
      qed
    qed
  qed
qed

section \<open>The stream as a source of bytes\<close>

definition ossh_take :: "nat \<Rightarrow> ossh \<times> inner \<Rightarrow> bytes progress \<times> ossh \<times> inner" where
  "ossh_take room s =
     (case poll_read room s of
        Done (Ready (Inr b), s) \<Rightarrow> (Now b, s)
      | Done (_, s) \<Rightarrow> (Wait, s)
      | Panicked \<Rightarrow> (Wait, s))"

definition ossh_holds :: "ossh \<times> inner \<Rightarrow> bytes \<Rightarrow> bool" where
  "ossh_holds s out \<longleftrightarrow> (\<exists>future. arriving (in_reads (snd s)) = Some future \<and> due (fst s) (os_rin (fst s) @ future) out)"

definition ossh_ended :: "ossh \<times> inner \<Rightarrow> bool" where
  "ossh_ended s \<longleftrightarrow> (\<exists>reads. in_reads (snd s) = Ready (Inr []) # reads)"

lemma ossh_take_good:
  assumes "ossh_holds s out"
  obtains (now) b rest s' where "ossh_take n s = (Now b, s')" "out = b @ rest" "length b \<le> n" "b = [] \<longrightarrow> n = 0 \<or> out = []"
      "ossh_holds s' rest" "length (in_reads (snd s')) \<le> length (in_reads (snd s))"
  | (wait) s' where "ossh_take n s = (Wait, s')" "ossh_holds s' out" "out \<noteq> [] \<longrightarrow> length (in_reads (snd s')) < length (in_reads (snd s))"
proof -
  obtain future where f: "arriving (in_reads (snd s)) = Some future" "due (fst s) (os_rin (fst s) @ future) out"
    using assms by (auto simp: ossh_holds_def)
  obtain p o2 reads2 future2 rest where m: "read_more (in_reads (snd s)) n (fst s) = Done (p, o2, reads2)"
    "arriving reads2 = Some future2" "due o2 (os_rin o2 @ future2) rest" "length reads2 \<le> length (in_reads (snd s))"
    "case p of
       Pending \<Rightarrow> rest = out \<and> (out \<noteq> [] \<longrightarrow> length reads2 < length (in_reads (snd s)))
     | Ready (Inl e) \<Rightarrow> False
     | Ready (Inr b) \<Rightarrow> out = b @ rest \<and> length b \<le> n \<and> (b = [] \<longrightarrow> n = 0 \<or> out = [])"
    using read_more_good [OF f, of n] unfolding more_good_def by blast
  let ?s = "(o2, (snd s)\<lparr>in_reads := reads2\<rparr>)"
  have r: "poll_read n s = Done (p, ?s)" using m(1) by (simp add: poll_read_def del: read_more.simps)
  have h: "ossh_holds ?s rest" using m(2,3) by (simp add: ossh_holds_def)
  show thesis
  proof (cases p)
    case Pending
    then show thesis using r h m(5) by (intro wait [of ?s]) (simp_all add: ossh_take_def)
  next
    case (Ready x)
    then obtain b where "x = Inr b" using m(5) by (cases x) auto
    with Ready show thesis using r h m(4,5) by (intro now [of b ?s rest]) (auto simp: ossh_take_def)
  qed
qed

lemma arriving_empty: "arriving (r # reads) = Some [] \<Longrightarrow> (r = Pending \<or> r = Ready (Inr [])) \<and> arriving reads = Some []"
proof (cases r)
  case (Ready x)
  then show "arriving (r # reads) = Some [] \<Longrightarrow> ?thesis" by (cases x) (auto split: if_splits)
qed simp

interpretation ob: byte_source ossh_take ossh_holds ossh_ended "\<lambda>s. length (in_reads (snd s))"
proof (unfold_locales, goal_cases)
  case (1 s out n)
  from 1(1) show ?case by (rule ossh_take_good [where n = n]) (use 1(2,3) in \<open>auto\<close>)
next
  case (2 s n)
  then have e: "os_rstate (fst s) = Passed" "os_rbuf (fst s) = []" "os_rin (fst s) = []" "os_kex_prefix (fst s) = None"
    "arriving (in_reads (snd s)) = Some []"
    using due_empty by (auto simp: ossh_holds_def)
  then have p: "process_read (fst s) = Done (fst s)" by (simp add: process_read.simps [of "fst s"] read_round_def)
  show ?case
  proof (cases "in_reads (snd s)")
    case Nil
    then have "ossh_take n s = (Wait, s)" using e p by (simp add: ossh_take_def poll_read_def prod_eq_iff)
    then show ?thesis using 2 Nil by (simp add: ossh_ended_def)
  next
    case (Cons r reads)
    then have r: "(r = Pending \<or> r = Ready (Inr [])) \<and> arriving reads = Some []"
      using arriving_empty [of r reads] e(5) by simp
    then have "ossh_take n s = (if r = Ready (Inr []) then Now [] else Wait, fst s, (snd s)\<lparr>in_reads := reads\<rparr>)" "arriving reads = Some []"
      using e p Cons by (auto simp: ossh_take_def poll_read_def)
    moreover have "ossh_holds (fst s, (snd s)\<lparr>in_reads := reads\<rparr>) []"
      using e calculation(2) by (simp add: ossh_holds_def due_def)
    ultimately show ?thesis using Cons by (auto simp: ossh_ended_def)
  qed
next
  case (3 s out)
  from 3(1) show ?case by (rule ossh_take_good [where n = 0]) (use 3(2) in auto)
qed

text \<open>
  C22: the obfuscated transport is transparent for reading. A server sends lines, the last of which
  identifies it, and packets up to the one that ends the key exchange, all under RC4 with the key
  stream of the connection, and then anything in the clear. However the network cuts that into pieces
  and delays them, and whatever the size of its buffer, a client that keeps reading gets the
  identification, the packets with their payloads (padding replaced, lines before the identification
  left out) and then the clear bytes unchanged, and it needs no more reads than there are bytes and
  wake-ups.
\<close>

theorem ossh_read_transparent:
  assumes "ossh_new sha1 seed padding keyword = Done o1" "lines_ok lines" "kex_ok packets"
    and "arriving (in_reads w) = Some (fst (rc4_apply (os_s2c o1) (concat lines @ concat (map kex_packet packets))) @ clear)"
    and "out = last lines @ concat (map clean_packet packets) @ clear"
    and "0 < n" "length out + length (in_reads w) \<le> k"
  shows "fst (drain ossh_take n k (o1, w)) = out"
proof -
  obtain l ls where l: "lines = l # ls" using assms(2) by (cases lines) auto
  then have "l \<noteq> []" using assms(2) by (auto simp: line_ok_def ends_with_def split: if_splits)
  have f: "os_rstate o1 = Ident" "os_rin o1 = []" "os_rbuf o1 = []" "os_rline o1 = []" "os_kex_prefix o1 = None"
    using assms(1) by (auto simp: ossh_new_def exec_bind_def Let_def split: exec.splits prod.splits)
  have "ossh_holds (o1, w) out"
    unfolding ossh_holds_def fst_conv snd_conv assms(4)
    by (rule exI, rule conjI, rule refl, rule due_identI [OF f(1,5) \<open>l \<noteq> []\<close> _ assms(2) [unfolded l] assms(3), where rest = clear])
      (use f assms(5) l in simp_all)
  from ob.drain_all [OF this assms(6), of k] assms(7) show ?thesis by auto
qed

lemma ossh_new_total: "\<forall>x. length (sha1 x) = 20 \<Longrightarrow> \<exists>o1. ossh_new sha1 seed padding keyword = Done o1"
proof -
  assume sha: "\<forall>x. length (sha1 x) = 20"
  have "length ((sha1 ^^ n) (sha1 x)) = 20" for n x using sha by (cases n) auto
  then have "\<exists>key. derive_key sha1 seed keyword iv = Done key \<and> key \<noteq> []" for iv
    by (simp add: derive_key_def slice_def Let_def KEY_LENGTH_def) (metis list.size(3) zero_neq_numeral)
  then obtain k1 k2 where "derive_key sha1 seed keyword (as_bytes ''client_to_server'') = Done k1" "k1 \<noteq> []"
    "derive_key sha1 seed keyword (as_bytes ''server_to_client'') = Done k2" "k2 \<noteq> []"
    by metis
  then show ?thesis by (simp add: ossh_new_def rc4_new_def case_prod_beta Let_def del: as_bytes_simps)
qed

theorem ossh_read_transparent_witness:
  "\<exists>o1 w. ossh_new (\<lambda>x. replicate 20 7) (replicate 16 1) [] [] = Done o1 \<and> length (in_reads w) = 3 \<and>
     fst (drain ossh_take 2 60 (o1, w)) =
       [83, 83, 72, 45, 13, 10] @ clean_packet ([21], replicate 10 0) @ [1, 2, 3]"
proof -
  let ?lines = "[[72, 13, 10], [83, 83, 72, 45, 13, 10]] :: bytes list" and ?packets = "[([21], replicate 10 0)] :: packet list"
  obtain o1 where o1: "ossh_new (\<lambda>x. replicate 20 7) (replicate 16 1) [] [] = Done o1"
    using ossh_new_total [of "\<lambda>x. replicate 20 7" "replicate 16 1" "[]" "[]"] by auto
  define sent where "sent = fst (rc4_apply (os_s2c o1) (concat ?lines @ concat (map kex_packet ?packets)))"
  define w where "w = \<lparr>in_reads = [Ready (Inr sent), Pending, Ready (Inr [1, 2, 3])], in_writes = [], in_flush = Pending,
    in_shutdown = Pending, in_sent = []\<rparr>"
  have "0 < length sent" unfolding sent_def length_rc4 by simp
  then have sent: "arriving (in_reads w) = Some (sent @ [1, 2, 3])" by (simp add: w_def)
  have "line_ok [72, 13, 10]" "line_ok [83, 83, 72, 45, 13, 10]"
    by (auto simp: line_ok_def ends_with_def MAX_LINE_def less_Suc_eq)
  moreover have "\<not> is_ident [72, 13, 10]" "is_ident [83, 83, 72, 45, 13, 10]"
    by (simp_all add: is_ident_def starts_with_def byte_of_def)
  ultimately have ok: "lines_ok ?lines" "kex_ok ?packets"
    by (simp_all add: packet_ok_def MAX_SSH_PACKET_def MSG_NEWKEYS_def)
  have "fst (drain ossh_take 2 60 (o1, w)) = [83, 83, 72, 45, 13, 10] @ clean_packet ([21], replicate 10 0) @ [1, 2, 3]"
    by (rule ossh_read_transparent [OF o1 ok sent [unfolded sent_def]]) (simp_all add: w_def clean_packet_def pad_loop.simps)
  then show ?thesis using o1 by (intro exI [of _ o1] exI [of _ w]) (simp add: w_def)
qed

section \<open>Writing\<close>

text \<open>
  \<open>written c base acc o1 wire\<close>: of the bytes \<open>acc\<close> a client has written, a first part is on its way
  under RC4 with the key stream that starts at \<open>c\<close>, a second one in the clear once the key exchange has
  passed, and the rest waits in the buffer; \<open>wire\<close> is everything for the wire, after \<open>base\<close>.
\<close>

definition written :: "rc4 \<Rightarrow> bytes \<Rightarrow> bytes \<Rightarrow> ossh \<Rightarrow> bytes \<Rightarrow> bool" where
  "written c base acc o1 wire \<longleftrightarrow>
     (\<exists>h t. acc = h @ t @ os_wbuf o1 \<and> wire = base @ fst (rc4_apply c h) @ t \<and>
        (if os_wstate o1 = Passed then os_wbuf o1 = [] else t = [] \<and> os_c2s o1 = snd (rc4_apply c h)))"

lemma written_wout: "written c base acc (o1\<lparr>os_wout := out\<rparr>) wire = written c base acc o1 wire"
  by (simp add: written_def)

lemma process_write_parts:
  assumes "process_write o1 = Done o2"
  obtains h o3 where "obfuscated o1 h o3" "o2 = write_rest o3" "os_wstate o1 = Passed \<Longrightarrow> o3 = o1"
proof -
  let ?i = "write_ident o1"
  obtain o3 where o3: "(if os_wstate ?i = Kex then write_kex ?i else Done ?i) = Done o3" "o2 = write_rest o3"
    using assms by (cases "if os_wstate ?i = Kex then write_kex ?i else Done ?i") (auto simp: process_write_def Let_def)
  obtain h1 where h1: "obfuscated o1 h1 ?i" using obfuscated_ident by blast
  obtain h2 where h2: "obfuscated ?i h2 o3"
    using o3(1) obfuscated_kex [of ?i o3]
    by (cases "os_wstate ?i = Kex") (auto simp: obfuscated_def intro: that [of "[]"])
  show thesis
    using o3 by (intro that [OF obfuscated_trans [OF h1 h2]]) (auto simp: write_ident_def)
qed

lemma process_write_written:
  assumes "written c base acc o1 (sent @ os_wout o1)" "process_write (push_bytes b o1) = Done o2"
  shows "written c base (acc @ b) o2 (sent @ os_wout o2)"
proof -
  obtain h t where w: "acc = h @ t @ os_wbuf o1" "sent @ os_wout o1 = base @ fst (rc4_apply c h) @ t"
    "if os_wstate o1 = Passed then os_wbuf o1 = [] else t = [] \<and> os_c2s o1 = snd (rc4_apply c h)"
    using assms(1) by (auto simp: written_def)
  obtain h2 o3 where p: "obfuscated (push_bytes b o1) h2 o3" "o2 = write_rest o3" "os_wstate o1 = Passed \<Longrightarrow> o3 = push_bytes b o1"
    by (rule process_write_parts [OF assms(2)]) simp
  show ?thesis
  proof (cases "os_wstate o1 = Passed")
    case True
    with p(2,3) w have "acc @ b = h @ (t @ b) @ os_wbuf o2" "sent @ os_wout o2 = base @ fst (rc4_apply c h) @ t @ b"
      "os_wbuf o2 = []" "os_wstate o2 = Passed"
      by (auto simp: write_rest_def simp flip: append_assoc)
    then show ?thesis unfolding written_def by (intro exI [of _ h] exI [of _ "t @ b"]) simp
  next
    case False
    have "acc @ b = (h @ h2) @ os_wbuf o3" "os_c2s o3 = snd (rc4_apply c (h @ h2))"
      using False w p(1) by (auto simp: obfuscated_def rc4_apply_append)
    moreover have "sent @ os_wout o3 = base @ fst (rc4_apply c (h @ h2))"
      using False w p(1) by (auto simp: obfuscated_def rc4_apply_append simp flip: append_assoc)
    ultimately show ?thesis unfolding written_def p(2)
      by (intro exI [of _ "h @ h2"] exI [of _ "if os_wstate o3 = Passed then os_wbuf o3 else []"])
        (auto simp: write_rest_def simp flip: append_assoc)
  qed
qed

text \<open>An inner stream whose writes do not fail.\<close>

definition clean_writes :: "nat poll list \<Rightarrow> bool" where
  "clean_writes ws \<longleftrightarrow> (\<forall>r \<in> set ws. case r of Pending \<Rightarrow> True | Ready (Inl e) \<Rightarrow> False | Ready (Inr n) \<Rightarrow> n \<noteq> 0)"

lemma flush_out_sends:
  "flush_out s = Done (r, o2, w2) \<Longrightarrow> clean_writes (in_writes (snd s)) \<Longrightarrow>
   in_sent w2 @ os_wout o2 = in_sent (snd s) @ os_wout (fst s) \<and> clean_writes (in_writes w2) \<and>
   o2 = (fst s)\<lparr>os_wout := os_wout o2\<rparr> \<and> (r = Pending \<or> r = Ready (Inr ()) \<and> os_wout o2 = [])"
proof (induction s rule: flush_out.induct)
  case (1 o1 w)
  show ?case
  proof (cases "os_wout o1 = []")
    case True
    then show ?thesis using "1.prems" by (simp add: flush_out.simps [of o1 w])
  next
    case False
    note f = "1.prems"(1) [unfolded flush_out.simps [of o1 w] if_not_P [OF False]]
    show ?thesis
    proof (cases "in_writes w")
      case Nil
      then show ?thesis using f "1.prems"(2) by (auto simp: next_write_def)
    next
      case (Cons x ws)
      have nw: "next_write w = (x, w\<lparr>in_writes := ws\<rparr>)" using Cons by (simp add: next_write_def)
      have ws: "clean_writes ws" using "1.prems"(2) Cons by (simp add: clean_writes_def)
      show ?thesis
      proof (cases x)
        case Pending
        then show ?thesis using f nw ws by auto
      next
        case (Ready y)
        then obtain n where n: "y = Inr n" "n \<noteq> 0" using "1.prems"(2) Cons by (cases y) (auto simp: clean_writes_def)
        have small: "\<not> length (os_wout o1) < n" using f nw Ready n by (auto split: if_splits)
        let ?o = "o1\<lparr>os_wout := drop n (os_wout o1)\<rparr>" and ?w = "w\<lparr>in_writes := ws, in_sent := in_sent w @ take n (os_wout o1)\<rparr>"
        have "flush_out (?o, ?w) = Done (r, o2, w2)" using f nw Ready n small by simp
        from "1.IH" [OF False nw [symmetric] Ready n small] this ws show ?thesis by simp
      qed
    qed
  qed
qed

text \<open>A client that writes buffers one after the other; what a call accepts is the prefix it reports.\<close>

fun poll_writes :: "bytes list \<Rightarrow> ossh \<times> inner \<Rightarrow> (bytes \<times> ossh \<times> inner) exec" where
  "poll_writes [] s = Done ([], s)"
| "poll_writes (b # bs) s =
     exec_bind (poll_write b s) (\<lambda>(r, s).
     exec_bind (poll_writes bs s) (\<lambda>(acc, s).
       Done ((case r of Ready (Inr n) \<Rightarrow> take n b | _ \<Rightarrow> []) @ acc, s)))"

lemma poll_write_written:
  assumes "written c base acc (fst s) (in_sent (snd s) @ os_wout (fst s))" "clean_writes (in_writes (snd s))"
    "poll_write b s = Done (r, s')"
  shows "written c base (acc @ (case r of Ready (Inr n) \<Rightarrow> take n b | _ \<Rightarrow> [])) (fst s') (in_sent (snd s') @ os_wout (fst s')) \<and>
    clean_writes (in_writes (snd s')) \<and> (r = Pending \<or> r = Ready (Inr (length b)))"
proof -
  obtain r1 o2 w2 where f: "flush_out s = Done (r1, o2, w2)"
    using assms(3) by (cases "flush_out s") (auto simp: poll_write_def)
  note g = flush_out_sends [OF f assms(2)]
  have inv: "written c base acc o2 (in_sent w2 @ os_wout o2)"
    using assms(1) g by (metis written_wout)
  show ?thesis
  proof (cases "r1 = Pending")
    case True
    then show ?thesis using assms(3) f inv g by (auto simp: poll_write_def)
  next
    case False
    then obtain o3 where o3: "process_write (push_bytes b o2) = Done o3"
      using assms(3) f by (cases "process_write (push_bytes b o2)") (auto simp: poll_write_def)
    obtain r4 o4 w4 where h: "flush_out (o3, w2) = Done (r4, o4, w4)"
      using assms(3) f o3 False by (cases "flush_out (o3, w2)") (auto simp: poll_write_def)
    have w2: "clean_writes (in_writes (snd (o3, w2)))" using g by simp
    note k = flush_out_sends [OF h w2]
    have "written c base (acc @ b) o3 (in_sent w2 @ os_wout o3)" by (rule process_write_written [OF inv o3])
    then have "written c base (acc @ b) o4 (in_sent w4 @ os_wout o4)" using k by (metis fst_conv snd_conv written_wout)
    moreover have "r = Ready (Inr (length b)) \<and> s' = (o4, w4)"
      using assms(3) f o3 h False k by (auto simp: poll_write_def)
    ultimately show ?thesis using k by simp
  qed
qed

lemma poll_writes_written:
  "\<lbrakk>poll_writes bs s = Done (got, s'); written c base acc (fst s) (in_sent (snd s) @ os_wout (fst s)); clean_writes (in_writes (snd s))\<rbrakk> \<Longrightarrow>
   written c base (acc @ got) (fst s') (in_sent (snd s') @ os_wout (fst s')) \<and> clean_writes (in_writes (snd s'))"
proof (induction bs arbitrary: s acc got)
  case (Cons b bs)
  obtain r s1 where p: "poll_write b s = Done (r, s1)" using Cons.prems(1) by (cases "poll_write b s") auto
  obtain got1 s2 where q: "poll_writes bs s1 = Done (got1, s2)" using Cons.prems(1) p by (cases "poll_writes bs s1") auto
  have e: "got = (case r of Ready (Inr n) \<Rightarrow> take n b | _ \<Rightarrow> []) @ got1" "s' = s2" using Cons.prems(1) p q by auto
  note one = poll_write_written [OF Cons.prems(2,3) p]
  have "written c base ((acc @ (case r of Ready (Inr n) \<Rightarrow> take n b | _ \<Rightarrow> [])) @ got1) (fst s') (in_sent (snd s') @ os_wout (fst s')) \<and>
      clean_writes (in_writes (snd s'))"
    by (rule Cons.IH [OF q [folded e(2)]]) (use one in blast)+
  then show ?case by (simp add: e(1))
qed simp



end
