(* ===== verification/Ssh_Session.thy ===== *)
theory Ssh_Session
  imports Ssh_Account Ossh_Stream
begin

text \<open>
  An SSH session (\<open>src/ssh/session.rs\<close>): the transport below it, the stages of opening one, opening a
  channel through it and closing it. The SSH client library, sockets and JSON printing are parameters.
\<close>

section \<open>The transport\<close>

text \<open>The polls of a TCP stream, on the record of what they will give that \<open>Ossh\<close> uses for its inner stream.\<close>

definition tcp_read :: "nat \<Rightarrow> inner \<Rightarrow> bytes poll \<times> inner" where
  "tcp_read room w =
     (case in_reads w of
        [] \<Rightarrow> (Pending, w)
      | Ready (Inr d) # reads \<Rightarrow>
          (Ready (Inr (take room d)), w\<lparr>in_reads := if length d \<le> room then reads else Ready (Inr (drop room d)) # reads\<rparr>)
      | r # reads \<Rightarrow> (r, w\<lparr>in_reads := reads\<rparr>))"

definition tcp_write :: "bytes \<Rightarrow> inner \<Rightarrow> nat poll \<times> inner" where
  "tcp_write buf w =
     (case next_write w of
        (Ready (Inr n), w) \<Rightarrow> (Ready (Inr (min n (length buf))), w\<lparr>in_sent := in_sent w @ take n buf\<rparr>)
      | (r, w) \<Rightarrow> (r, w))"

datatype ssh_transport = Plain inner | Obfuscated ossh inner

definition transport_read :: "nat \<Rightarrow> ssh_transport \<Rightarrow> (bytes poll \<times> ssh_transport) exec" where
  "transport_read room t =
     (case t of
        Plain w \<Rightarrow> (let (r, w) = tcp_read room w in Done (r, Plain w))
      | Obfuscated o1 w \<Rightarrow> exec_bind (poll_read room (o1, w)) (\<lambda>(r, o1, w). Done (r, Obfuscated o1 w)))"

definition transport_write :: "bytes \<Rightarrow> ssh_transport \<Rightarrow> (nat poll \<times> ssh_transport) exec" where
  "transport_write buf t =
     (case t of
        Plain w \<Rightarrow> (let (r, w) = tcp_write buf w in Done (r, Plain w))
      | Obfuscated o1 w \<Rightarrow> exec_bind (poll_write buf (o1, w)) (\<lambda>(r, o1, w). Done (r, Obfuscated o1 w)))"

definition transport_flush :: "ssh_transport \<Rightarrow> (unit poll \<times> ssh_transport) exec" where
  "transport_flush t =
     (case t of
        Plain w \<Rightarrow> Done (in_flush w, Plain w)
      | Obfuscated o1 w \<Rightarrow> exec_bind (poll_flush (o1, w)) (\<lambda>(r, o1, w). Done (r, Obfuscated o1 w)))"

definition transport_shutdown :: "ssh_transport \<Rightarrow> (unit poll \<times> ssh_transport) exec" where
  "transport_shutdown t =
     (case t of
        Plain w \<Rightarrow> Done (in_shutdown w, Plain w)
      | Obfuscated o1 w \<Rightarrow> exec_bind (poll_shutdown (o1, w)) (\<lambda>(r, o1, w). Done (r, Obfuscated o1 w)))"

section \<open>Opening a session\<close>

datatype ssh_error = SshCore string | SshSocket string | SshTimeout | SshAuth

fun ssh_error_text :: "ssh_error \<Rightarrow> string" where
  "ssh_error_text (SshCore e) = ''ssh: '' @ e"
| "ssh_error_text (SshSocket e) = ''ssh socket: '' @ e"
| "ssh_error_text SshTimeout = ''ssh tunnel not ready''"
| "ssh_error_text SshAuth = ''ssh authentication rejected''"

record timeouts =
  to_connect :: nat
  to_handshake :: nat
  to_auth :: nat

text \<open>
  The library calls of \<open>Session::connect\<close>. Each that runs under a timeout gets it, and answers
  \<open>None\<close> when it ran out; \<open>sc_client\<close> is \<open>Client::open\<close> on the plain or the obfuscated transport,
  given whether a server key is accepted.
\<close>

datatype handshake_reply = Success | Failure | Aborted

record ('k, 'n, 'c) ssh_calls =
  sc_b64 :: "string \<Rightarrow> string + bytes"
  sc_tcp :: "string \<Rightarrow> u16 \<Rightarrow> nat \<Rightarrow> (string + 'k) option"
  sc_nodelay :: "'k \<Rightarrow> string + unit"
  sc_client :: "'k \<Rightarrow> (string \<times> nat) option \<Rightarrow> (bytes \<Rightarrow> bool) \<Rightarrow> string + 'c"
  sc_auth :: "'c \<Rightarrow> string \<Rightarrow> string \<Rightarrow> nat \<Rightarrow> (string + bool) option"
  sc_request :: "'c \<Rightarrow> string \<Rightarrow> string \<Rightarrow> string + 'n"
  sc_reply :: "'n \<Rightarrow> nat \<Rightarrow> handshake_reply option"
  sc_json :: "(string \<times> string) list \<Rightarrow> string"

record 'c session =
  se_ip :: string
  se_protocol :: string
  se_client :: 'c
  se_closed :: bool

definition is_obfuscated :: "ssh_account \<Rightarrow> bool" where
  "is_obfuscated a \<longleftrightarrow> sa_obfuscated_key a \<noteq> [] \<and> sa_ossh_port a \<noteq> 0"

definition ssh_protocol :: "ssh_account \<Rightarrow> string" where
  "ssh_protocol a = (if is_obfuscated a then ''OSSH'' else ''SSH'')"

text \<open>The fields of the two JSON payloads; the list of capabilities is the constant it is in the code.\<close>

definition auth_fields :: "string \<Rightarrow> ssh_account \<Rightarrow> string \<Rightarrow> (string \<times> string) list" where
  "auth_fields session_id a sponsor_id =
     [(''SessionId'', session_id), (''SshPassword'', sa_password a), (''ClientCapabilities'', ''server-requests''),
      (''SponsorId'', sponsor_id)]"

definition handshake_fields :: "ssh_account \<Rightarrow> string \<Rightarrow> string \<Rightarrow> string \<Rightarrow> (string \<times> string) list" where
  "handshake_fields a sponsor_id propagation_channel_id client_platform =
     [(''propagation_channel_id'', propagation_channel_id), (''sponsor_id'', sponsor_id), (''client_version'', ''0''),
      (''client_platform'', client_platform), (''relay_protocol'', ssh_protocol a)]"

definition psiphon_handshake ::
  "('k, 'n, 'c) ssh_calls \<Rightarrow> ssh_account \<Rightarrow> timeouts \<Rightarrow> string \<Rightarrow> string \<Rightarrow> string \<Rightarrow> 'c \<Rightarrow> ssh_error + 'c session" where
  "psiphon_handshake C a ts sponsor_id propagation_channel_id client_platform client =
     (case sc_request C client ''psiphon-handshake''
             (sc_json C (handshake_fields a sponsor_id propagation_channel_id client_platform)) of
        Inl e \<Rightarrow> Inl (SshCore e)
      | Inr pending \<Rightarrow>
          (case sc_reply C pending (to_handshake ts) of
             None \<Rightarrow> Inl SshTimeout
           | Some Aborted \<Rightarrow> Inl (SshCore ''handshake aborted'')
           | Some Failure \<Rightarrow> Inl (SshCore ''handshake rejected'')
           | Some Success \<Rightarrow>
               Inr \<lparr>se_ip = sa_ip a, se_protocol = ssh_protocol a, se_client = client, se_closed = False\<rparr>))"

definition ssh_login ::
  "('k, 'n, 'c) ssh_calls \<Rightarrow> ssh_account \<Rightarrow> timeouts \<Rightarrow> string \<Rightarrow> string \<Rightarrow> string \<Rightarrow> string \<Rightarrow> 'c \<Rightarrow> ssh_error + 'c session" where
  "ssh_login C a ts session_id sponsor_id propagation_channel_id client_platform client =
     (case sc_auth C client (sa_username a) (sc_json C (auth_fields session_id a sponsor_id)) (to_handshake ts + to_auth ts) of
        None \<Rightarrow> Inl SshTimeout
      | Some (Inl e) \<Rightarrow> Inl (SshCore e)
      | Some (Inr False) \<Rightarrow> Inl SshAuth
      | Some (Inr True) \<Rightarrow> psiphon_handshake C a ts sponsor_id propagation_channel_id client_platform client)"

definition session_connect ::
  "('k, 'n, 'c) ssh_calls \<Rightarrow> ssh_account \<Rightarrow> timeouts \<Rightarrow> string \<Rightarrow> string \<Rightarrow> string \<Rightarrow> string \<Rightarrow> ssh_error + 'c session" where
  "session_connect C a ts session_id sponsor_id propagation_channel_id client_platform =
     (case sc_b64 C (sa_host_key a) of
        Inl e \<Rightarrow> Inl (SshCore e)
      | Inr expected \<Rightarrow>
          (case sc_tcp C (sa_ip a) (if is_obfuscated a then sa_ossh_port a else sa_ssh_port a) (to_connect ts) of
             None \<Rightarrow> Inl SshTimeout
           | Some (Inl e) \<Rightarrow> Inl (SshSocket e)
           | Some (Inr tcp) \<Rightarrow>
               (case sc_nodelay C tcp of
                  Inl e \<Rightarrow> Inl (SshSocket e)
                | Inr u \<Rightarrow>
                    (case sc_client C tcp (if is_obfuscated a then Some (sa_obfuscated_key a, 64) else None)
                            (\<lambda>pubkey. pubkey = expected) of
                       Inl e \<Rightarrow> Inl (SshCore e)
                     | Inr client \<Rightarrow>
                         ssh_login C a ts session_id sponsor_id propagation_channel_id client_platform client))))"

text \<open>\<open>dial\<close>: the library's call gets the target and the address 127.0.0.1:0 as the originator.\<close>

definition session_dial ::
  "('c \<Rightarrow> string \<times> u16 \<Rightarrow> string \<times> u16 \<Rightarrow> string + 'h) \<Rightarrow> 'c session \<Rightarrow> string \<Rightarrow> u16 \<Rightarrow> ssh_error + 'h" where
  "session_dial connect_tunnel se host port =
     (case connect_tunnel (se_client se) (host, port) (''127.0.0.1'', 0) of
        Inl e \<Rightarrow> Inl (SshCore e)
      | Inr channel \<Rightarrow> Inr channel)"

definition session_close :: "'c session \<Rightarrow> 'c session" where
  "session_close se = se\<lparr>se_closed := True\<rparr>"

section \<open>The transport as a source of bytes\<close>

definition transport_take :: "nat \<Rightarrow> ssh_transport \<Rightarrow> bytes progress \<times> ssh_transport" where
  "transport_take room t =
     (case transport_read room t of
        Done (Ready (Inr b), t) \<Rightarrow> (Now b, t)
      | Done (_, t) \<Rightarrow> (Wait, t)
      | Panicked \<Rightarrow> (Wait, t))"

fun transport_inner :: "ssh_transport \<Rightarrow> inner" where
  "transport_inner (Plain w) = w"
| "transport_inner (Obfuscated o1 w) = w"

fun transport_holds :: "ssh_transport \<Rightarrow> bytes \<Rightarrow> bool" where
  "transport_holds (Plain w) out = (arriving (in_reads w) = Some out)"
| "transport_holds (Obfuscated o1 w) out = ossh_holds (o1, w) out"

fun transport_ended :: "ssh_transport \<Rightarrow> bool" where
  "transport_ended (Plain w) = (\<exists>reads. in_reads w = Ready (Inr []) # reads)"
| "transport_ended (Obfuscated o1 w) = ossh_ended (o1, w)"

lemma transport_take_obfuscated:
  "transport_take n (Obfuscated o1 w) = (fst (ossh_take n (o1, w)), case_prod Obfuscated (snd (ossh_take n (o1, w))))"
  by (auto simp: transport_take_def transport_read_def ossh_take_def exec_bind_def split: exec.splits poll.splits sum.splits)

lemma transport_take_plain:
  "transport_take n (Plain w) =
     (case in_reads w of
        [] \<Rightarrow> (Wait, Plain w)
      | Ready (Inr d) # reads \<Rightarrow>
          (Now (take n d), Plain (w\<lparr>in_reads := if length d \<le> n then reads else Ready (Inr (drop n d)) # reads\<rparr>))
      | r # reads \<Rightarrow> (Wait, Plain (w\<lparr>in_reads := reads\<rparr>)))"
  by (auto simp: transport_take_def transport_read_def tcp_read_def split: list.splits poll.splits sum.splits)

lemma plain_take_some:
  assumes "arriving (in_reads w) = Some out" "out \<noteq> []"
  shows "(\<exists>b rest w'. transport_take n (Plain w) = (Now b, Plain w') \<and> (b = [] \<longrightarrow> n = 0) \<and> length b \<le> n \<and> out = b @ rest \<and>
      arriving (in_reads w') = Some rest \<and> length (in_reads w') \<le> length (in_reads w)) \<or>
    (\<exists>w'. transport_take n (Plain w) = (Wait, Plain w') \<and> arriving (in_reads w') = Some out \<and> length (in_reads w') < length (in_reads w))"
  using assms(1)
proof (cases "in_reads w" rule: arriving.cases)
  case (4 d reads)
  then obtain future where f: "d \<noteq> []" "arriving reads = Some future" "out = d @ future"
    using assms by (auto split: if_splits)
  then have "arriving (if length d \<le> n then reads else Ready (Inr (drop n d)) # reads) = Some (drop n d @ future)" by simp
  then show ?thesis using 4 f
    by (intro disjI1 exI [of _ "take n d"] exI [of _ "drop n d @ future"] exI conjI) (auto simp: transport_take_plain)
qed (use assms in \<open>auto simp: transport_take_plain\<close>)

interpretation tb: byte_source transport_take transport_holds transport_ended "\<lambda>t. length (in_reads (transport_inner t))"
proof (unfold_locales, goal_cases)
  case (1 t out n)
  show ?case
  proof (cases t)
    case (Plain w)
    then show ?thesis using plain_take_some [of w out n] 1 by fastforce
  next
    case (Obfuscated o1 w)
    then show ?thesis using ob.read_some [of "(o1, w)" out n] 1 by (fastforce simp: transport_take_obfuscated)
  qed
next
  case (2 t n)
  show ?case
  proof (cases t)
    case (Plain w)
    then show ?thesis using 2 arriving_empty
      by (cases "in_reads w") (auto simp: transport_take_plain split: poll.splits sum.splits)
  next
    case (Obfuscated o1 w)
    then show ?thesis using ob.read_none [of "(o1, w)" n] 2 by (fastforce simp: transport_take_obfuscated)
  qed
next
  case (3 t out)
  show ?case
  proof (cases t)
    case (Plain w)
    then show ?thesis using plain_take_some [of w out 0] 3 by fastforce
  next
    case (Obfuscated o1 w)
    with 3 have "ossh_holds (o1, w) out" by simp
    from ob.read_zero [OF this 3(2)] show ?thesis using Obfuscated
      by (cases "ossh_take 0 (o1, w)") (auto simp: transport_take_obfuscated)
  qed
qed

section \<open>When a session exists\<close>

lemma psiphon_handshake_iff:
  "psiphon_handshake C a ts sponsor channel platform client = Inr se \<longleftrightarrow>
     (\<exists>pending. sc_request C client ''psiphon-handshake'' (sc_json C (handshake_fields a sponsor channel platform)) = Inr pending \<and>
        sc_reply C pending (to_handshake ts) = Some Success \<and>
        se = \<lparr>se_ip = sa_ip a, se_protocol = ssh_protocol a, se_client = client, se_closed = False\<rparr>)"
  unfolding psiphon_handshake_def by (auto split: sum.splits option.splits handshake_reply.splits)

lemma ssh_login_iff:
  "ssh_login C a ts session_id sponsor channel platform client = Inr se \<longleftrightarrow>
     sc_auth C client (sa_username a) (sc_json C (auth_fields session_id a sponsor)) (to_handshake ts + to_auth ts) = Some (Inr True) \<and>
     psiphon_handshake C a ts sponsor channel platform client = Inr se"
  unfolding ssh_login_def by (auto split: sum.splits option.splits bool.splits)

lemma session_connect_stages:
  "session_connect C a ts session_id sponsor channel platform = Inr se \<longleftrightarrow>
     (\<exists>expected tcp u client.
        sc_b64 C (sa_host_key a) = Inr expected \<and>
        sc_tcp C (sa_ip a) (if is_obfuscated a then sa_ossh_port a else sa_ssh_port a) (to_connect ts) = Some (Inr tcp) \<and>
        sc_nodelay C tcp = Inr u \<and>
        sc_client C tcp (if is_obfuscated a then Some (sa_obfuscated_key a, 64) else None) (\<lambda>pubkey. pubkey = expected) = Inr client \<and>
        ssh_login C a ts session_id sponsor channel platform client = Inr se)"
  unfolding session_connect_def by (simp split: sum.splits option.splits)

text \<open>
  A session exists exactly if every stage of its set-up succeeded: the account's host key
  decodes, the server was reached on the obfuscated port if the account has one (and on the SSH
  port otherwise), a client was opened that accepts the account's host key only, the password was
  accepted, and the server answered the handshake with success. The session then belongs to the
  account's address.
\<close>

theorem session_connect_iff:
  "session_connect C a ts session_id sponsor channel platform = Inr se \<longleftrightarrow>
     (\<exists>expected tcp u client pending.
        sc_b64 C (sa_host_key a) = Inr expected \<and>
        sc_tcp C (sa_ip a) (if sa_obfuscated_key a \<noteq> [] \<and> sa_ossh_port a \<noteq> 0 then sa_ossh_port a else sa_ssh_port a)
          (to_connect ts) = Some (Inr tcp) \<and>
        sc_nodelay C tcp = Inr u \<and>
        sc_client C tcp (if sa_obfuscated_key a \<noteq> [] \<and> sa_ossh_port a \<noteq> 0 then Some (sa_obfuscated_key a, 64) else None)
          (\<lambda>pubkey. pubkey = expected) = Inr client \<and>
        sc_auth C client (sa_username a) (sc_json C (auth_fields session_id a sponsor)) (to_handshake ts + to_auth ts) =
          Some (Inr True) \<and>
        sc_request C client ''psiphon-handshake'' (sc_json C (handshake_fields a sponsor channel platform)) = Inr pending \<and>
        sc_reply C pending (to_handshake ts) = Some Success \<and>
        se = \<lparr>se_ip = sa_ip a, se_protocol = ssh_protocol a, se_client = client, se_closed = False\<rparr>)"
  unfolding session_connect_stages is_obfuscated_def [symmetric] ssh_login_iff psiphon_handshake_iff by blast

end
