(* ===== verification/Ssh_Tunnel.thy ===== *)
theory Ssh_Tunnel
  imports Socks Vpn_Account Ssh_Session
begin

text \<open>
  The tunnel that keeps a region's pool of SSH sessions filled (\<open>src/ssh/mod.rs\<close>). Sessions are shared
  between the tunnel and its users, so they have addresses; times are in milliseconds.
\<close>

section \<open>The tunnel\<close>

record config =
  cf_region :: string
  cf_pool_size :: u32
  cf_client_platform :: string
  cf_sponsor_id :: string
  cf_propagation_channel_id :: string

definition config_default :: config where
  "config_default =
     \<lparr>cf_region = [], cf_pool_size = 1, cf_client_platform = ''Windows'', cf_sponsor_id = ''FFFFFFFFFFFFFFFF'',
      cf_propagation_channel_id = ''FFFFFFFFFFFFFFFF''\<rparr>"

definition PICK_TIMEOUT :: nat where [consts_defs]: "PICK_TIMEOUT = 10000"
definition MAX_CONCURRENT_HANDSHAKES :: nat where [consts_defs]: "MAX_CONCURRENT_HANDSHAKES = 8"

record 'x ssh_tunnel =
  tu_region :: string
  tu_target_pool :: nat
  tu_socks_port :: u16
  tu_sessions :: "nat list"
  tu_exits :: 'x
  tu_accounts :: "ssh_account list"
  tu_not_before :: "u64 list"
  tu_failures :: "u64 list"
  tu_rotate :: u64
  tu_terminate_pending :: nat
  tu_connecting :: nat
  tu_generation :: u64

definition start_with :: "config \<Rightarrow> ssh_account list \<Rightarrow> u16 \<Rightarrow> 'x \<Rightarrow> 'x ssh_tunnel" where
  "start_with cf accounts port exits =
     \<lparr>tu_region = cf_region cf, tu_target_pool = unat (max (cf_pool_size cf) 1), tu_socks_port = port,
      tu_sessions = [], tu_exits = exits, tu_accounts = accounts,
      tu_not_before = replicate (length accounts) 0, tu_failures = replicate (length accounts) 0,
      tu_rotate = 0, tu_terminate_pending = 0, tu_connecting = 0, tu_generation = 0\<rparr>"

text \<open>Sessions by address.\<close>

type_synonym 'c sessions = "nat \<Rightarrow> 'c session option"

definition is_closed :: "'c sessions \<Rightarrow> nat \<Rightarrow> bool" where
  "is_closed S i \<longleftrightarrow> (case S i of Some se \<Rightarrow> se_closed se | None \<Rightarrow> True)"

definition live_count :: "'x ssh_tunnel \<Rightarrow> nat" where
  "live_count tu = length (tu_sessions tu)"

definition ready_count :: "'c sessions \<Rightarrow> 'x ssh_tunnel \<Rightarrow> nat" where
  "ready_count S tu = length (filter (\<lambda>i. \<not> is_closed S i) (tu_sessions tu))"

text \<open>One round of \<open>pick_session\<close>; the loop polls every 200 ms until its deadline.\<close>

definition pick_open :: "'c sessions \<Rightarrow> 'x ssh_tunnel \<Rightarrow> nat option \<times> 'x ssh_tunnel" where
  "pick_open S tu =
     (let open_sessions = filter (\<lambda>i. \<not> is_closed S i) (tu_sessions tu) in
      if open_sessions \<noteq> []
      then (Some (open_sessions ! (unat (tu_rotate tu) mod length open_sessions)), tu\<lparr>tu_rotate := tu_rotate tu + 1\<rparr>)
      else (None, tu))"

text \<open>The sessions a round sees change with time: \<open>view\<close> gives the tunnel and the sessions at a time.\<close>

function pick_until :: "(nat \<Rightarrow> 'c sessions \<times> 'x ssh_tunnel) \<Rightarrow> nat \<Rightarrow> nat \<Rightarrow> nat option \<times> nat" where
  "pick_until view deadline now =
     (case fst (pick_open (fst (view now)) (snd (view now))) of
        Some i \<Rightarrow> (Some i, now)
      | None \<Rightarrow> if deadline \<le> now then (None, now) else pick_until view deadline (now + 200))"
  by pat_completeness auto
termination
  by (relation "measure (\<lambda>(view, deadline, now). deadline - now)") auto

declare pick_until.simps [simp del]

definition pick_session :: "(nat \<Rightarrow> 'c sessions \<times> 'x ssh_tunnel) \<Rightarrow> nat \<Rightarrow> nat option \<times> nat" where
  "pick_session view now = pick_until view (now + PICK_TIMEOUT) now"

definition record_exit ::
  "(string \<Rightarrow> exit \<Rightarrow> 'x \<Rightarrow> 'x) \<Rightarrow> (string \<Rightarrow> string) \<Rightarrow> string \<Rightarrow> 'c session \<Rightarrow> 'x ssh_tunnel \<Rightarrow> 'x ssh_tunnel" where
  "record_exit put lower host se tu =
     tu\<lparr>tu_exits := put (lower host)
          \<lparr>ex_ip = se_ip se, ex_region = tu_region tu, ex_protocol = se_protocol se\<rparr> (tu_exits tu)\<rparr>"

definition ssh_exit_for :: "(string \<Rightarrow> 'x \<Rightarrow> exit option) \<Rightarrow> (string \<Rightarrow> string) \<Rightarrow> string \<Rightarrow> 'x ssh_tunnel \<Rightarrow> exit" where
  "ssh_exit_for peek lower host tu =
     (case peek (lower host) (tu_exits tu) of
        Some e \<Rightarrow> e
      | None \<Rightarrow> \<lparr>ex_ip = [], ex_region = [], ex_protocol = []\<rparr>)"

text \<open>
  \<open>dial\<close>: a session that is picked exists (one without an address in \<open>S\<close> counts as closed), so the
  branch without one is never taken.
\<close>

definition ssh_dial ::
  "(string \<Rightarrow> exit \<Rightarrow> 'x \<Rightarrow> 'x) \<Rightarrow> (string \<Rightarrow> string) \<Rightarrow>
   ('c \<Rightarrow> string \<times> u16 \<Rightarrow> string \<times> u16 \<Rightarrow> string + 'h) \<Rightarrow>
   (nat \<Rightarrow> 'c sessions \<times> 'x ssh_tunnel) \<Rightarrow> nat \<Rightarrow> string \<Rightarrow> u16 \<Rightarrow> (ssh_error + 'h) \<times> 'x ssh_tunnel \<times> nat" where
  "ssh_dial put lower connect_tunnel view now host port =
     (case pick_session view now of
        (None, t) \<Rightarrow> (Inl SshTimeout, snd (view t), t)
      | (Some i, t) \<Rightarrow>
          let S = fst (view t); tu = snd (pick_open S (snd (view t))) in
          (case S i of
             None \<Rightarrow> (Inl SshTimeout, tu, t)
           | Some se \<Rightarrow>
               (case session_dial connect_tunnel se host port of
                  Inl e \<Rightarrow> (Inl e, tu, t)
                | Inr channel \<Rightarrow> (Inr channel, record_exit put lower host se tu, t))))"

definition ssh_is_ready :: "'c sessions \<times> 'x ssh_tunnel \<Rightarrow> bool" where
  "ssh_is_ready st \<longleftrightarrow> 0 < ready_count (fst st) (snd st)"

definition ssh_active_tunnels :: "'c sessions \<times> 'x ssh_tunnel \<Rightarrow> nat" where
  "ssh_active_tunnels st = ready_count (fst st) (snd st)"

definition ssh_proxy_url :: "'c sessions \<times> 'x ssh_tunnel \<Rightarrow> string option" where
  "ssh_proxy_url st = Some (''socks5h://127.0.0.1:'' @ show_nat (unat (tu_socks_port (snd st))))"

definition terminate :: "nat \<Rightarrow> 'x ssh_tunnel \<Rightarrow> 'x ssh_tunnel" where
  "terminate n tu = tu\<lparr>tu_terminate_pending := tu_terminate_pending tu + n\<rparr>"

interpretation ssh: tunnel_trait ssh_is_ready ssh_active_tunnels ssh_proxy_url
  by unfold_locales (simp_all add: ssh_is_ready_def ssh_active_tunnels_def ssh_proxy_url_def)

section \<open>The manager\<close>

definition reap_sessions :: "'c sessions \<Rightarrow> 'x ssh_tunnel \<Rightarrow> 'x ssh_tunnel" where
  "reap_sessions S tu =
     (let dead = filter (is_closed S) (tu_sessions tu) in
      if dead = [] then tu
      else tu\<lparr>tu_sessions := filter (\<lambda>i. i \<notin> set dead) (tu_sessions tu), tu_generation := tu_generation tu + 1\<rparr>)"

definition close_session :: "nat \<Rightarrow> 'c sessions \<Rightarrow> 'c sessions" where
  "close_session i S = S(i := map_option (\<lambda>se. se\<lparr>se_closed := True\<rparr>) (S i))"

text \<open>Retiring: the last sessions are taken off and closed, one for each pending request.\<close>

fun retire_loop :: "nat \<Rightarrow> 'c sessions \<Rightarrow> nat list \<Rightarrow> nat \<times> 'c sessions \<times> nat list" where
  "retire_loop 0 S xs = (0, S, xs)"
| "retire_loop (Suc n) S xs =
     (if xs = [] then retire_loop n S xs
      else let (retired, S, ys) = retire_loop n (close_session (last xs) S) (butlast xs) in (Suc retired, S, ys))"

definition retire_sessions :: "'c sessions \<Rightarrow> 'x ssh_tunnel \<Rightarrow> 'c sessions \<times> 'x ssh_tunnel" where
  "retire_sessions S tu =
     (let (retired, S, xs) = retire_loop (tu_terminate_pending tu) S (tu_sessions tu) in
      (S, tu\<lparr>tu_terminate_pending := 0, tu_sessions := xs,
             tu_generation := tu_generation tu + (if 0 < retired then 1 else 0)\<rparr>))"

fun pick_account_loop :: "nat \<Rightarrow> u64 list \<Rightarrow> u64 \<Rightarrow> u64 \<Rightarrow> nat option \<times> u64" where
  "pick_account_loop 0 not_before now rot = (None, rot)"
| "pick_account_loop (Suc k) not_before now rot =
     (let index = unat rot mod length not_before in
      if not_before ! index \<le> now then (Some index, rot + 1)
      else pick_account_loop k not_before now (rot + 1))"

definition pick_account :: "u64 \<Rightarrow> 'x ssh_tunnel \<Rightarrow> nat option \<times> 'x ssh_tunnel" where
  "pick_account now tu =
     (let (found, rot) = pick_account_loop (length (tu_accounts tu)) (tu_not_before tu) now (tu_rotate tu) in
      (found, tu\<lparr>tu_rotate := rot\<rparr>))"

definition session_backoff :: "u64 \<Rightarrow> u64" where
  "session_backoff failures = min (push_bit (unat (min failures 6)) 1000) 300000"

definition connect_ok :: "nat \<Rightarrow> nat \<Rightarrow> 'x ssh_tunnel \<Rightarrow> 'x ssh_tunnel" where
  "connect_ok index a tu =
     tu\<lparr>tu_failures := (tu_failures tu)[index := 0], tu_not_before := (tu_not_before tu)[index := 0],
        tu_sessions := tu_sessions tu @ [a]\<rparr>"

definition connect_failed :: "nat \<Rightarrow> u64 \<Rightarrow> 'x ssh_tunnel \<Rightarrow> 'x ssh_tunnel" where
  "connect_failed index now tu =
     (let failures = tu_failures tu ! index + 1 in
      tu\<lparr>tu_failures := (tu_failures tu)[index := failures],
         tu_not_before := (tu_not_before tu)[index := now + session_backoff failures]\<rparr>)"

section \<open>The manager at work\<close>

text \<open>
  The tasks around one tunnel: the manager's round (reaping, retiring, starting handshakes), the
  handshakes it has started, sessions that die, users that pick sessions, the refresh task that
  asks for terminations, and other tunnels that take and return permits of the common semaphore.
  A handshake is running, or settled (its result is recorded but it still counts).
\<close>

datatype task = Running nat | Settled

record ('c, 'x) mgr =
  mg_tunnel :: "'x ssh_tunnel"
  mg_sessions :: "'c sessions"
  mg_next :: nat
  mg_tasks :: "task list"
  mg_permits :: nat
  mg_others :: nat
  mg_now :: nat

definition needed :: "'x ssh_tunnel \<Rightarrow> nat" where
  "needed tu = tu_target_pool tu - (live_count tu + tu_connecting tu)"

inductive mgr_step :: "('c, 'x) mgr \<Rightarrow> ('c, 'x) mgr \<Rightarrow> bool" where
  pass: "mgr_step s (s\<lparr>mg_now := mg_now s + d\<rparr>)"
| dies: "mgr_step s (s\<lparr>mg_sessions := close_session a (mg_sessions s)\<rparr>)"
| ask: "mgr_step s (s\<lparr>mg_tunnel := terminate n (mg_tunnel s)\<rparr>)"
| pick: "pick_open (mg_sessions s) (mg_tunnel s) = (r, tu) \<Longrightarrow> mgr_step s (s\<lparr>mg_tunnel := tu\<rparr>)"
| dialled: "mgr_step s (s\<lparr>mg_tunnel := record_exit put lower host (se :: 'c session) (mg_tunnel s)\<rparr>)"
| reap: "mgr_step s (s\<lparr>mg_tunnel := reap_sessions (mg_sessions s) (mg_tunnel s)\<rparr>)"
| retire: "retire_sessions (mg_sessions s) (mg_tunnel s) = (S, tu) \<Longrightarrow>
    mgr_step s (s\<lparr>mg_sessions := S, mg_tunnel := tu\<rparr>)"
| spawn: "tu_accounts (mg_tunnel s) \<noteq> [] \<Longrightarrow> 0 < needed (mg_tunnel s) \<Longrightarrow>
    pick_account (of_nat (mg_now s)) (mg_tunnel s) = (Some index, tu) \<Longrightarrow> mg_permits s = Suc permits \<Longrightarrow>
    mgr_step s (s\<lparr>mg_tunnel := tu\<lparr>tu_connecting := Suc (tu_connecting tu)\<rparr>, mg_tasks := Running index # mg_tasks s,
                  mg_permits := permits\<rparr>)"
| idle: "tu_accounts (mg_tunnel s) \<noteq> [] \<Longrightarrow> 0 < needed (mg_tunnel s) \<Longrightarrow>
    pick_account (of_nat (mg_now s)) (mg_tunnel s) = (found, tu) \<Longrightarrow> found = None \<or> mg_permits s = 0 \<Longrightarrow>
    mgr_step s (s\<lparr>mg_tunnel := tu\<rparr>)"
| connected: "mg_tasks s = xs @ Running index # ys \<Longrightarrow>
    mgr_step s (s\<lparr>mg_tunnel := connect_ok index (mg_next s) (mg_tunnel s),
                  mg_sessions := (mg_sessions s)(mg_next s \<mapsto> se), mg_next := Suc (mg_next s),
                  mg_tasks := xs @ Settled # ys\<rparr>)"
| failed: "mg_tasks s = xs @ Running index # ys \<Longrightarrow>
    mgr_step s (s\<lparr>mg_tunnel := connect_failed index (of_nat (mg_now s)) (mg_tunnel s), mg_tasks := xs @ Settled # ys\<rparr>)"
| finish: "mg_tasks s = xs @ Settled # ys \<Longrightarrow>
    mgr_step s (s\<lparr>mg_tunnel := (mg_tunnel s)\<lparr>tu_connecting := tu_connecting (mg_tunnel s) - 1\<rparr>, mg_tasks := xs @ ys,
                  mg_permits := Suc (mg_permits s)\<rparr>)"
| others_take: "mg_permits s = Suc permits \<Longrightarrow> mgr_step s (s\<lparr>mg_permits := permits, mg_others := Suc (mg_others s)\<rparr>)"
| others_return: "mg_others s = Suc n \<Longrightarrow> mgr_step s (s\<lparr>mg_permits := Suc (mg_permits s), mg_others := n\<rparr>)"

definition mgr_start :: "config \<Rightarrow> ssh_account list \<Rightarrow> u16 \<Rightarrow> 'x \<Rightarrow> nat \<Rightarrow> ('c, 'x) mgr" where
  "mgr_start cf accounts port exits now =
     \<lparr>mg_tunnel = start_with cf accounts port exits, mg_sessions = Map.empty, mg_next = 0, mg_tasks = [],
      mg_permits = MAX_CONCURRENT_HANDSHAKES, mg_others = 0, mg_now = now\<rparr>"

section \<open>The pool of sessions stays within its size\<close>

fun running :: "task list \<Rightarrow> nat" where
  "running [] = 0"
| "running (Running i # ts) = Suc (running ts)"
| "running (Settled # ts) = running ts"

lemma running_append [simp]: "running (xs @ ys) = running xs + running ys"
  by (induction xs rule: running.induct) auto

lemma running_le: "running ts \<le> length ts"
  by (induction ts rule: running.induct) auto

definition mgr_ok :: "('c, 'x) mgr \<Rightarrow> bool" where
  "mgr_ok s \<longleftrightarrow>
     (let tu = mg_tunnel s; n = length (tu_accounts tu) in
      length (tu_not_before tu) = n \<and> length (tu_failures tu) = n \<and>
      (\<forall>i. Running i \<in> set (mg_tasks s) \<longrightarrow> i < n) \<and>
      tu_connecting tu = length (mg_tasks s) \<and>
      live_count tu + running (mg_tasks s) \<le> tu_target_pool tu \<and>
      mg_permits s + length (mg_tasks s) + mg_others s = MAX_CONCURRENT_HANDSHAKES \<and>
      distinct (tu_sessions tu) \<and> set (tu_sessions tu) \<subseteq> dom (mg_sessions s) \<and> dom (mg_sessions s) \<subseteq> {..<mg_next s})"

text \<open>What the manager's operations keep of a tunnel.\<close>

definition same_pool :: "'x ssh_tunnel \<Rightarrow> 'x ssh_tunnel \<Rightarrow> bool" where
  "same_pool tu tu' \<longleftrightarrow>
     tu_accounts tu' = tu_accounts tu \<and> tu_target_pool tu' = tu_target_pool tu \<and> tu_connecting tu' = tu_connecting tu \<and>
     length (tu_not_before tu') = length (tu_not_before tu) \<and> length (tu_failures tu') = length (tu_failures tu)"

lemma pick_account_loop_bound:
  "pick_account_loop k nb now r = (Some i, r') \<Longrightarrow> nb \<noteq> [] \<Longrightarrow> i < length nb \<and> nb ! i \<le> now"
  by (induction k nb now r arbitrary: r' rule: pick_account_loop.induct) (auto simp: Let_def split: if_splits)

lemma pick_account_facts:
  assumes "pick_account now tu = (found, tu')"
  shows "same_pool tu tu'" "tu_sessions tu' = tu_sessions tu"
    "found = Some i \<Longrightarrow> tu_not_before tu \<noteq> [] \<Longrightarrow> i < length (tu_not_before tu) \<and> tu_not_before tu ! i \<le> now"
  using assms pick_account_loop_bound by (fastforce simp: pick_account_def same_pool_def split: prod.splits)+

lemma close_session_dom [simp]: "dom (close_session a S) = dom S"
  by (auto simp: close_session_def dom_def)

lemma retire_loop_facts:
  "retire_loop n S xs = (k, S', ys) \<Longrightarrow> dom S' = dom S \<and> ys = take (length xs - n) xs \<and> k = min n (length xs)"
proof (induction n S xs arbitrary: k S' ys rule: retire_loop.induct)
  case (2 n S xs)
  show ?case
  proof (cases "xs = []")
    case True
    then show ?thesis using 2 by auto
  next
    case False
    obtain k1 S1 zs where r: "retire_loop n (close_session (last xs) S) (butlast xs) = (k1, S1, zs)" using prod_cases3 by blast
    have "dom S1 = dom S \<and> zs = take (length xs - Suc n) (butlast xs) \<and> k1 = min n (length xs - 1)"
      using "2.IH"(2) [OF False r] by (simp add: diff_right_commute)
    moreover have "take (length xs - Suc n) (butlast xs) = take (length xs - Suc n) xs"
      using False by (simp add: take_butlast)
    ultimately show ?thesis using "2.prems" False r by (auto simp: min_def not_less_eq_eq)
  qed
qed auto

lemma retire_sessions_facts:
  assumes "retire_sessions S tu = (S', tu')"
  shows "same_pool tu tu'" "dom S' = dom S"
    "tu_sessions tu' = take (length (tu_sessions tu) - tu_terminate_pending tu) (tu_sessions tu)"
  using assms retire_loop_facts by (fastforce simp: retire_sessions_def same_pool_def split: prod.splits)+

lemma pick_open_facts:
  "pick_open S tu = (r, tu') \<Longrightarrow> same_pool tu tu' \<and> tu_sessions tu' = tu_sessions tu"
  by (auto simp: pick_open_def same_pool_def Let_def split: if_splits)

lemma reap_sessions_facts:
  "same_pool tu (reap_sessions S tu)"
  "tu_sessions (reap_sessions S tu) = filter (\<lambda>i. \<not> is_closed S i) (tu_sessions tu)"
proof -
  show "same_pool tu (reap_sessions S tu)" by (simp add: reap_sessions_def same_pool_def Let_def)
  have "filter (\<lambda>i. i \<notin> set (filter (is_closed S) xs)) xs = filter (\<lambda>i. \<not> is_closed S i) xs" for xs
    by (rule filter_cong) auto
  moreover have "filter (is_closed S) xs = [] \<Longrightarrow> filter (\<lambda>i. \<not> is_closed S i) xs = xs" for xs
    by (simp add: filter_empty_conv filter_id_conv)
  ultimately show "tu_sessions (reap_sessions S tu) = filter (\<lambda>i. \<not> is_closed S i) (tu_sessions tu)"
    by (simp add: reap_sessions_def Let_def del: set_filter)
qed

text \<open>A step that only takes sessions away, and changes no task, keeps the invariant.\<close>

lemma mgr_ok_fewer:
  assumes "mgr_ok s" "same_pool (mg_tunnel s) tu" "distinct (tu_sessions tu)" "set (tu_sessions tu) \<subseteq> set (tu_sessions (mg_tunnel s))"
    "dom S = dom (mg_sessions s)" "mg_tunnel s' = tu" "mg_sessions s' = S" "mg_next s' = mg_next s" "mg_tasks s' = mg_tasks s"
    "mg_permits s' + mg_others s' = mg_permits s + mg_others s"
  shows "mgr_ok s'"
proof -
  have "length (tu_sessions tu) \<le> length (tu_sessions (mg_tunnel s))"
    using card_mono [OF finite_set assms(4)] distinct_card [OF assms(3)] card_length [of "tu_sessions (mg_tunnel s)"] by linarith
  then show ?thesis using assms unfolding mgr_ok_def same_pool_def live_count_def Let_def by auto
qed

lemma mgr_ok_tasks:
  assumes "mgr_ok s"
  shows "length (tu_not_before (mg_tunnel s)) = length (tu_accounts (mg_tunnel s))"
    "length (tu_failures (mg_tunnel s)) = length (tu_accounts (mg_tunnel s))"
    "Running i \<in> set (mg_tasks s) \<Longrightarrow> i < length (tu_accounts (mg_tunnel s))"
    "tu_connecting (mg_tunnel s) = length (mg_tasks s)"
    "live_count (mg_tunnel s) + running (mg_tasks s) \<le> tu_target_pool (mg_tunnel s)"
    "mg_permits s + length (mg_tasks s) + mg_others s = MAX_CONCURRENT_HANDSHAKES"
    "distinct (tu_sessions (mg_tunnel s))" "set (tu_sessions (mg_tunnel s)) \<subseteq> dom (mg_sessions s)"
    "dom (mg_sessions s) \<subseteq> {..<mg_next s}"
  using assms by (auto simp: mgr_ok_def Let_def)

lemma mgr_step_ok: "mgr_step s s' \<Longrightarrow> mgr_ok s \<Longrightarrow> mgr_ok s'"
proof (induction rule: mgr_step.induct)
  case (pick s r tu)
  then show ?case using pick_open_facts [OF pick.hyps] by (intro mgr_ok_fewer [OF pick.prems]) (auto dest: mgr_ok_tasks)
next
  case (dialled s put lower host se)
  then show ?case
    by (intro mgr_ok_fewer [OF dialled.prems]) (auto simp: record_exit_def same_pool_def dest: mgr_ok_tasks)
next
  case (reap s)
  then show ?case using reap_sessions_facts [where tu = "mg_tunnel s" and S = "mg_sessions s"]
    by (intro mgr_ok_fewer [OF reap.prems]) (auto dest: mgr_ok_tasks)
next
  case (retire s S tu)
  then show ?case using retire_sessions_facts [OF retire.hyps] mgr_ok_tasks(7) [OF retire.prems]
    by (intro mgr_ok_fewer [OF retire.prems]) (auto dest: in_set_takeD)
next
  case (spawn s index tu permits)
  note ok = mgr_ok_tasks [OF spawn.prems] and pf = pick_account_facts [OF spawn.hyps(3)]
  have "tu_not_before (mg_tunnel s) \<noteq> []" using spawn.hyps(1) ok(1) by auto
  then have "index < length (tu_accounts (mg_tunnel s))" using pf(3) ok(1) by simp
  moreover have "live_count (mg_tunnel s) + Suc (running (mg_tasks s)) \<le> tu_target_pool (mg_tunnel s)"
    using spawn.hyps(2) ok(4) running_le [of "mg_tasks s"] by (simp add: needed_def)
  ultimately show ?case using ok pf(1,2) spawn.hyps(4) by (auto simp: mgr_ok_def same_pool_def live_count_def Let_def)
next
  case (idle s found tu)
  then show ?case using pick_account_facts [OF idle.hyps(3)]
    by (intro mgr_ok_fewer [OF idle.prems]) (auto dest: mgr_ok_tasks)
next
  case (connected s xs index ys se)
  note ok = mgr_ok_tasks [OF connected.prems]
  have "mg_next s \<notin> set (tu_sessions (mg_tunnel s))" using ok(8,9) by blast
  then show ?case using ok connected.hyps
    by (auto simp: mgr_ok_def connect_ok_def live_count_def Let_def less_Suc_eq)
next
  case (failed s xs index ys)
  note ok = mgr_ok_tasks [OF failed.prems]
  show ?case using ok failed.hyps by (auto simp: mgr_ok_def connect_failed_def live_count_def Let_def)
next
  case (finish s xs ys)
  note ok = mgr_ok_tasks [OF finish.prems]
  show ?case using ok finish.hyps by (auto simp: mgr_ok_def live_count_def Let_def)
qed (auto simp: mgr_ok_def Let_def terminate_def live_count_def)



section \<open>Choosing accounts and sessions\<close>

lemma rotate_hits: "i < n \<Longrightarrow> (r + (i + n - r mod n) mod n) mod n = (i :: nat)"
proof -
  assume i: "i < n"
  then have le: "r mod n \<le> i + n" using mod_less_divisor [of n r] by linarith
  have "(r + (i + n - r mod n) mod n) mod n = (r mod n + (i + n - r mod n)) mod n"
    by (metis mod_add_eq mod_mod_trivial)
  also have "\<dots> = (i + n) mod n" using le by simp
  finally show ?thesis using i by simp
qed

lemma pick_account_loop_spec:
  assumes "length nb = n" "0 < n" "unat rot + k < 2 ^ 64"
  shows "case pick_account_loop k nb now rot of
      (Some i, rot') \<Rightarrow> (\<exists>j < k. i = (unat rot + j) mod n \<and> nb ! i \<le> now \<and> (\<forall>m < j. \<not> nb ! ((unat rot + m) mod n) \<le> now))
    | (None, rot') \<Rightarrow> \<forall>m < k. \<not> nb ! ((unat rot + m) mod n) \<le> now"
  using assms(3)
proof (induction k arbitrary: rot)
  case 0
  then show ?case by simp
next
  case (Suc k)
  have un: "unat (rot + 1) = Suc (unat rot)" using Suc.prems by (simp add: unat_word_ariths)
  show ?case
  proof (cases "nb ! (unat rot mod n) \<le> now")
    case True
    then show ?thesis using assms(1) by (auto simp: Let_def intro!: exI [of _ 0])
  next
    case False
    obtain found rot' where r: "pick_account_loop k nb now (rot + 1) = (found, rot')" by fastforce
    have loop: "pick_account_loop (Suc k) nb now rot = (found, rot')" using False r assms(1) by (simp add: Let_def)
    have IH: "case (found, rot') of
        (Some i, rot') \<Rightarrow> (\<exists>j < k. i = (unat rot + Suc j) mod n \<and> nb ! i \<le> now \<and> (\<forall>m < j. \<not> nb ! ((unat rot + Suc m) mod n) \<le> now))
      | (None, rot') \<Rightarrow> \<forall>m < k. \<not> nb ! ((unat rot + Suc m) mod n) \<le> now"
      using Suc.IH [of "rot + 1"] Suc.prems un r by (cases found) simp_all
    have ext: "\<forall>m < Suc j. \<not> nb ! ((unat rot + m) mod n) \<le> now"
      if "\<forall>m < j. \<not> nb ! ((unat rot + Suc m) mod n) \<le> now" for j
      using that False by (auto simp: less_Suc_eq_0_disj)
    show ?thesis
    proof (cases found)
      case None
      then show ?thesis using IH loop ext [of k] by simp
    next
      case (Some i)
      then obtain j where "j < k" "i = (unat rot + Suc j) mod n" "nb ! i \<le> now"
        "\<forall>m < j. \<not> nb ! ((unat rot + Suc m) mod n) \<le> now" using IH by auto
      then show ?thesis using loop Some ext [of j] by (auto intro!: exI [of _ "Suc j"])
    qed
  qed
qed

text \<open>
  C35: the manager finds an account whenever there is one to use: if some account's waiting time is
  over, \<open>pick_account\<close> returns such an account, the first in rotation order; it returns none only if
  every account has to wait (as long as the rotation counter does not wrap).
\<close>

theorem pick_account_complete:
  assumes "length (tu_not_before tu) = length (tu_accounts tu)" "tu_accounts tu \<noteq> []"
    "unat (tu_rotate tu) + length (tu_accounts tu) < 2 ^ 64"
  shows "case fst (pick_account now tu) of
      Some i \<Rightarrow> i < length (tu_accounts tu) \<and> tu_not_before tu ! i \<le> now
    | None \<Rightarrow> (\<forall>i < length (tu_accounts tu). now < tu_not_before tu ! i)"
proof -
  let ?n = "length (tu_accounts tu)"
  have n: "0 < ?n" using assms(2) by simp
  obtain found rot' where r: "pick_account_loop ?n (tu_not_before tu) now (tu_rotate tu) = (found, rot')" by fastforce
  note spec = pick_account_loop_spec [OF assms(1) n assms(3), of now]
  show ?thesis
  proof (cases found)
    case (Some i)
    then show ?thesis using spec r n by (auto simp: pick_account_def)
  next
    case None
    have "now < tu_not_before tu ! i" if "i < ?n" for i
    proof -
      let ?m = "(i + ?n - unat (tu_rotate tu) mod ?n) mod ?n"
      have "(unat (tu_rotate tu) + ?m) mod ?n = i" by (rule rotate_hits [OF that])
      moreover have "\<not> tu_not_before tu ! ((unat (tu_rotate tu) + ?m) mod ?n) \<le> now"
        using spec r None n by simp
      ultimately show ?thesis by simp
    qed
    then show ?thesis using r None by (simp add: pick_account_def)
  qed
qed

theorem pick_account_complete_witness:
  "fst (pick_account 5 ((start_with config_default [demo_ssh_account, demo_ssh_account] 1080 ())\<lparr>tu_not_before := [9, 3]\<rparr>)) \<noteq> None"
proof -
  let ?tu = "(start_with config_default [demo_ssh_account, demo_ssh_account] 1080 ())\<lparr>tu_not_before := [9, 3]\<rparr>"
  have "length (tu_not_before ?tu) = length (tu_accounts ?tu)" "tu_accounts ?tu \<noteq> []"
    "unat (tu_rotate ?tu) + length (tu_accounts ?tu) < 2 ^ 64" by (simp_all add: start_with_def)
  from pick_account_complete [OF this, of 5] show ?thesis
    by (auto simp: start_with_def less_Suc_eq split: option.splits)
qed

lemma pick_open_spec:
  "case pick_open S tu of
     (Some i, tu') \<Rightarrow> i \<in> set (tu_sessions tu) \<and> \<not> is_closed S i
   | (None, tu') \<Rightarrow> \<forall>i \<in> set (tu_sessions tu). is_closed S i"
proof -
  let ?open = "filter (\<lambda>i. \<not> is_closed S i) (tu_sessions tu)"
  have "?open \<noteq> [] \<Longrightarrow> ?open ! (unat (tu_rotate tu) mod length ?open) \<in> set ?open" 
    by (rule nth_mem) (simp del: set_filter)
  then show ?thesis by (auto simp: pick_open_def Let_def filter_empty_conv)
qed

text \<open>
  Picking a session ends: within ten seconds (and a sleep) it returns a session that is open at
  that moment, or it returns none and no session was open at the last look.
\<close>

theorem pick_session_outcome:
  "case pick_session view now of
     (Some i, t) \<Rightarrow> i \<in> set (tu_sessions (snd (view t))) \<and> \<not> is_closed (fst (view t)) i \<and> now \<le> t \<and> t < now + 10200
   | (None, t) \<Rightarrow> ready_count (fst (view t)) (snd (view t)) = 0 \<and> now + 10000 \<le> t \<and> t < now + 10200"
proof -
  have "case pick_until view deadline n of
     (Some i, t) \<Rightarrow> i \<in> set (tu_sessions (snd (view t))) \<and> \<not> is_closed (fst (view t)) i \<and> n \<le> t \<and> t < deadline + 200
   | (None, t) \<Rightarrow> ready_count (fst (view t)) (snd (view t)) = 0 \<and> deadline \<le> t \<and> t < deadline + 200"
    if "n < deadline + 200" for deadline n
    using that
  proof (induction view deadline n rule: pick_until.induct)
    case (1 view deadline n)
    note spec = pick_open_spec [where S = "fst (view n)" and tu = "snd (view n)"]
    show ?case
    proof (cases "fst (pick_open (fst (view n)) (snd (view n)))")
      case (Some i)
      then show ?thesis using spec "1.prems" by (auto simp: pick_until.simps [of view deadline n] split: prod.splits)
    next
      case None
      then have closed: "ready_count (fst (view n)) (snd (view n)) = 0"
        using spec by (auto simp: ready_count_def filter_empty_conv split: prod.splits)
      show ?thesis
      proof (cases "deadline \<le> n")
        case True
        then show ?thesis using None closed "1.prems" by (simp add: pick_until.simps [of view deadline n])
      next
        case False
        then have "pick_until view deadline n = pick_until view deadline (n + 200)"
          using None by (simp add: pick_until.simps [of view deadline n])
        then show ?thesis using "1.IH" [OF None False] False by (auto split: prod.splits option.splits)
      qed
    qed
  qed
  from this [of now "now + PICK_TIMEOUT"] show ?thesis by (simp add: pick_session_def PICK_TIMEOUT_def split: prod.splits option.splits)
qed

text \<open>What the cache of exits promises: the entry that was put last is found.\<close>

definition exit_cache_laws :: "(string \<Rightarrow> exit \<Rightarrow> 'x \<Rightarrow> 'x) \<Rightarrow> (string \<Rightarrow> 'x \<Rightarrow> exit option) \<Rightarrow> bool" where
  "exit_cache_laws put peek \<longleftrightarrow> (\<forall>k e x. peek k (put k e x) = Some e)"

lemma pick_until_open: "pick_until view deadline now = (Some i, t) \<Longrightarrow> fst (pick_open (fst (view t)) (snd (view t))) = Some i"
  by (induction view deadline now rule: pick_until.induct)
    (auto simp: pick_until.simps split: option.splits if_splits)


definition demo_session :: "unit session" where
  "demo_session = \<lparr>se_ip = ''1.2.3.4'', se_protocol = ''OSSH'', se_client = (), se_closed = False\<rparr>"


lemma session_backoff_value: "unat (session_backoff f) = 1000 * 2 ^ min (unat f) 6"
proof -
  have m: "unat (min f 6) = min (unat f) 6" by (simp add: min_def word_le_nat_alt)
  have "(2 :: nat) ^ min (unat f) 6 \<le> 2 ^ 6" by (rule power_increasing) simp_all
  then have small: "(1000 :: nat) * 2 ^ min (unat f) 6 \<le> 64000" by simp
  have "push_bit k (1000 :: u64) = of_nat (1000 * 2 ^ k)" for k by (simp add: push_bit_eq_mult)
  then have v: "unat (push_bit (unat (min f 6)) (1000 :: u64)) = 1000 * 2 ^ min (unat f) 6"
    unfolding m using small by (simp only: unat_of_nat) simp
  then have "push_bit (unat (min f 6)) (1000 :: u64) \<le> 300000" using small by (simp add: word_le_nat_alt)
  then show ?thesis using v by (simp add: session_backoff_def min_def)
qed

text \<open>
  An account that cannot be reached is left alone for a while. After \<open>n\<close> failures in a row, the
  last at time \<open>now\<close>, \<open>pick_account\<close> does not choose it before \<open>now + 2 ^ min n 6\<close> seconds: the
  waiting time doubles up to 64 seconds (so the cap of 300 seconds in the code is never reached).
\<close>

theorem session_backoff_respected:
  assumes "length (tu_not_before tu) = length (tu_accounts tu)" "length (tu_failures tu) = length (tu_accounts tu)"
    "index < length (tu_accounts tu)" "unat (tu_failures tu ! index) + 1 < 2 ^ 64" "now + 64000 < 2 ^ 64"
    "now' < now + 1000 * 2 ^ min (unat (tu_failures tu ! index) + 1) 6"
  shows "fst (pick_account (of_nat now') (connect_failed index (of_nat now) tu)) \<noteq> Some index"
proof
  let ?tu = "connect_failed index (of_nat now) tu" and ?f = "tu_failures tu ! index + 1"
  assume "fst (pick_account (of_nat now') ?tu) = Some index"
  then obtain tu' where p: "pick_account (of_nat now') ?tu = (Some index, tu')" by (metis prod.collapse)
  have "tu_not_before ?tu \<noteq> []" using assms(1,3) by (auto simp: connect_failed_def Let_def)
  from pick_account_facts(3) [OF p refl this] have le: "tu_not_before ?tu ! index \<le> of_nat now'" by simp
  have f: "unat ?f = unat (tu_failures tu ! index) + 1" using assms(4) by (simp add: unat_word_ariths)
  have "(2 :: nat) ^ min (unat ?f) 6 \<le> 2 ^ 6" by (rule power_increasing) simp_all
  then have small: "1000 * 2 ^ min (unat ?f) 6 \<le> (64000 :: nat)" by simp
  have "tu_not_before ?tu ! index = of_nat (now + unat (session_backoff ?f))"
    using assms(1,3) by (simp add: connect_failed_def Let_def)
  then have "unat (tu_not_before ?tu ! index) = now + 1000 * 2 ^ min (unat ?f) 6"
    using small assms(5) unfolding session_backoff_value by (simp only: unat_of_nat) simp
  moreover have "unat (of_nat now' :: u64) = now'"
    using assms(5,6) small f by (simp only: unat_of_nat) simp
  ultimately show False using le assms(6) f by (simp add: word_le_nat_alt)
qed

theorem session_backoff_respected_witness:
  "fst (pick_account (of_nat 2999) (connect_failed 0 (of_nat 1000) (start_with config_default [demo_ssh_account] 1080 ()))) \<noteq> Some 0"
  by (rule session_backoff_respected) (simp_all add: start_with_def)

end
