(* ===== verification/App.thy ===== *)
theory App
  imports Upstream Ssh_Tunnel
begin

text \<open>
  How the program is put together: the provider of SSH exits (\<open>src/proxy/provider.rs\<close>), attaching the
  VPN accounts (\<open>src/vpn/mod.rs\<close>) and \<open>build\<close> (\<open>src/config.rs\<close>), on the pools, regions and forwarders of
  the other theories. The embedded accounts and the local port a tunnel binds are parameters.
  Exits are named by numbers: the VPN accounts first, then the SSH tunnels in the order they start.
\<close>

section \<open>Configuration\<close>

definition TUNNEL_REFRESH_INTERVAL :: nat where [consts_defs]: "TUNNEL_REFRESH_INTERVAL = 600000"
definition STATE_REFRESH_INTERVAL :: nat where [consts_defs]: "STATE_REFRESH_INTERVAL = 2000"
definition TUNNEL_REFRESH_COUNT :: nat where [consts_defs]: "TUNNEL_REFRESH_COUNT = 1"
definition VPN_CONNECT_TIMEOUT :: nat where [consts_defs]: "VPN_CONNECT_TIMEOUT = 20000"
definition VPN_IDLE_TIMEOUT :: nat where [consts_defs]: "VPN_IDLE_TIMEOUT = 300000"

record provider_config =
  pc_state_refresh_interval :: nat
  pc_tunnel_refresh_interval :: nat
  pc_tunnel_refresh_count :: nat
  pc_client_platform :: string

definition provider_config_default :: provider_config where
  "provider_config_default =
     \<lparr>pc_state_refresh_interval = 2000, pc_tunnel_refresh_interval = 600000, pc_tunnel_refresh_count = 1,
      pc_client_platform = []\<rparr>"

definition provider_config_of :: provider_config where
  "provider_config_of =
     \<lparr>pc_state_refresh_interval = STATE_REFRESH_INTERVAL, pc_tunnel_refresh_interval = TUNNEL_REFRESH_INTERVAL,
      pc_tunnel_refresh_count = TUNNEL_REFRESH_COUNT, pc_client_platform = []\<rparr>"

definition vpn_config_of :: vpn_config where
  "vpn_config_of = \<lparr>vc_connect_timeout = VPN_CONNECT_TIMEOUT, vc_idle_timeout = VPN_IDLE_TIMEOUT\<rparr>"

section \<open>The VPN accounts\<close>

text \<open>\<open>Accounts::load\<close>: accounts whose file gives no profile are left out.\<close>

fun accounts_load :: "vpn_config \<Rightarrow> (string \<times> account_file) list \<Rightarrow> vpn_account list" where
  "accounts_load config [] = []"
| "accounts_load config ((ip, file) # files) =
     (case account_new ip file config of
        Inr account \<Rightarrow> account # accounts_load config files
      | Inl _ \<Rightarrow> accounts_load config files)"

text \<open>The first loop of \<open>attach\<close>: a pool per region, in the order of a \<open>BTreeMap\<close>.\<close>

fun attach_pools ::
  "nat \<Rightarrow> vpn_account list \<Rightarrow> (string \<times> pool_addr) list \<Rightarrow> nat store \<Rightarrow> (string \<times> pool_addr) list \<times> nat store" where
  "attach_pools i [] m st = (m, st)"
| "attach_pools i (ac # acs) m st =
     (let (pool, m, st) =
        (case map_of m (ac_region ac) of
           Some pool \<Rightarrow> (pool, m, st)
         | None \<Rightarrow> let (pool, st) = new_pool [] st in (pool, btree_insert (ac_region ac) pool m, st));
          st = (if bridge_ready ac then st\<lparr>st_heap := push_at pool (proxy_for i ac) (st_heap st)\<rparr> else st) in
      attach_pools (Suc i) acs m st)"

text \<open>A region with one variant, entered into the proxy's table.\<close>

definition register ::
  "protocol \<Rightarrow> string \<Rightarrow> pool_addr \<Rightarrow> transport proxy \<Rightarrow> nat store \<Rightarrow> transport proxy \<times> nat store" where
  "register protocol region pool px st =
     (let (entry, st) = region_new region region st;
          (entry, st) = region_add protocol pool (Some (region_transport pool)) entry st in
      add_region entry px st)"

fun attach_regions ::
  "(string \<times> pool_addr) list \<Rightarrow> transport proxy \<Rightarrow> nat store \<Rightarrow> transport proxy \<times> nat store" where
  "attach_regions [] px st = (px, st)"
| "attach_regions ((region, pool) # m) px st =
     (let (px, st) = register Vpn region pool px st in attach_regions m px st)"

definition vpn_attach ::
  "vpn_account list \<Rightarrow> transport proxy \<Rightarrow> nat store \<Rightarrow> (string \<times> pool_addr) list \<times> transport proxy \<times> nat store" where
  "vpn_attach acs px st =
     (let (m, st) = attach_pools 0 acs [] st; (px, st) = attach_regions m px st in (m, px, st))"

section \<open>The SSH provider\<close>

definition provider_new :: "nat store \<Rightarrow> transport proxy \<times> nat store" where
  "provider_new st =
     (let (primaries, st) = new_pool [] st in (proxy_new primaries (Some (default_transport primaries)), st))"

definition ssh_proxy :: "nat \<Rightarrow> string \<Rightarrow> nat pool_proxy" where
  "ssh_proxy i region = \<lparr>pp_key = ''ssh://'' @ region, pp_tunnel = i, pp_priority = 0, pp_protocol = Ssh\<rparr>"

definition provider_add :: "nat \<Rightarrow> string \<Rightarrow> transport proxy \<Rightarrow> nat store \<Rightarrow> transport proxy \<times> nat store" where
  "provider_add i region px st =
     (let (pool, st) = new_pool [ssh_proxy i region] st;
          (px, st) = register Ssh region pool px st in
      (px, st\<lparr>st_heap := push_at (px_default_pool px) (ssh_proxy i region) (st_heap st)\<rparr>))"

text \<open>\<open>start_region\<close>: \<open>bind\<close> is the local listener of the tunnel of a region.\<close>

definition start_region ::
  "ssh_account list \<Rightarrow> (string \<Rightarrow> string + u16) \<Rightarrow> 'x \<Rightarrow> string \<Rightarrow> nat \<Rightarrow> string \<Rightarrow> string + 'x ssh_tunnel" where
  "start_region all bind exits region target_pool client_platform =
     (let cf = config_default\<lparr>cf_region := region, cf_pool_size := of_nat target_pool\<rparr>;
          cf = (if client_platform = [] then cf else cf\<lparr>cf_client_platform := client_platform\<rparr>) in
      case bind region of
        Inl e \<Rightarrow> Inl (ssh_error_text (SshSocket e))
      | Inr port \<Rightarrow> Inr (start_with cf (ssh_parse all region) port exits))"

fun start_regions ::
  "(string \<Rightarrow> nat \<Rightarrow> string + 'x ssh_tunnel) \<Rightarrow> (string \<times> ssh_account list) list \<Rightarrow> (string \<times> 'x ssh_tunnel) list" where
  "start_regions run [] = []"
| "start_regions run ((region, accounts) # groups) =
     (case run region (length accounts) of
        Inr tunnel \<Rightarrow> (region, tunnel) # start_regions run groups
      | Inl _ \<Rightarrow> start_regions run groups)"

fun add_started ::
  "nat \<Rightarrow> (string \<times> 'x ssh_tunnel) list \<Rightarrow> transport proxy \<Rightarrow> nat store \<Rightarrow> transport proxy \<times> nat store" where
  "add_started i [] px st = (px, st)"
| "add_started i ((region, tunnel) # started) px st =
     (let (px, st) = provider_add i region px st in add_started (Suc i) started px st)"

definition provider_start ::
  "ssh_account list \<Rightarrow> (string \<Rightarrow> string + u16) \<Rightarrow> 'x \<Rightarrow> provider_config \<Rightarrow> nat \<Rightarrow> transport proxy \<Rightarrow> nat store \<Rightarrow>
   (string \<times> 'x ssh_tunnel) list \<times> transport proxy \<times> nat store" where
  "provider_start all bind exits pc i px st =
     (let started = start_regions (\<lambda>region n. start_region all bind exits region n (pc_client_platform pc)) (group_by_region all);
          (px, st) = add_started i started px st in
      (started, px, st))"

text \<open>
  A tick of the refresh task of a tunnel: when the time until the next rotation is used up and the pool
  of sessions is full, some sessions are asked to end.
\<close>

definition refresh_tick :: "provider_config \<Rightarrow> nat \<Rightarrow> nat \<times> 'x ssh_tunnel \<Rightarrow> nat \<times> 'x ssh_tunnel" where
  "refresh_tick pc active = (\<lambda>(until_rotation, tu).
     if pc_state_refresh_interval pc < until_rotation then (until_rotation - pc_state_refresh_interval pc, tu)
     else if active < tu_target_pool tu then (pc_tunnel_refresh_interval pc, tu)
     else (pc_tunnel_refresh_interval pc, terminate (pc_tunnel_refresh_count pc) tu))"

text \<open>
  The start of the task: a random number of whole seconds below the interval until the first rotation.
  \<open>draw\<close> is the random number.
\<close>

definition refresh_start :: "provider_config \<Rightarrow> (nat \<Rightarrow> nat) \<Rightarrow> nat" where
  "refresh_start pc draw =
     (let seconds = max (pc_tunnel_refresh_interval pc div 1000) 1 in 1000 * draw seconds)"

section \<open>The whole program\<close>

definition protocol_routes :: "transport proxy \<Rightarrow> nat store \<Rightarrow> transport proxy \<times> nat store" where
  "protocol_routes px st =
     fold (\<lambda>protocol (px, st).
       let (pool, st) = new_pool [] st in (set_protocol_route protocol pool (protocol_transport protocol pool) px, st))
       [Ssh, Vpn] (px, st)"

record 'x app =
  ap_proxy :: "transport proxy"
  ap_store :: "nat store"
  ap_vpn :: "vpn_account list"
  ap_pools :: "(string \<times> pool_addr) list"
  ap_ssh :: "(string \<times> 'x ssh_tunnel) list"

definition build ::
  "(string \<times> account_file) list \<Rightarrow> ssh_account list \<Rightarrow> (string \<Rightarrow> string + u16) \<Rightarrow> 'x \<Rightarrow> 'x app" where
  "build files all bind exits =
     (let (px, st) = provider_new \<lparr>st_heap = Map.empty, st_next = 0\<rparr>;
          vpn = accounts_load vpn_config_of files;
          (pools, px, st) = vpn_attach vpn px st;
          (started, px, st) = provider_start all bind exits provider_config_of (length vpn) px st;
          (px, st) = protocol_routes px st in
      \<lparr>ap_proxy = px, ap_store = st, ap_vpn = vpn, ap_pools = pools, ap_ssh = started\<rparr>)"

section \<open>Allocation and growth\<close>

text \<open>Pools are allocated one after the other, and nothing that is registered is ever taken away again.\<close>

definition alloc_ok :: "'t store \<Rightarrow> bool" where
  "alloc_ok st \<longleftrightarrow> dom (st_heap st) = {..<st_next st}"

definition extends :: "'t store \<Rightarrow> 't store \<Rightarrow> bool" where
  "extends st st' \<longleftrightarrow> st_next st \<le> st_next st' \<and>
     (\<forall>a p. st_heap st a = Some p \<longrightarrow> (\<exists>p'. st_heap st' a = Some p' \<and>
        set (pool_proxies p) \<subseteq> set (pool_proxies p') \<and> set (pool_children p) \<subseteq> set (pool_children p')))"

lemma extends_refl [simp]: "extends st st"
  by (simp add: extends_def)

lemma extends_trans: "extends a b \<Longrightarrow> extends b c \<Longrightarrow> extends a c"
  unfolding extends_def by (meson order_trans)

lemma extends_grows: "extends st st' \<Longrightarrow> grows st st'"
  unfolding extends_def grows_def is_child_def by blast

lemma new_pool_ok:
  assumes "alloc_ok st" "new_pool xs st = (a, st')"
  shows "alloc_ok st'" "extends st st'" "a = st_next st" "st_heap st' a = Some (pool_new xs)" "st_next st' = Suc a"
proof -
  have e: "a = st_next st" "st' = st\<lparr>st_heap := (st_heap st)(st_next st \<mapsto> pool_new xs), st_next := Suc (st_next st)\<rparr>"
    using assms(2) by (auto simp: new_pool_def)
  show "alloc_ok st'" using assms(1) by (auto simp: e alloc_ok_def)
  have "st_heap st (st_next st) = None" using assms(1) by (auto simp: alloc_ok_def)
  then show "extends st st'" by (auto simp: e extends_def)
qed (use assms(2) in \<open>auto simp: new_pool_def\<close>)

lemma add_child_ok:
  "alloc_ok st \<Longrightarrow> alloc_ok (st\<lparr>st_heap := add_child (st_heap st) a c\<rparr>)"
  "extends st (st\<lparr>st_heap := add_child (st_heap st) a c\<rparr>)"
  by (auto simp: alloc_ok_def extends_def add_child_def split: option.splits)

lemma push_at_ok:
  "alloc_ok st \<Longrightarrow> alloc_ok (st\<lparr>st_heap := push_at a x (st_heap st)\<rparr>)"
  "extends st (st\<lparr>st_heap := push_at a x (st_heap st)\<rparr>)"
  by (auto simp: alloc_ok_def extends_def push_at_def push_def split: option.splits)

lemma region_add_alloc:
  assumes "alloc_ok st" "region_add p pool f rg st = (rg', st')"
  shows "alloc_ok st' \<and> extends st st'"
  using assms add_child_ok [of st "rg_merged rg" pool] by (auto simp: region_add_def)

lemma region_pool_alloc:
  assumes "alloc_ok st" "region_pool p rg st = (pool, st')"
  shows "alloc_ok st' \<and> extends st st'"
  using assms new_pool_ok [OF assms(1)] by (auto simp: region_pool_def split: option.splits)

lemma merge_protocols_alloc:
  "\<lbrakk>alloc_ok st; merge_protocols ps rg existing st = (rg', st')\<rbrakk> \<Longrightarrow> alloc_ok st' \<and> extends st st'"
proof (induction ps arbitrary: existing st)
  case (Cons p ps)
  obtain pool st1 e2 st2 where s: "region_pool (Some p) rg st = (pool, st1)"
    "region_add p pool (region_forward (Some p) rg) existing st1 = (e2, st2)" "merge_protocols ps rg e2 st2 = (rg', st')"
    using Cons.prems(2) by (auto split: prod.splits)
  then show ?case
    using region_pool_alloc [OF Cons.prems(1) s(1)] region_add_alloc [OF _ s(2)] Cons.IH [OF _ s(3)] extends_trans by blast
qed auto

lemma add_region_to_alloc:
  "\<lbrakk>alloc_ok st; add_region_to rg regions st = (regions', st')\<rbrakk> \<Longrightarrow> alloc_ok st' \<and> extends st st'"
  by (induction regions arbitrary: regions') (auto split: if_splits prod.splits dest: merge_protocols_alloc)

text \<open>Registering a region keeps the merged pools of all regions that were there.\<close>

lemma add_region_to_merged:
  assumes "\<forall>r \<in> set regions. region_ok st r" "region_ok st rg" "add_region_to rg regions st = (regions', st')"
    and "find (\<lambda>r. eq_ignore_ascii_case (rg_username r) u) regions = Some old"
  shows "\<exists>new. find (\<lambda>r. eq_ignore_ascii_case (rg_username r) u) regions' = Some new \<and> rg_merged new = rg_merged old"
  using assms
proof (induction regions arbitrary: regions')
  case (Cons current regions)
  show ?case
  proof (cases "eq_ignore_ascii_case (rg_username current) (rg_username rg)")
    case True
    obtain e1 where m: "merge_protocols (region_protocols rg) rg current st = (e1, st')" "regions' = e1 # regions"
      using Cons.prems(3) True by (auto split: prod.splits)
    have "rg_merged e1 = rg_merged current" "rg_username e1 = rg_username current"
      using merge_protocols_ok [OF _ _ subset_refl m(1)] Cons.prems(1,2) by (auto simp: region_ok_def)
    then show ?thesis using Cons.prems(4) m(2) by (auto split: if_splits)
  next
    case False
    then show ?thesis using Cons.IH [OF _ Cons.prems(2)] Cons.prems by (auto split: if_splits prod.splits)
  qed
qed simp

section \<open>What registering keeps\<close>

definition app_ok :: "'f proxy \<Rightarrow> 't store \<Rightarrow> bool" where
  "app_ok px st \<longleftrightarrow> alloc_ok st \<and> (\<forall>r \<in> set (px_regions px). region_ok st r) \<and> px_default_pool px < st_next st"

definition serves :: "'f proxy \<Rightarrow> 't store \<Rightarrow> string \<Rightarrow> pool_addr \<Rightarrow> bool" where
  "serves px st region pool \<longleftrightarrow> (\<exists>rg. region_of region px = Some rg \<and> is_child st (rg_merged rg) pool)"

definition app_moves :: "'f proxy \<Rightarrow> 't store \<Rightarrow> 'f proxy \<Rightarrow> 't store \<Rightarrow> bool" where
  "app_moves px st px' st' \<longleftrightarrow> app_ok px' st' \<and> extends st st' \<and> px_default_pool px' = px_default_pool px \<and>
     (\<forall>u rg. region_of u px = Some rg \<longrightarrow> (\<exists>rg'. region_of u px' = Some rg' \<and> rg_merged rg' = rg_merged rg))"

lemma app_moves_refl [simp]: "app_moves px st px st \<longleftrightarrow> app_ok px st"
  by (simp add: app_moves_def)

lemma app_moves_trans: "app_moves a s b t \<Longrightarrow> app_moves b t c u \<Longrightarrow> app_moves a s c u"
  unfolding app_moves_def using extends_trans by (smt (verit, best))

lemma app_moves_serves: "app_moves px st px' st' \<Longrightarrow> serves px st region pool \<Longrightarrow> serves px' st' region pool"
  unfolding app_moves_def serves_def using extends_grows unfolding grows_def by metis

lemma extends_app_ok: "app_ok px st \<Longrightarrow> alloc_ok st' \<Longrightarrow> extends st st' \<Longrightarrow> app_moves px st px st'"
  unfolding app_moves_def app_ok_def
  by (auto intro: grows_region_ok extends_grows) (simp add: extends_def)

lemma register_ok:
  assumes "app_ok px st" "region \<noteq> []" "register protocol region pool px st = (px', st')"
  shows "app_moves px st px' st' \<and> serves px' st' region pool"
proof -
  obtain e1 st1 e2 st2 where s: "region_new region region st = (e1, st1)"
    "region_add protocol pool (Some (region_transport pool)) e1 st1 = (e2, st2)" "add_region e2 px st2 = (px', st')"
    using assms(3) by (auto simp: register_def split: prod.splits)
  obtain a where n: "new_pool [] st = (a, st1)" "e1 = \<lparr>rg_name = region, rg_username = region, rg_variants = [], rg_merged = a\<rparr>"
    using s(1) by (auto simp: region_new_def split: prod.splits)
  have al: "alloc_ok st" using assms(1) by (simp add: app_ok_def)
  note np = new_pool_ok [OF al n(1)]
  have e1: "region_ok st1 e1" using np(4) by (simp add: region_ok_def n(2) region_protocols_def)
  note ra = region_add_ok [OF e1 s(2)] and rb = region_add_alloc [OF np(1) s(2)]
  have name: "rg_username e2 = region" and v: "\<exists>v\<in>set (rg_variants e2). va_pool v = pool"
    using s(2) n(2) by (auto simp: region_add_def)
  have st2: "app_moves px st px st2" using extends_app_ok [OF assms(1)] rb extends_trans [OF np(2)] by blast
  then have old: "\<forall>r \<in> set (px_regions px). region_ok st2 r" by (simp add: app_moves_def app_ok_def)
  obtain regions where r: "add_region_to e2 (px_regions px) st2 = (regions, st')" "px' = px\<lparr>px_regions := regions\<rparr>"
    using s(3) by (auto simp: add_region_def split: prod.splits)
  have fin: "alloc_ok st' \<and> extends st2 st'" using add_region_to_alloc [OF _ r(1)] rb by blast
  note ok = add_region_to_ok [OF old ra(1) r(1)]
  have "app_moves px st2 px' st'"
    using st2 fin ok add_region_to_merged [OF old ra(1) r(1)]
    by (auto simp: app_moves_def app_ok_def r(2) region_of_def extends_def)
  moreover have "serves px' st' region pool"
    using ok v assms(2) by (auto simp: serves_def region_of_def r(2) name)
  ultimately show ?thesis using app_moves_trans [OF st2] by blast
qed

lemma attach_regions_ok:
  "\<lbrakk>app_ok px st; [] \<notin> fst ` set m; attach_regions m px st = (px', st')\<rbrakk> \<Longrightarrow>
   app_moves px st px' st' \<and> (\<forall>(region, pool) \<in> set m. serves px' st' region pool)"
proof (induction m px st rule: attach_regions.induct)
  case (2 region pool m px st)
  obtain px1 st1 where s: "register Vpn region pool px st = (px1, st1)" "attach_regions m px1 st1 = (px', st')"
    using 2(4) by (auto split: prod.splits)
  have one: "app_moves px st px1 st1 \<and> serves px1 st1 region pool" using register_ok [OF 2(2) _ s(1)] 2(3) by auto
  then have "app_moves px1 st1 px' st' \<and> (\<forall>(region, pool) \<in> set m. serves px' st' region pool)"
    using 2(1) [OF s(1) [symmetric] refl] 2(3) s(2) by (auto simp: app_moves_def)
  then show ?case using one app_moves_trans [of px st px1 st1 px' st'] app_moves_serves [of px1 st1 px' st' region pool] by auto
qed auto

lemma attach_pools_ok:
  "\<lbrakk>alloc_ok st; attach_pools i acs m st = (m', st'); \<forall>(r, a) \<in> set m. a < st_next st\<rbrakk> \<Longrightarrow>
   alloc_ok st' \<and> extends st st' \<and> (\<forall>(r, a) \<in> set m'. a < st_next st') \<and> dom (map_of m') = dom (map_of m) \<union> ac_region ` set acs"
proof (induction i acs m st rule: attach_pools.induct)
  case (2 i ac acs m st)
  define z where "z = (case map_of m (ac_region ac) of
           Some pool \<Rightarrow> (pool, m, st)
         | None \<Rightarrow> let (pool, st) = new_pool [] st in (pool, btree_insert (ac_region ac) pool m, st))"
  obtain pool m1 st1 where "z = (pool, m1, st1)" by (cases z) auto
  note one = this [unfolded z_def]
  let ?st = "if bridge_ready ac then st1\<lparr>st_heap := push_at pool (proxy_for i ac) (st_heap st1)\<rparr> else st1"
  have new: "dom (map_of (btree_insert k v m)) = insert k (dom (map_of m))" if "map_of m k = None"
    for k and v :: nat and m
    using btree_insert_fresh(1) [OF that, of v] by (auto simp: dom_def)
  have a: "alloc_ok st1 \<and> extends st st1 \<and> (\<forall>(r, a) \<in> set m1. a < st_next st1) \<and>
      dom (map_of m1) = insert (ac_region ac) (dom (map_of m))"
  proof (cases "map_of m (ac_region ac)")
    case None
    obtain b st2 where n: "new_pool [] st = (b, st2)" by fastforce
    then have e: "st1 = st2" "m1 = btree_insert (ac_region ac) b m" using one None by auto
    note np = new_pool_ok [OF 2(2) n]
    have "\<forall>(r, a) \<in> set m1. a < st_next st1" using 2(4) np(3,5) by (auto simp: e btree_insert_fresh(2) [OF None])
    then show ?thesis using np(1,2) new [OF None] by (simp add: e)
  qed (use one 2(2,4) in auto)
  then have b: "alloc_ok ?st \<and> extends st ?st \<and> (\<forall>(r, a) \<in> set m1. a < st_next ?st)"
    using push_at_ok [of st1 pool "proxy_for i ac"] extends_trans by auto
  have "attach_pools (Suc i) acs m1 ?st = (m', st')" using 2(3) one by (simp add: Let_def)
  from 2(1) [OF one [symmetric] refl refl refl _ this] b
  have "alloc_ok st' \<and> extends ?st st' \<and> (\<forall>(r, a) \<in> set m'. a < st_next st') \<and>
      dom (map_of m') = dom (map_of m1) \<union> ac_region ` set acs" by blast
  with a b extends_trans show ?case by auto
qed auto

definition has_exit :: "'t store \<Rightarrow> pool_addr \<Rightarrow> string \<Rightarrow> bool" where
  "has_exit st a key \<longleftrightarrow> (\<exists>p. st_heap st a = Some p \<and> key \<in> pp_key ` set (pool_proxies p))"

lemma extends_exit: "extends st st' \<Longrightarrow> has_exit st a key \<Longrightarrow> has_exit st' a key"
  unfolding extends_def has_exit_def by blast

lemma push_has_exit:
  assumes "st_heap st a = Some p"
  shows "has_exit (st\<lparr>st_heap := push_at a x (st_heap st)\<rparr>) a (pp_key x)"
  using assms by (cases "pp_key x \<in> pp_key ` set (pool_proxies p)") (simp_all add: has_exit_def push_at_def push_def)

lemma ssh_proxy_key [simp]: "pp_key (ssh_proxy i region) = ''ssh://'' @ region"
  by (simp add: ssh_proxy_def)

text \<open>An SSH exit is in its region's pool, which the region serves, and in the default pool.\<close>

definition ssh_served :: "'f proxy \<Rightarrow> 't store \<Rightarrow> string \<Rightarrow> bool" where
  "ssh_served px st region \<longleftrightarrow>
     (\<exists>pool. serves px st region pool \<and> has_exit st pool (''ssh://'' @ region)) \<and>
     has_exit st (px_default_pool px) (''ssh://'' @ region)"

lemma app_moves_ssh: "app_moves px st px' st' \<Longrightarrow> ssh_served px st region \<Longrightarrow> ssh_served px' st' region"
  unfolding ssh_served_def
  using app_moves_serves [of px st px' st' region] extends_exit [of st st'] by (auto simp: app_moves_def)

lemma provider_add_ok:
  assumes "app_ok px st" "region \<noteq> []" "provider_add i region px st = (px', st')"
  shows "app_moves px st px' st' \<and> ssh_served px' st' region"
proof -
  obtain pool st1 st2 where s: "new_pool [ssh_proxy i region] st = (pool, st1)" "register Ssh region pool px st1 = (px', st2)"
    "st' = st2\<lparr>st_heap := push_at (px_default_pool px') (ssh_proxy i region) (st_heap st2)\<rparr>"
    using assms(3) by (auto simp: provider_add_def split: prod.splits)
  have "alloc_ok st" using assms(1) by (simp add: app_ok_def)
  note np = new_pool_ok [OF this s(1)]
  have one: "app_moves px st px st1" by (rule extends_app_ok [OF assms(1) np(1,2)])
  then have "app_ok px st1" by (simp add: app_moves_def)
  note two = register_ok [OF this assms(2) s(2)]
  have three: "app_moves px' st2 px' st'"
    unfolding s(3) by (rule extends_app_ok) (use two push_at_ok in \<open>auto simp: app_moves_def app_ok_def\<close>)
  have "has_exit st1 pool (''ssh://'' @ region)" using np(4) by (simp add: has_exit_def pool_new_def)
  moreover have "extends st1 st'" using two three extends_trans [of st1 st2 st'] by (simp add: app_moves_def)
  ultimately have "has_exit st' pool (''ssh://'' @ region)" using extends_exit by blast
  moreover have "px_default_pool px' \<in> dom (st_heap st2)"
    using two by (simp add: app_moves_def app_ok_def alloc_ok_def)
  then obtain p where "st_heap st2 (px_default_pool px') = Some p" by blast
  then have "has_exit st' (px_default_pool px') (''ssh://'' @ region)"
    using push_has_exit [of st2 "px_default_pool px'" p "ssh_proxy i region"] s(3) by simp
  moreover have "serves px' st' region pool" using two three app_moves_serves by blast
  moreover have "app_moves px st px' st'"
    using app_moves_trans [OF app_moves_trans [OF one] three] two by blast
  ultimately show ?thesis unfolding ssh_served_def by blast
qed

lemma add_started_ok:
  "\<lbrakk>app_ok px st; [] \<notin> fst ` set started; add_started i started px st = (px', st')\<rbrakk> \<Longrightarrow>
   app_moves px st px' st' \<and> (\<forall>(region, tu) \<in> set started. ssh_served px' st' region)"
proof (induction i started px st rule: add_started.induct)
  case (2 i region tu started px st)
  obtain px1 st1 where s: "provider_add i region px st = (px1, st1)" "add_started (Suc i) started px1 st1 = (px', st')"
    using 2(4) by (auto split: prod.splits)
  have one: "app_moves px st px1 st1 \<and> ssh_served px1 st1 region" using provider_add_ok [OF 2(2) _ s(1)] 2(3) by auto
  then have "app_moves px1 st1 px' st' \<and> (\<forall>(region, tu) \<in> set started. ssh_served px' st' region)"
    using 2(1) [OF s(1) [symmetric] refl] 2(3) s(2) by (auto simp: app_moves_def)
  then show ?case using one app_moves_trans [of px st px1 st1 px' st'] app_moves_ssh [of px1 st1 px' st' region] by auto
qed auto

lemma accounts_load_region: "ac \<in> set (accounts_load config files) \<Longrightarrow> ac_region ac \<noteq> []"
  by (induction config files rule: accounts_load.induct)
    (auto simp: account_new_def split: sum.splits if_splits)

lemma start_regions_member:
  "(region, tu) \<in> set (start_regions run groups) \<Longrightarrow>
   \<exists>accounts. (region, accounts) \<in> set groups \<and> run region (length accounts) = Inr tu"
  by (induction run groups rule: start_regions.induct) (auto split: sum.splits)

lemma group_member:
  assumes "(region, accounts) \<in> set (group_by_region all)"
  shows "region \<noteq> [] \<and> accounts = filter (\<lambda>a. sa_region a = region) all \<and> accounts \<noteq> []"
proof -
  have "distinct (map fst (group_by_region all))"
    using group_by_region_exact [of all] by (simp add: grouped_def btree_distinct)
  then have "map_of (group_by_region all) region = Some accounts" using assms by simp
  moreover have "map_of (group_by_region all) region =
      (let as = filter (\<lambda>a. sa_region a = region) all in if region = [] \<or> as = [] then None else Some as)"
    using group_by_region_exact [of all] by (simp add: grouped_def)
  ultimately show ?thesis by (auto simp: Let_def split: if_splits)
qed

lemma started_tunnel:
  assumes "(region, tu) \<in> set (start_regions (\<lambda>r n. start_region all bind exits r n platform) (group_by_region all))"
  shows "region \<noteq> [] \<and> tu_region tu = region \<and> tu_accounts tu = filter (\<lambda>a. sa_region a = region) all \<and> tu_accounts tu \<noteq> []"
proof -
  obtain accounts where a: "(region, accounts) \<in> set (group_by_region all)"
    "start_region all bind exits region (length accounts) platform = Inr tu"
    using start_regions_member [OF assms] by blast
  have "region \<noteq> []" "filter (\<lambda>a. sa_region a = region) all \<noteq> []" using group_member [OF a(1)] by auto
  then show ?thesis using a(2)
    by (auto simp: start_region_def start_with_def ssh_parse_def Let_def split: sum.splits if_splits)
qed

lemma find_filter_skip:
  "find (\<lambda>(known, _). known = p) (filter (\<lambda>x. (case x of (known, _) \<Rightarrow> known \<noteq> q) \<and> (case x of (known, _) \<Rightarrow> known \<noteq> r)) xs @ ys) =
   (if p = q \<or> p = r then find (\<lambda>(known, _). known = p) ys
    else find (\<lambda>(known, _). known = p) (filter (\<lambda>x. (case x of (known, _) \<Rightarrow> known \<noteq> q) \<and> (case x of (known, _) \<Rightarrow> known \<noteq> r)) xs @ ys))"
  by (induction xs) auto

lemma protocol_routes_ok:
  assumes "app_ok px st" "protocol_routes px st = (px', st')"
  shows "app_moves px st px' st' \<and> (\<exists>a. a \<ge> st_next st \<and> st_heap st' a = Some (pool_new []) \<and>
     find (\<lambda>(known, _). known = p) (px_protocol_forwards px') = Some (p, protocol_transport p a))"
proof -
  obtain a st1 b st2 where s: "new_pool [] st = (a, st1)" "new_pool [] st1 = (b, st2)" by fastforce
  have e: "st' = st2" "px' = set_protocol_route Vpn b (protocol_transport Vpn b) (set_protocol_route Ssh a (protocol_transport Ssh a) px)"
    using assms(2) s by (simp_all add: protocol_routes_def)
  have al: "alloc_ok st" using assms(1) by (simp add: app_ok_def)
  note n1 = new_pool_ok [OF al s(1)] and n2 = new_pool_ok [OF new_pool_ok(1) [OF al s(1)] s(2)]
  have "app_moves px st px st2" using extends_app_ok [OF assms(1) n2(1) extends_trans [OF n1(2) n2(2)]] .
  then have "app_moves px st px' st'" by (simp add: e set_protocol_route_def app_moves_def app_ok_def region_of_def)
  moreover have "st_heap st2 a = Some (pool_new [])" using s n1(4) by (auto simp: new_pool_def)
  moreover have "find (\<lambda>(known, _). known = Ssh) (px_protocol_forwards px') = Some (Ssh, protocol_transport Ssh a)"
    "find (\<lambda>(known, _). known = Vpn) (px_protocol_forwards px') = Some (Vpn, protocol_transport Vpn b)"
    by (auto simp: e set_protocol_route_def find_filter_skip)
  ultimately show ?thesis using n1(3,5) n2(3,4)
    by (cases p) (auto simp: e(1) intro: exI [of _ a] exI [of _ b])
qed

section \<open>The program that is built\<close>

lemma provider_new_ok:
  "provider_new \<lparr>st_heap = Map.empty, st_next = 0\<rparr> = (px, st) \<Longrightarrow> app_ok px st"
  by (auto simp: provider_new_def new_pool_def proxy_new_def app_ok_def alloc_ok_def split: if_splits)

lemma vpn_attach_ok:
  assumes "app_ok px st" "vpn_attach acs px st = (m, px', st')" "\<forall>ac \<in> set acs. ac_region ac \<noteq> []"
  shows "app_moves px st px' st' \<and> (\<forall>(r, a) \<in> set m. a < st_next st') \<and>
     (\<forall>ac \<in> set acs. \<exists>pool. map_of m (ac_region ac) = Some pool \<and> serves px' st' (ac_region ac) pool)"
proof -
  obtain st1 where s: "attach_pools 0 acs [] st = (m, st1)" "attach_regions m px st1 = (px', st')"
    using assms(2) by (auto simp: vpn_attach_def split: prod.splits)
  have "alloc_ok st" using assms(1) by (simp add: app_ok_def)
  from attach_pools_ok [OF this s(1)] have p: "alloc_ok st1" "extends st st1" "\<forall>(r, a) \<in> set m. a < st_next st1"
    "dom (map_of m) = ac_region ` set acs" by auto
  have one: "app_moves px st px st1" by (rule extends_app_ok [OF assms(1) p(1,2)])
  have "[] \<notin> fst ` set m" using p(4) assms(3) by (auto simp: dom_map_of_conv_image_fst)
  with one have two: "app_moves px st1 px' st' \<and> (\<forall>(region, pool) \<in> set m. serves px' st' region pool)"
    using attach_regions_ok [OF _ _ s(2)] by (simp add: app_moves_def)
  have "\<exists>pool. map_of m (ac_region ac) = Some pool \<and> serves px' st' (ac_region ac) pool" if "ac \<in> set acs" for ac
  proof -
    have "ac_region ac \<in> dom (map_of m)" using p(4) that by simp
    then show ?thesis using two map_of_SomeD by fastforce
  qed
  moreover have "\<forall>(r, a) \<in> set m. a < st_next st'" using p(3) two by (auto simp: app_moves_def extends_def)
  ultimately show ?thesis using one two app_moves_trans by blast
qed

lemma build_ok:
  assumes "app = build files all bind exits"
  obtains px st px' st' where "app_ok px st" "ap_store app = st'" "ap_proxy app = px'" "protocol_routes px st = (px', st')"
    "\<forall>(r, a) \<in> set (ap_pools app). a < st_next st"
    "\<forall>ac \<in> set (ap_vpn app). \<exists>pool. map_of (ap_pools app) (ac_region ac) = Some pool \<and> serves px st (ac_region ac) pool"
    "\<forall>(region, tu) \<in> set (ap_ssh app). ssh_served px st region"
    "ap_ssh app = start_regions (\<lambda>r n. start_region all bind exits r n []) (group_by_region all)"
proof -
  let ?vpn = "accounts_load vpn_config_of files"
  let ?started = "start_regions (\<lambda>r n. start_region all bind exits r n []) (group_by_region all)"
  obtain px0 st0 m px1 st1 px2 st2 px' st' where s: "provider_new \<lparr>st_heap = Map.empty, st_next = 0\<rparr> = (px0, st0)"
    "vpn_attach ?vpn px0 st0 = (m, px1, st1)" "add_started (length ?vpn) ?started px1 st1 = (px2, st2)"
    "protocol_routes px2 st2 = (px', st')"
    by (metis prod_cases3 prod.exhaust)
  have app: "app = \<lparr>ap_proxy = px', ap_store = st', ap_vpn = ?vpn, ap_pools = m, ap_ssh = ?started\<rparr>"
    using assms s by (simp add: build_def provider_start_def provider_config_of_def)
  have a: "app_moves px0 st0 px1 st1" "\<forall>(r, a) \<in> set m. a < st_next st1"
    "\<forall>ac \<in> set ?vpn. \<exists>pool. map_of m (ac_region ac) = Some pool \<and> serves px1 st1 (ac_region ac) pool"
    using vpn_attach_ok [OF provider_new_ok [OF s(1)] s(2)] accounts_load_region by blast+
  have "[] \<notin> fst ` set ?started" using started_tunnel by fastforce
  with a(1) have b: "app_moves px1 st1 px2 st2 \<and> (\<forall>(region, tu) \<in> set ?started. ssh_served px2 st2 region)"
    using add_started_ok [OF _ _ s(3)] by (simp add: app_moves_def)
  have "app_ok px2 st2" using b by (simp add: app_moves_def)
  moreover have "\<forall>(r, a) \<in> set m. a < st_next st2" using a(2) b by (auto simp: app_moves_def extends_def)
  moreover have "\<forall>ac \<in> set ?vpn. \<exists>pool. map_of m (ac_region ac) = Some pool \<and> serves px2 st2 (ac_region ac) pool"
    using a(3) app_moves_serves b by blast
  ultimately show thesis by (intro that [of px2 st2]) (use app b s(4) in auto)
qed

text \<open>
  C11: in the program that is built every exit can be reached. The region of every VPN account is served
  from a merged pool that has the account's pool as a child (the pool its supervisor fills); every SSH
  region that starts gets exactly its accounts, at least one, and its exit is served for the region and
  by the default pool.
\<close>
theorem build_serves_every_region:
  "let app = build files all bind exits in
   list_all (\<lambda>ac. \<exists>pool. map_of (ap_pools app) (ac_region ac) = Some pool \<and>
       serves (ap_proxy app) (ap_store app) (ac_region ac) pool) (ap_vpn app) \<and>
   list_all (\<lambda>(region, tu). tu_region tu = region \<and> tu_accounts tu = filter (\<lambda>a. sa_region a = region) all \<and>
       tu_accounts tu \<noteq> [] \<and> ssh_served (ap_proxy app) (ap_store app) region) (ap_ssh app)"
proof -
  define app where "app = build files all bind exits"
  obtain px st px' st' where b: "app_ok px st" "ap_store app = st'" "ap_proxy app = px'" "protocol_routes px st = (px', st')"
    "\<forall>(r, a) \<in> set (ap_pools app). a < st_next st"
    "\<forall>ac \<in> set (ap_vpn app). \<exists>pool. map_of (ap_pools app) (ac_region ac) = Some pool \<and> serves px st (ac_region ac) pool"
    "\<forall>(region, tu) \<in> set (ap_ssh app). ssh_served px st region"
    "ap_ssh app = start_regions (\<lambda>r n. start_region all bind exits r n []) (group_by_region all)"
    by (rule build_ok [OF app_def])
  have m: "app_moves px st px' st'" using protocol_routes_ok [OF b(1,4)] by blast
  then have "\<forall>ac \<in> set (ap_vpn app). \<exists>pool. map_of (ap_pools app) (ac_region ac) = Some pool \<and> serves px' st' (ac_region ac) pool"
    using b(6) app_moves_serves by blast
  moreover have "\<forall>(region, tu) \<in> set (ap_ssh app). ssh_served px' st' region" using b(7) m app_moves_ssh by blast
  moreover have "tu_region tu = region \<and> tu_accounts tu = filter (\<lambda>a. sa_region a = region) all \<and> tu_accounts tu \<noteq> []"
    if "(region, tu) \<in> set (ap_ssh app)" for region tu
    using started_tunnel [OF that [unfolded b(8)]] by blast
  ultimately show ?thesis
    unfolding app_def [symmetric] Let_def list_all_iff b(2,3) by blast
qed

text \<open>The supervisor touches only the pools of the VPN regions.\<close>

lemma supervise_round_untouched: "a \<notin> ran pools \<Longrightarrow> supervise_round pools i acs h a = h a"
proof (induction acs arbitrary: i h)
  case (Cons ac acs)
  have "supervise_account pools i ac h a = h a"
    using Cons.prems by (auto simp: supervise_account_def push_at_def remove_at_def ran_def split: option.splits)
  then show ?case using Cons by simp
qed simp

lemma supervise_rounds_other:
  "a \<notin> ran pools \<Longrightarrow> fold (\<lambda>acs h. supervise_round pools 0 acs h) rounds h a = h a"
  by (induction rounds arbitrary: h) (simp_all add: supervise_round_untouched)

lemma empty_pool_request:
  assumes "uw_heap uw (tr_pool tr) = Some (pool_new [])" "ag_depth A \<noteq> 0"
  shows "transport_request A tr og uw = Some (Inl NoUpstream, uw)"
proof -
  obtain n where n: "ag_depth A = Suc n" using assms(2) not0_implies_Suc by blast
  have "filtered (ag_depth A) (uw_heap uw) (tr_pool tr) p = Some ([], uw_heap uw)" for p
    using assms(1) by (simp add: n pool_new_def pool_local_def)
  then have ask: "ask_pool A tr (uw_heap uw) = Some ([], uw_heap uw)"
    by (simp add: ask_pool_def candidates_def candidates_for_def split: option.split)
  have "attempts_for (og_method og) \<noteq> 0" by (simp add: attempts_for_def MAX_ATTEMPTS_def)
  then obtain k where "attempts_for (og_method og) = Suc k" using not0_implies_Suc by blast
  then show ?thesis
    by (simp add: transport_request_def ready_candidate_def ready_until.simps [of A tr _ _ uw] READY_TIMEOUT_def ask)
qed

text \<open>
  C38: a request that names a protocol and no known region can never be served. In the program that is
  built, whatever rounds the supervisor has run and whatever the state of the accounts, its forwarder
  finds no exit and answers without sending anything, because the pools made for the two protocol
  routes are never filled.
\<close>
theorem protocol_routes_have_no_exits:
  assumes "app = build files all bind exits" "region_of region (ap_proxy app) = None" "ag_depth A \<noteq> 0"
    and "uw_heap uw = fold (\<lambda>acs h. supervise_round (map_of (ap_pools app)) 0 acs h) rounds (st_heap (ap_store app))"
  shows "\<exists>tr. forward_for region (Some p) (ap_proxy app) = Some tr \<and>
    transport_request A tr og uw = Some (Inl NoUpstream, uw)"
proof -
  obtain px st px' st' where b: "app_ok px st" "ap_store app = st'" "ap_proxy app = px'" "protocol_routes px st = (px', st')"
    "\<forall>(r, a) \<in> set (ap_pools app). a < st_next st"
    "\<forall>ac \<in> set (ap_vpn app). \<exists>pool. map_of (ap_pools app) (ac_region ac) = Some pool \<and> serves px st (ac_region ac) pool"
    "\<forall>(region, tu) \<in> set (ap_ssh app). ssh_served px st region"
    "ap_ssh app = start_regions (\<lambda>r n. start_region all bind exits r n []) (group_by_region all)"
    by (rule build_ok [OF assms(1)])
  obtain a where a: "st_next st \<le> a" "st_heap st' a = Some (pool_new [])"
    "find (\<lambda>(known, _). known = p) (px_protocol_forwards px') = Some (p, protocol_transport p a)"
    using protocol_routes_ok [OF b(1,4), of p] by blast
  have "a \<notin> ran (map_of (ap_pools app))"
    using b(5) a(1) by (fastforce simp: ran_def dest: map_of_SomeD)
  then have "uw_heap uw a = Some (pool_new [])" using assms(4) a(2) b(2) by (simp add: supervise_rounds_other)
  then have "transport_request A (protocol_transport p a) og uw = Some (Inl NoUpstream, uw)"
    by (intro empty_pool_request assms(3)) (simp add: protocol_transport_def)
  moreover have "forward_for region (Some p) (ap_proxy app) = Some (protocol_transport p a)"
    using assms(2) a(3) b(3) by (simp add: forward_for_def)
  ultimately show ?thesis by blast
qed

text \<open>The refresh task over a number of ticks, with the sessions that are active at each of them.\<close>

fun refresh_ticks :: "provider_config \<Rightarrow> nat list \<Rightarrow> nat \<times> 'x ssh_tunnel \<Rightarrow> nat \<times> 'x ssh_tunnel" where
  "refresh_ticks pc [] s = s"
| "refresh_ticks pc (active # actives) s = refresh_ticks pc actives (refresh_tick pc active s)"

lemma refresh_waits:
  "pc_state_refresh_interval pc = d \<Longrightarrow> length actives * d < r \<Longrightarrow>
   refresh_ticks pc actives (r, tu) = (r - length actives * d, tu)"
proof (induction actives arbitrary: r)
  case (Cons active actives)
  then have "d < r" by (auto intro: le_less_trans [of d "d + length actives * d"])
  then show ?case using Cons by (simp add: refresh_tick_def algebra_simps)
qed simp

text \<open>
  With the program's configuration a tunnel asks for a rotation of its sessions exactly once in 300
  ticks of two seconds: none of the first 299 does anything, and the 300th ends one session if the pool
  is full and none otherwise; the count then starts again.
\<close>
theorem refresh_every_ten_minutes:
  assumes "length actives = 299"
  shows "refresh_ticks provider_config_of actives (TUNNEL_REFRESH_INTERVAL, tu) = (STATE_REFRESH_INTERVAL, tu) \<and>
    refresh_ticks provider_config_of (actives @ [active]) (TUNNEL_REFRESH_INTERVAL, tu) =
      (TUNNEL_REFRESH_INTERVAL, if active < tu_target_pool tu then tu else terminate 1 tu)"
proof -
  have snoc: "refresh_ticks pc (xs @ [x]) s = refresh_tick pc x (refresh_ticks pc xs s)" for pc xs x and s :: "nat \<times> 'a ssh_tunnel"
    by (induction xs arbitrary: s) auto
  have "refresh_ticks provider_config_of actives (TUNNEL_REFRESH_INTERVAL, tu) = (STATE_REFRESH_INTERVAL, tu)"
    using refresh_waits [of provider_config_of 2000 actives TUNNEL_REFRESH_INTERVAL tu] assms
    by (simp add: provider_config_of_def consts_defs)
  then show ?thesis by (simp add: snoc refresh_tick_def provider_config_of_def consts_defs)
qed

theorem refresh_every_ten_minutes_witness:
  "refresh_ticks provider_config_of (replicate 299 3 @ [3]) (TUNNEL_REFRESH_INTERVAL, start_with config_default [] 1080 ()) =
   (TUNNEL_REFRESH_INTERVAL, terminate 1 (start_with config_default [] 1080 ()))"
  using refresh_every_ten_minutes [of "replicate 299 3" "start_with config_default [] 1080 ()" 3]
  by (simp add: start_with_def config_default_def)

text \<open>
  The first rotation of a tunnel: with a draw of \<open>r\<close> seconds below 600, nothing happens before tick
  \<open>\<lceil>r / 2\<rceil>\<close> (the first one for \<open>r\<close> = 0), which is one of the first 300, and there the decision is taken.
\<close>

theorem first_refresh_within_interval:
  assumes "draw 600 < 600" "length actives = (draw 600 - 1) div 2"
  shows "length actives < 300 \<and>
    (\<exists>waiting \<le> 2000. refresh_ticks provider_config_of actives (refresh_start provider_config_of draw, tu) = (waiting, tu)) \<and>
    refresh_ticks provider_config_of (actives @ [active]) (refresh_start provider_config_of draw, tu) =
      (TUNNEL_REFRESH_INTERVAL, if active < tu_target_pool tu then tu else terminate 1 tu)"
proof -
  have start: "refresh_start provider_config_of draw = 1000 * draw 600"
    by (simp add: refresh_start_def provider_config_of_def consts_defs)
  have n: "2 * length actives < draw 600 \<or> (draw 600 = 0 \<and> actives = [])" "draw 600 \<le> 2 * length actives + 2"
    using assms(2) by auto
  have "refresh_ticks provider_config_of actives (1000 * draw 600, tu) = (1000 * draw 600 - length actives * 2000, tu)"
    using n(1) refresh_waits [of provider_config_of 2000 actives "1000 * draw 600" tu]
    by (auto simp: provider_config_of_def consts_defs)
  moreover have "1000 * draw 600 - length actives * 2000 \<le> 2000" using n(2) by simp
  moreover have "refresh_ticks pc (xs @ [x]) s = refresh_tick pc x (refresh_ticks pc xs s)" for pc xs x and s :: "nat \<times> 'a ssh_tunnel"
    by (induction xs arbitrary: s) auto
  ultimately show ?thesis using assms start by (simp add: refresh_tick_def provider_config_of_def consts_defs)
qed

theorem first_refresh_within_interval_witness:
  "refresh_ticks provider_config_of [3, 3, 3] (refresh_start provider_config_of (\<lambda>n. 5), start_with config_default [] 1080 ()) =
   (TUNNEL_REFRESH_INTERVAL, terminate 1 (start_with config_default [] 1080 ()))"
  using first_refresh_within_interval [of "\<lambda>n. 5" "[3, 3]" "start_with config_default [] 1080 ()" 3]
  by (simp add: start_with_def config_default_def)

lemma provider_config_is_default: "provider_config_of = provider_config_default"
  by (simp add: provider_config_of_def provider_config_default_def consts_defs)

text \<open>A program with one SSH account.\<close>

definition demo_app :: "unit app" where
  "demo_app = build [] [demo_ssh_account] (\<lambda>_. Inr 1080) ()"

theorem protocol_routes_have_no_exits_witness:
  "length (ap_ssh demo_app) = 1 \<and>
   (\<exists>tr. forward_for [] (Some Ssh) (ap_proxy demo_app) = Some tr \<and>
      transport_request demo_agent tr \<lparr>og_method = ''GET'', og_uri = ''http://a.io/'', og_headers = [], og_group = [], og_body = []\<rparr>
        (demo_upworld\<lparr>uw_heap := st_heap (ap_store demo_app)\<rparr>) =
      Some (Inl NoUpstream, demo_upworld\<lparr>uw_heap := st_heap (ap_store demo_app)\<rparr>))"
proof -
  have "length (ap_ssh demo_app) = 1"
    by (simp add: demo_app_def build_def provider_start_def group_by_region_def push_entry_def start_region_def demo_ssh_account_def
        Let_def case_prod_beta)
  moreover have "region_of [] (ap_proxy demo_app) = None" by (simp add: region_of_def)
  from protocol_routes_have_no_exits [OF demo_app_def this, of demo_agent "demo_upworld\<lparr>uw_heap := st_heap (ap_store demo_app)\<rparr>" "[]" Ssh
      "\<lparr>og_method = ''GET'', og_uri = ''http://a.io/'', og_headers = [], og_group = [], og_body = []\<rparr>"]
  have "\<exists>tr. forward_for [] (Some Ssh) (ap_proxy demo_app) = Some tr \<and>
      transport_request demo_agent tr \<lparr>og_method = ''GET'', og_uri = ''http://a.io/'', og_headers = [], og_group = [], og_body = []\<rparr>
        (demo_upworld\<lparr>uw_heap := st_heap (ap_store demo_app)\<rparr>) =
      Some (Inl NoUpstream, demo_upworld\<lparr>uw_heap := st_heap (ap_store demo_app)\<rparr>)"
    by (simp add: demo_agent_def)
  ultimately show ?thesis by blast
qed

end
