(* ===== verification/App_Routes.thy ===== *)
theory App_Routes
  imports App
begin

text \<open>
  Which exits stand behind which route of the program that \<open>build\<close> (\<open>src/config.rs\<close>) puts together: the
  pools of the regions are leaves that hold the exits of one protocol and one region, whatever requests
  and rounds of the supervisor have happened since.
\<close>

section \<open>The exits of a pool\<close>

text \<open>All proxies of the pools below \<open>a\<close> are in \<open>X\<close>.\<close>

definition within :: "'t heap \<Rightarrow> 't pool_proxy set \<Rightarrow> pool_addr \<Rightarrow> bool" where
  "within h X a \<longleftrightarrow> (\<forall>b self. (a, b) \<in> (pool_edges h)\<^sup>* \<longrightarrow> h b = Some self \<longrightarrow> set (pool_proxies self) \<subseteq> X)"

lemma within_self: "within h X a \<Longrightarrow> h a = Some self \<Longrightarrow> set (pool_proxies self) \<subseteq> X"
  unfolding within_def by blast

lemma within_child: "within h X a \<Longrightarrow> h a = Some self \<Longrightarrow> c \<in> set (pool_children self) \<Longrightarrow> within h X c"
  unfolding within_def by (metis (mono_tags, lifting) converse_rtrancl_into_rtrancl case_prodI mem_Collect_eq pool_edges_def)

lemma withinI:
  assumes "\<And>self. h a = Some self \<Longrightarrow> set (pool_proxies self) \<subseteq> X \<and> (\<forall>c \<in> set (pool_children self). within h X c)"
  shows "within h X a"
  unfolding within_def
proof (intro allI impI)
  fix b p
  assume b: "(a, b) \<in> (pool_edges h)\<^sup>*" "h b = Some p"
  from b(1) show "set (pool_proxies p) \<subseteq> X"
  proof (cases rule: converse_rtranclE)
    case base
    then show ?thesis using assms b(2) by blast
  next
    case (step c)
    then obtain self where "h a = Some self" "c \<in> set (pool_children self)" by (auto simp: pool_edges_def)
    then have "within h X c" using assms by blast
    then show ?thesis using step(2) b(2) unfolding within_def by blast
  qed
qed

lemma within_mono: "within h X a \<Longrightarrow> X \<subseteq> Y \<Longrightarrow> within h Y a"
  unfolding within_def by blast

lemma within_shape:
  assumes "same_shape h h'" "within h X a"
  shows "within h' X a"
proof -
  have "pool_edges h' \<subseteq> pool_edges h"
    using same_shape_at [OF same_shape_sym [OF assms(1)]] by (fastforce simp: pool_edges_def)
  then have "(a, b) \<in> (pool_edges h')\<^sup>* \<Longrightarrow> (a, b) \<in> (pool_edges h)\<^sup>*" for b by (meson in_mono rtrancl_mono)
  then show ?thesis
    using assms(2) same_shape_at [OF same_shape_sym [OF assms(1)]] unfolding within_def by metis
qed

lemma within_keys: "within h X a \<Longrightarrow> pool_keys h a pr \<subseteq> pp_key ` X"
  unfolding within_def pool_keys_def pool_local_def by (fastforce simp: to_candidate_def)

lemma within_local: "within h X a \<Longrightarrow> h a = Some self \<Longrightarrow> set (pool_local self pr) \<subseteq> to_candidate ` X"
  using within_self by (fastforce simp: pool_local_def)

lemma filtered_within:
  "filtered n h a pr = Some (res, h') \<Longrightarrow> within h X a \<Longrightarrow> set res \<subseteq> to_candidate ` X"
  "filtered_children n h cs pr ready = Some (res, h') \<Longrightarrow> \<forall>c \<in> set cs. within h X c \<Longrightarrow>
     set ready \<subseteq> to_candidate ` X \<Longrightarrow> set res \<subseteq> to_candidate ` X"
proof (induction n h a pr and n h cs pr ready arbitrary: res h' and res h'
    rule: filtered_filtered_children.induct)
  case (2 n h a protocol)
  from "2.prems"(1) show ?case
  proof (rule filtered_SucD)
    fix self ready h1
    assume self: "h a = Some self" and m: "mset res = mset ready"
      and ch: "filtered_children n h (pool_children self) protocol (pool_local self protocol) = Some (ready, h1)"
    have "\<forall>c \<in> set (pool_children self). within h X c" using within_child "2.prems"(2) self by blast
    from "2.IH" [OF self ch this within_local [of h X a, OF "2.prems"(2) self]] mset_eq_setD [OF m] show ?thesis by simp
  qed
next
  case (4 n h c cs protocol ready)
  from "4.prems"(1) obtain found h1 where f: "filtered n h c protocol = Some (found, h1)"
    and rest: "filtered_children n h1 cs protocol (add_new c_key ready found) = Some (res, h')"
    by (auto split: option.splits)
  have "set (add_new c_key ready found) \<subseteq> to_candidate ` X"
    using "4.IH"(1) [OF f] "4.prems" add_new_set [of c_key ready found] by auto
  then show ?case
    using "4.IH"(2) [OF f refl rest] "4.prems"(2) within_shape [OF filtered_shape(1) [OF f]] by simp
qed auto

lemma select_within:
  "select k i rdy n h a pr = Some (res, h') \<Longrightarrow> within h X a \<Longrightarrow>
   same_shape h h' \<and> (\<forall>c. res = Some c \<longrightarrow> c \<in> to_candidate ` X)"
proof (induction k arbitrary: i h)
  case (Suc k)
  obtain found h1 where f: "filtered n h a pr = Some (found, h1)" using Suc.prems(1) by (auto split: option.splits)
  note sh = filtered_shape(1) [OF f] and sub = filtered_within(1) [OF f Suc.prems(2)]
  show ?case
  proof (cases "found = []")
    case True
    then show ?thesis using Suc.prems(1) f sh by auto
  next
    case False
    show ?thesis
    proof (cases "find (\<lambda>c. rdy i (c_tunnel c)) found")
      case None
      then have "select k (Suc i) rdy n h1 a pr = Some (res, h')" using Suc.prems(1) f False by simp
      from Suc.IH [OF this within_shape [OF sh Suc.prems(2)]] show ?thesis using same_shape_trans [OF sh] by blast
    next
      case (Some c)
      then have "res = Some c \<and> h' = h1" using Suc.prems(1) f False by simp
      moreover have "c \<in> set found" using Some by (auto simp: find_Some_iff)
      ultimately show ?thesis using sh sub by auto
    qed
  qed
qed simp

section \<open>Leaves\<close>

definition flat_in :: "'t heap \<Rightarrow> 't pool_proxy set \<Rightarrow> pool_addr \<Rightarrow> bool" where
  "flat_in h X a \<longleftrightarrow> (\<exists>self. h a = Some self \<and> pool_children self = [] \<and> set (pool_proxies self) \<subseteq> X)"

lemma flat_in_within: "flat_in h X a \<Longrightarrow> within h X a"
  by (rule withinI) (auto simp: flat_in_def)

lemma flat_in_mono: "flat_in h X a \<Longrightarrow> X \<subseteq> Y \<Longrightarrow> flat_in h Y a"
  unfolding flat_in_def by blast

lemma flat_in_same: "flat_in h X a \<Longrightarrow> h' a = h a \<Longrightarrow> flat_in h' X a"
  by (simp add: flat_in_def)

lemma flat_in_shape: "same_shape h h' \<Longrightarrow> flat_in h X a \<Longrightarrow> flat_in h' X a"
  unfolding flat_in_def using same_shape_at by metis

lemma push_set: "set (pool_proxies (push p x)) \<subseteq> insert x (set (pool_proxies p))"
  by (auto simp: push_def)

lemma flat_in_push: "flat_in h X a \<Longrightarrow> (b = a \<Longrightarrow> x \<in> X) \<Longrightarrow> flat_in (push_at b x h) X a"
  using push_set by (fastforce simp: flat_in_def push_at_def)

lemma flat_in_remove: "flat_in h X a \<Longrightarrow> flat_in (remove_at b k h) X a"
  by (auto simp: flat_in_def remove_at_def remove_def)

section \<open>The exits of a region\<close>

text \<open>
  The exits of the program: account \<open>i\<close> of the VPN accounts \<open>acs\<close>, and the tunnel of SSH region \<open>j\<close> of
  \<open>regions\<close>, which is numbered behind the accounts.
\<close>

definition vpn_exits :: "vpn_account list \<Rightarrow> string \<Rightarrow> nat pool_proxy set" where
  "vpn_exits acs r = {proxy_for i (acs ! i) | i. i < length acs \<and> ac_region (acs ! i) = r}"

definition ssh_exits :: "nat \<Rightarrow> string list \<Rightarrow> string \<Rightarrow> nat pool_proxy set" where
  "ssh_exits n regions r = {ssh_proxy (n + j) r | j. j < length regions \<and> regions ! j = r}"

text \<open>
  \<open>leaf m X u p a\<close>: the pool at \<open>a\<close> is one of the pools \<open>m\<close> of the VPN regions, or one with SSH exits
  of a region, and that region is called \<open>u\<close> up to case.
\<close>

definition leaf :: "(string \<times> pool_addr) list \<Rightarrow> (string \<Rightarrow> nat pool_proxy set) \<Rightarrow> nat store \<Rightarrow> string \<Rightarrow> protocol \<Rightarrow> pool_addr \<Rightarrow> bool" where
  "leaf m X st u p a \<longleftrightarrow> a < st_next st \<and>
     (\<exists>r. eq_ignore_ascii_case r u \<and>
        (case p of Vpn \<Rightarrow> (r, a) \<in> set m | Ssh \<Rightarrow> a \<notin> snd ` set m \<and> flat_in (st_heap st) (X r) a))"

definition inner :: "'f proxy \<Rightarrow> pool_addr set" where
  "inner px = insert (px_default_pool px) (rg_merged ` set (px_regions px))"

definition merged_ok :: "(string \<times> pool_addr) list \<Rightarrow> (string \<Rightarrow> nat pool_proxy set) \<Rightarrow> nat store \<Rightarrow> pool_addr set \<Rightarrow> 'f region \<Rightarrow> bool" where
  "merged_ok m X st I rg \<longleftrightarrow> rg_variants rg \<noteq> [] \<and>
     (\<exists>self. st_heap st (rg_merged rg) = Some self \<and> pool_proxies self = [] \<and>
        (\<forall>c \<in> set (pool_children self). c \<notin> I \<and> (\<exists>p. leaf m X st (rg_username rg) p c)))"

definition variant_ok :: "(string \<times> pool_addr) list \<Rightarrow> (string \<Rightarrow> nat pool_proxy set) \<Rightarrow> nat store \<Rightarrow> pool_addr set \<Rightarrow> string \<Rightarrow> transport variant \<Rightarrow> bool" where
  "variant_ok m X st I u v \<longleftrightarrow> va_forward v = Some (region_transport (va_pool v)) \<and> va_pool v \<notin> I \<and>
     leaf m X st u (va_protocol v) (va_pool v)"

definition routed :: "(string \<times> pool_addr) list \<Rightarrow> (string \<Rightarrow> nat pool_proxy set) \<Rightarrow> transport proxy \<Rightarrow> nat store \<Rightarrow> bool" where
  "routed m X px st \<longleftrightarrow> alloc_ok st \<and> inner px \<subseteq> {..<st_next st} \<and>
     px_default_pool px \<notin> rg_merged ` set (px_regions px) \<and> distinct (map rg_merged (px_regions px)) \<and>
     (\<forall>(r, a) \<in> set m. a < st_next st \<and> a \<notin> inner px) \<and>
     px_default_forward px = Some (default_transport (px_default_pool px)) \<and>
     flat_in (st_heap st) (\<Union>r. X r) (px_default_pool px) \<and>
     (\<forall>rg \<in> set (px_regions px). merged_ok m X st (inner px) rg \<and>
        (\<forall>v \<in> set (rg_variants rg). variant_ok m X st (inner px) (rg_username rg) v))"

text \<open>A step that changes only the pools in \<open>D\<close> and allocates new ones keeps the leaves outside \<open>D\<close>.\<close>

definition changes :: "pool_addr set \<Rightarrow> nat store \<Rightarrow> nat store \<Rightarrow> bool" where
  "changes D st st' \<longleftrightarrow> st_next st \<le> st_next st' \<and>
     (\<forall>a < st_next st. a \<notin> D \<longrightarrow> st_heap st' a = st_heap st a)"

lemma changes_trans: "changes D a b \<Longrightarrow> changes D b c \<Longrightarrow> changes D a c"
  unfolding changes_def by (metis order_less_le_trans order_trans)

lemma changes_new_pool: "new_pool xs st = (a, st') \<Longrightarrow> changes D st st'"
  by (auto simp: new_pool_def changes_def)

lemma changes_add_child: "a \<in> D \<Longrightarrow> changes D st (st\<lparr>st_heap := add_child (st_heap st) a c\<rparr>)"
  by (auto simp: changes_def add_child_def split: option.splits)

lemma changes_mono: "changes D st st' \<Longrightarrow> \<forall>a \<in> D. a \<in> E \<or> st_next st \<le> a \<Longrightarrow> changes E st st'"
  unfolding changes_def by (meson not_less)

lemma leaf_changes: "leaf m X st u p a \<Longrightarrow> changes D st st' \<Longrightarrow> a \<notin> D \<Longrightarrow> leaf m X st' u p a"
  unfolding leaf_def changes_def using flat_in_same [of "st_heap st" _ a "st_heap st'"]
  by (cases p) (auto intro: order_less_le_trans)

lemma leaf_less: "leaf m X st u p a \<Longrightarrow> a < st_next st"
  by (simp add: leaf_def)

lemma leaf_name: "leaf m X st u p a \<Longrightarrow> eq_ignore_ascii_case u w \<Longrightarrow> leaf m X st w p a"
  unfolding leaf_def using eq_ignore_ascii_case_trans by blast

lemma variant_ok_changes:
  assumes "variant_ok m X st I u v" "changes D st st'" "D \<subseteq> I" "J \<subseteq> I \<union> {st_next st ..}"
  shows "variant_ok m X st' J u v"
proof -
  have l: "leaf m X st u (va_protocol v) (va_pool v)" "va_pool v \<notin> I" using assms(1) by (auto simp: variant_ok_def)
  then have "va_pool v \<notin> J" using leaf_less [OF l(1)] assms(4) by auto
  moreover have "leaf m X st' u (va_protocol v) (va_pool v)" using leaf_changes [OF l(1) assms(2)] l(2) assms(3) by blast
  ultimately show ?thesis using assms(1) by (simp add: variant_ok_def)
qed

lemma merged_ok_changes:
  assumes "merged_ok m X st I rg" "changes D st st'" "D \<subseteq> I" "J \<subseteq> I \<union> {st_next st ..}"
    and "rg_merged rg \<notin> D" "rg_merged rg < st_next st"
  shows "merged_ok m X st' J rg"
proof -
  obtain self where self: "st_heap st (rg_merged rg) = Some self" "pool_proxies self = []"
    "\<forall>c \<in> set (pool_children self). c \<notin> I \<and> (\<exists>p. leaf m X st (rg_username rg) p c)"
    using assms(1) by (auto simp: merged_ok_def)
  have "c \<notin> J \<and> (\<exists>p. leaf m X st' (rg_username rg) p c)" if c: "c \<in> set (pool_children self)" for c
  proof -
    obtain p where p: "leaf m X st (rg_username rg) p c" "c \<notin> I" using self(3) c by blast
    then have "leaf m X st' (rg_username rg) p c" using leaf_changes [OF p(1) assms(2)] assms(3) by blast
    then show ?thesis using p leaf_less [OF p(1)] assms(4) by auto
  qed
  then show ?thesis using self assms(1,2,5,6) by (simp add: merged_ok_def changes_def)
qed

text \<open>Registering: the variants of a region that has one variant, merged into a region that has forwarders.\<close>

lemma add_variant_set:
  "\<forall>v \<in> set vs. va_forward v \<noteq> None \<Longrightarrow>
   set (add_variant p pool f vs) \<subseteq> insert \<lparr>va_protocol = p, va_pool = pool, va_forward = f\<rparr> (set vs)"
  by (induction vs) auto

lemma add_variant_nonempty [simp]: "add_variant p pool f vs \<noteq> []"
  by (cases vs) simp_all

lemma add_region_to_cases:
  assumes "rg_variants rg = [\<lparr>va_protocol = p, va_pool = a, va_forward = Some f\<rparr>]" "add_region_to rg regions st = (regions', st')"
  obtains (New) "regions' = regions @ [rg]" "st' = st"
  | (Merged) pre old post new where "regions = pre @ old # post" "regions' = pre @ new # post"
      "eq_ignore_ascii_case (rg_username old) (rg_username rg)" "region_add p a (Some f) old st = (new, st')"
proof -
  have one: "merge_protocols (region_protocols rg) rg old st = region_add p a (Some f) old st" for old st
    using assms(1) by (simp add: region_protocols_def region_pool_def find_variant_def region_forward_def case_prod_beta)
  have "(regions' = regions @ [rg] \<and> st' = st) \<or> (\<exists>pre old post new. regions = pre @ old # post \<and> regions' = pre @ new # post \<and>
      eq_ignore_ascii_case (rg_username old) (rg_username rg) \<and> region_add p a (Some f) old st = (new, st'))"
    using assms(2)
  proof (induction regions arbitrary: regions')
    case (Cons current regions)
    show ?case
    proof (cases "eq_ignore_ascii_case (rg_username current) (rg_username rg)")
      case True
      then obtain new where n: "region_add p a (Some f) current st = (new, st')" "regions' = new # regions"
        using Cons.prems by (auto simp: one [symmetric] split: prod.splits)
      then show ?thesis using True
        by (intro disjI2 exI [of _ "[]"] exI [of _ current] exI [of _ regions] exI [of _ new]) simp
    next
      case False
      then obtain more_regions where m: "add_region_to rg regions st = (more_regions, st')" "regions' = current # more_regions"
        using Cons.prems by (auto split: prod.splits)
      from Cons.IH [OF m(1)] show ?thesis
      proof (elim disjE exE conjE)
        fix pre old post new
        assume "regions = pre @ old # post" "more_regions = pre @ new # post"
          "eq_ignore_ascii_case (rg_username old) (rg_username rg)" "region_add p a (Some f) old st = (new, st')"
        then show ?thesis using m(2)
          by (intro disjI2 exI [of _ "current # pre"] exI [of _ old] exI [of _ post] exI [of _ new]) simp
      qed (use m(2) in simp)
    qed
  qed simp
  then show thesis using New Merged by blast
qed

text \<open>What a step of the start of the program keeps.\<close>

definition routes_on :: "(string \<times> pool_addr) list \<Rightarrow> (string \<Rightarrow> nat pool_proxy set) \<Rightarrow> transport proxy \<Rightarrow> nat store \<Rightarrow> transport proxy \<Rightarrow> nat store \<Rightarrow> bool" where
  "routes_on m X px st px' st' \<longleftrightarrow> routed m X px' st' \<and> changes (inner px) st st' \<and>
     px_default_pool px' = px_default_pool px \<and> inner px' \<subseteq> inner px \<union> {st_next st ..}"

lemma routes_on_refl: "routed m X px st \<Longrightarrow> routes_on m X px st px st"
  by (simp add: routes_on_def changes_def)

lemma routes_on_trans:
  assumes "routes_on m X a s b t" "routes_on m X b t c u"
  shows "routes_on m X a s c u"
proof -
  have n: "st_next s \<le> st_next t" "st_next t \<le> st_next u" using assms by (simp_all add: routes_on_def changes_def)
  have "st_heap u x = st_heap s x" if x: "x < st_next s" "x \<notin> inner a" for x
  proof -
    have "x \<notin> inner b" using assms(1) x by (auto simp: routes_on_def)
    then show ?thesis using assms x n(1) by (simp add: routes_on_def changes_def)
  qed
  moreover have "inner c \<subseteq> inner a \<union> {st_next s ..}" using assms n(1) by (fastforce simp: routes_on_def)
  ultimately show ?thesis using assms n by (simp add: routes_on_def changes_def)
qed

lemma register_new_region:
  assumes "routed m X px st" "leaf m X st region p a" "a \<notin> inner px" "changes {} st st2"
    and "alloc_ok st2" "st_next st2 = Suc (st_next st)" "st_heap st2 (st_next st) = Some self"
    and "pool_proxies self = []" "pool_children self = [a]"
    and "e = \<lparr>rg_name = region, rg_username = region,
      rg_variants = [\<lparr>va_protocol = p, va_pool = a, va_forward = Some (region_transport a)\<rparr>], rg_merged = st_next st\<rparr>"
  shows "routes_on m X px st (px\<lparr>px_regions := px_regions px @ [e]\<rparr>) st2"
proof -
  let ?I = "insert (st_next st) (inner px)"
  have I: "?I \<subseteq> inner px \<union> {st_next st ..}" by auto
  have fresh: "st_next st \<notin> inner px" using assms(1) by (auto simp: routed_def)
  have a: "a < st_next st" by (rule leaf_less [OF assms(2)])
  have lf: "leaf m X st2 region p a" using leaf_changes [OF assms(2,4)] by simp
  have old: "merged_ok m X st2 ?I rg \<and> (\<forall>v \<in> set (rg_variants rg). variant_ok m X st2 ?I (rg_username rg) v)"
    if "rg \<in> set (px_regions px)" for rg
  proof -
    have "rg_merged rg \<in> inner px" using that by (simp add: inner_def)
    then have "rg_merged rg < st_next st" using assms(1) by (auto simp: routed_def)
    then show ?thesis
      using merged_ok_changes [of m X st "inner px" rg, OF _ assms(4) _ I] variant_ok_changes [OF _ assms(4) _ I] that assms(1)
      by (simp add: routed_def)
  qed
  have new: "merged_ok m X st2 ?I e \<and> (\<forall>v \<in> set (rg_variants e). variant_ok m X st2 ?I (rg_username e) v)"
    using lf assms(3) a by (auto simp: assms(7-10) merged_ok_def variant_ok_def)
  have "px_default_pool px < st_next st" using assms(1) by (simp add: routed_def inner_def)
  then have "flat_in (st_heap st2) (\<Union>r. X r) (px_default_pool px)"
    using assms(1,4) flat_in_same [of "st_heap st" _ "px_default_pool px" "st_heap st2"] by (simp add: routed_def changes_def)
  moreover have "px_default_pool px \<noteq> st_next st" "st_next st \<notin> rg_merged ` set (px_regions px)"
    using fresh by (auto simp: inner_def)
  moreover have "inner (px\<lparr>px_regions := px_regions px @ [e]\<rparr>) = ?I" by (auto simp: inner_def assms(10))
  moreover have "\<forall>(r, b) \<in> set m. b < st_next st2 \<and> b \<notin> ?I" using assms(1,6) by (auto simp: routed_def)
  moreover have "inner px \<subseteq> {..<st_next st}" using assms(1) by (simp add: routed_def)
  then have "?I \<subseteq> {..<st_next st2}" using assms(6) by auto
  ultimately have "routed m X (px\<lparr>px_regions := px_regions px @ [e]\<rparr>) st2"
    using assms(1,5) old new unfolding routed_def by (auto simp: assms(10))
  then show ?thesis
    using changes_mono [OF assms(4), of "inner px"] I by (auto simp: routes_on_def inner_def assms(10))
qed

lemma merged_ok_add:
  assumes "merged_ok m X st I old" "changes {rg_merged old} st st'" "changes {} st st2" "rg_merged old < st_next st"
    and "rg_merged old \<in> I" "leaf m X st' (rg_username old) p a" "a \<notin> I"
    and "st' = st2\<lparr>st_heap := add_child (st_heap st2) (rg_merged old) a\<rparr>"
  shows "merged_ok m X st' I old"
proof -
  obtain self where self: "st_heap st (rg_merged old) = Some self" "pool_proxies self = []"
    "\<forall>c \<in> set (pool_children self). c \<notin> I \<and> (\<exists>q. leaf m X st (rg_username old) q c)"
    using assms(1) by (auto simp: merged_ok_def)
  have "st_heap st2 (rg_merged old) = Some self" using self(1) assms(3,4) by (simp add: changes_def)
  moreover have "\<exists>q. leaf m X st' (rg_username old) q c" if "c \<in> set (pool_children self)" for c
    using self(3) that leaf_changes [OF _ assms(2)] assms(5) by (metis singletonD)
  ultimately have "\<exists>self. st_heap st' (rg_merged old) = Some self \<and> pool_proxies self = [] \<and>
      (\<forall>c \<in> set (pool_children self). c \<notin> I \<and> (\<exists>q. leaf m X st' (rg_username old) q c))"
    using self(2,3) assms(6,7) by (auto simp: assms(8) add_child_def)
  then show ?thesis using assms(1) by (simp add: merged_ok_def)
qed

lemma variants_add:
  assumes "\<forall>v \<in> set vs. variant_ok m X st I u v" "leaf m X st u p a" "a \<notin> I"
    and "v \<in> set (add_variant p a (Some (region_transport a)) vs)"
  shows "variant_ok m X st I u v"
proof -
  have "\<forall>v \<in> set vs. va_forward v \<noteq> None" using assms(1) by (auto simp: variant_ok_def)
  then have "v = \<lparr>va_protocol = p, va_pool = a, va_forward = Some (region_transport a)\<rparr> \<or> v \<in> set vs"
    using add_variant_set [of vs p a "Some (region_transport a)"] assms(4) by auto
  then show ?thesis using assms(1-3) by (auto simp: variant_ok_def)
qed

lemma register_into_region:
  assumes "routed m X px st" "leaf m X st region p a" "a \<notin> inner px" "changes {} st st2" "alloc_ok st2"
    and "px_regions px = pre @ old # post" "eq_ignore_ascii_case (rg_username old) region"
    and "region_add p a (Some (region_transport a)) old st2 = (new, st')"
  shows "routes_on m X px st (px\<lparr>px_regions := pre @ new # post\<rparr>) st'"
proof -
  let ?px = "px\<lparr>px_regions := pre @ new # post\<rparr>"
  have e: "new = old\<lparr>rg_variants := add_variant p a (Some (region_transport a)) (rg_variants old)\<rparr>"
    "st' = st2\<lparr>st_heap := add_child (st_heap st2) (rg_merged old) a\<rparr>"
    using assms(8) by (simp_all add: region_add_def)
  have old: "old \<in> set (px_regions px)" by (simp add: assms(6))
  have all: "merged_ok m X st (inner px) rg" "\<forall>v \<in> set (rg_variants rg). variant_ok m X st (inner px) (rg_username rg) v"
    if "rg \<in> set (px_regions px)" for rg
    using assms(1) that by (auto simp: routed_def)
  have bound: "rg_merged rg < st_next st" if "rg \<in> set (px_regions px)" for rg
    using assms(1) that by (auto simp: routed_def inner_def)
  have inner: "inner ?px = inner px" by (simp add: inner_def assms(6) e(1))
  have mold: "rg_merged old \<in> inner px" using old by (simp add: inner_def)
  have "changes {rg_merged old} st2 st'" unfolding e(2) by (rule changes_add_child) simp
  moreover have "changes {rg_merged old} st st2" by (rule changes_mono [OF assms(4)]) simp
  ultimately have ch: "changes {rg_merged old} st st'" by (rule changes_trans [rotated])
  have I: "inner px \<subseteq> inner px \<union> {st_next st ..}" and D: "{rg_merged old} \<subseteq> inner px" using mold by auto
  have la: "leaf m X st' (rg_username old) p a"
    using leaf_name [OF leaf_changes [OF assms(2) ch]] assms(3,7) mold eq_ignore_ascii_case_sym by blast
  have others: "merged_ok m X st' (inner px) rg" if "rg \<in> set pre \<union> set post" for rg
  proof -
    have "rg_merged old \<notin> rg_merged ` (set pre \<union> set post)" using assms(1) by (auto simp: routed_def assms(6))
    then have "rg_merged rg \<noteq> rg_merged old" using that by (metis imageI)
    moreover have "rg \<in> set (px_regions px)" using that by (auto simp: assms(6))
    ultimately show ?thesis using merged_ok_changes [OF all(1) ch D I, of rg] bound by blast
  qed
  have mnew: "merged_ok m X st' (inner px) new"
    using merged_ok_add [OF all(1) [OF old] ch assms(4) bound [OF old] mold la assms(3) e(2)] by (simp add: e(1) merged_ok_def)
  have vars: "\<forall>v \<in> set (rg_variants rg). variant_ok m X st' (inner px) (rg_username rg) v" if "rg \<in> set (px_regions px)" for rg
    using all(2) [OF that] variant_ok_changes [OF _ ch D I] by blast
  have vnew: "\<forall>v \<in> set (rg_variants new). variant_ok m X st' (inner px) (rg_username new) v"
    using variants_add [OF vars [OF old] la assms(3)] by (simp add: e(1))
  have "px_default_pool px < st_next st" "px_default_pool px \<noteq> rg_merged old"
    using assms(1) old by (auto simp: routed_def inner_def)
  then have "flat_in (st_heap st') (\<Union>r. X r) (px_default_pool px)"
    using assms(1) ch flat_in_same [of "st_heap st" _ "px_default_pool px" "st_heap st'"] by (simp add: routed_def changes_def)
  moreover have "alloc_ok st'" unfolding e(2) by (rule add_child_ok(1) [OF assms(5)])
  moreover have "inner px \<subseteq> {..<st_next st'}" "\<forall>(r, b) \<in> set m. b < st_next st' \<and> b \<notin> inner px"
    using assms(1) ch by (auto simp: routed_def changes_def)
  moreover have "map rg_merged (px_regions ?px) = map rg_merged (px_regions px)" by (simp add: e(1) assms(6))
  then have "distinct (map rg_merged (px_regions ?px)) \<and> px_default_pool px \<notin> rg_merged ` set (px_regions ?px)"
    using assms(1) by (metis image_set routed_def)
  ultimately have "routed m X ?px st'"
    using assms(1) others mnew vnew vars by (auto simp: routed_def inner assms(6))
  then show ?thesis using changes_mono [OF ch, of "inner px"] mold by (auto simp: routes_on_def inner)
qed

lemma register_routed:
  assumes "routed m X px st" "leaf m X st region p a" "a \<notin> inner px" "register p region a px st = (px', st')"
  shows "routes_on m X px st px' st'"
proof -
  let ?w = "\<lparr>va_protocol = p, va_pool = a, va_forward = Some (region_transport a)\<rparr>"
  obtain n st1 where n: "new_pool [] st = (n, st1)" by fastforce
  have al: "alloc_ok st" using assms(1) by (simp add: routed_def)
  note np = new_pool_ok [OF al n]
  define e where "e = \<lparr>rg_name = region, rg_username = region, rg_variants = [?w], rg_merged = n\<rparr>"
  define st2 where "st2 = st1\<lparr>st_heap := add_child (st_heap st1) n a\<rparr>"
  have "region_add p a (Some (region_transport a)) \<lparr>rg_name = region, rg_username = region, rg_variants = [], rg_merged = n\<rparr> st1 = (e, st2)"
    by (simp add: region_add_def e_def st2_def)
  then obtain regions where r: "add_region_to e (px_regions px) st2 = (regions, st')" "px' = px\<lparr>px_regions := regions\<rparr>"
    using assms(4) n by (auto simp: register_def region_new_def add_region_def split: prod.splits)
  have "changes {n} st st1" "changes {n} st1 st2"
    unfolding st2_def by (rule changes_new_pool [OF n], rule changes_add_child) simp
  then have ch: "changes {} st st2" using changes_mono [OF changes_trans] np(3) by (metis empty_iff le_refl singletonD)
  have al2: "alloc_ok st2" unfolding st2_def by (rule add_child_ok(1) [OF np(1)])
  have v: "rg_variants e = [?w]" by (simp add: e_def)
  show ?thesis
    using v r(1)
  proof (cases rule: add_region_to_cases)
    case New
    have "st_heap st2 n = Some \<lparr>pool_proxies = [], pool_children = [a], pool_rotation = 0\<rparr>"
      using np(4) by (simp add: st2_def add_child_def pool_new_def)
    then have "routes_on m X px st (px\<lparr>px_regions := px_regions px @ [e]\<rparr>) st2"
      using np(3,5) by (intro register_new_region [OF assms(1-3) ch al2, where self = "\<lparr>pool_proxies = [], pool_children = [a], pool_rotation = 0\<rparr>"])
        (simp_all add: st2_def e_def)
    then show ?thesis by (simp add: r(2) New)
  next
    case (Merged pre old post new)
    then show ?thesis
      using register_into_region [OF assms(1-3) ch al2, of pre old post new st'] by (simp add: r(2) e_def)
  qed
qed

lemma attach_regions_routed:
  "\<lbrakk>routed m X px st; set m' \<subseteq> set m; attach_regions m' px st = (px', st')\<rbrakk> \<Longrightarrow> routes_on m X px st px' st'"
proof (induction m' px st rule: attach_regions.induct)
  case (1 px st)
  then show ?case using routes_on_refl by simp
next
  case (2 region pool m' px st)
  obtain px1 st1 where s: "register Vpn region pool px st = (px1, st1)" "attach_regions m' px1 st1 = (px', st')"
    using 2(4) by (auto split: prod.splits)
  have in_m: "(region, pool) \<in> set m" using 2(3) by simp
  then have "pool < st_next st \<and> pool \<notin> inner px" using 2(2) by (auto simp: routed_def)
  moreover from this in_m have "leaf m X st region Vpn pool" by (auto simp: leaf_def intro: exI [of _ region])
  ultimately have one: "routes_on m X px st px1 st1" using register_routed [OF 2(2) _ _ s(1)] by blast
  then have "routes_on m X px1 st1 px' st'" using 2(1) [OF s(1) [symmetric] refl] 2(3) s(2) by (simp add: routes_on_def)
  then show ?case by (rule routes_on_trans [OF one])
qed

section \<open>The pools of the VPN regions\<close>

text \<open>The pool of a region holds only accounts of that region, and no two regions share one.\<close>

definition vpn_pools_ok :: "vpn_account list \<Rightarrow> (string \<times> pool_addr) list \<Rightarrow> nat heap \<Rightarrow> bool" where
  "vpn_pools_ok acs m h \<longleftrightarrow>
     (\<forall>(r, a) \<in> set m. flat_in h (vpn_exits acs r) a \<and> (\<forall>(q, b) \<in> set m. a = b \<longrightarrow> q = r))"

definition same_account :: "vpn_account \<Rightarrow> vpn_account \<Rightarrow> bool" where
  "same_account a b \<longleftrightarrow> ac_ip a = ac_ip b \<and> ac_region a = ac_region b"

lemma vpn_exits_at: "i < length acs \<Longrightarrow> proxy_for i (acs ! i) \<in> vpn_exits acs (ac_region (acs ! i))"
  by (auto simp: vpn_exits_def)

lemma vpn_pools_ok_push:
  assumes "vpn_pools_ok acs m h" "(r, a) \<in> set m" "x \<in> vpn_exits acs r"
  shows "vpn_pools_ok acs m (push_at a x h)"
proof -
  have "flat_in (push_at a x h) (vpn_exits acs q) b" if "(q, b) \<in> set m" for q b
    using assms that by (intro flat_in_push) (auto simp: vpn_pools_ok_def)
  then show ?thesis using assms(1) by (auto simp: vpn_pools_ok_def)
qed

lemma attach_pools_vpn:
  assumes "attach_pools i (drop i acs) m st = (m', st')" "alloc_ok st" "vpn_pools_ok acs m (st_heap st)"
    and "\<forall>(r, a) \<in> set m. d \<le> a \<and> a < st_next st" "d \<le> st_next st" "i \<le> length acs"
  shows "vpn_pools_ok acs m' (st_heap st') \<and> (\<forall>(r, a) \<in> set m'. d \<le> a \<and> a < st_next st') \<and> alloc_ok st' \<and>
    changes {d ..} st st'"
  using assms
proof (induction "length acs - i" arbitrary: i m st)
  case 0
  then show ?case by (auto simp: changes_def)
next
  case (Suc k)
  let ?ac = "acs ! i"
  have i: "i < length acs" "drop i acs = ?ac # drop (Suc i) acs" using Suc.hyps(2) by (simp_all add: Cons_nth_drop_Suc)
  define z where "z = (case map_of m (ac_region ?ac) of
           Some pool \<Rightarrow> (pool, m, st)
         | None \<Rightarrow> let (pool, st) = new_pool [] st in (pool, btree_insert (ac_region ?ac) pool m, st))"
  obtain a m1 st1 where "z = (a, m1, st1)" by (cases z) auto
  note one = this [unfolded z_def]
  let ?st = "if bridge_ready ?ac then st1\<lparr>st_heap := push_at a (proxy_for i ?ac) (st_heap st1)\<rparr> else st1"
  have rest: "attach_pools (Suc i) (drop (Suc i) acs) m1 ?st = (m', st')" using Suc.prems(1) one i(2) by (simp add: Let_def)
  have st1: "vpn_pools_ok acs m1 (st_heap st1) \<and> (\<forall>(r, a) \<in> set m1. d \<le> a \<and> a < st_next st1) \<and> alloc_ok st1 \<and>
      changes {d ..} st st1 \<and> (ac_region ?ac, a) \<in> set m1"
  proof (cases "map_of m (ac_region ?ac)")
    case None
    obtain b st2 where n: "new_pool [] st = (b, st2)" by fastforce
    have e: "st1 = st2" "a = b" "m1 = btree_insert (ac_region ?ac) b m" using one None n by auto
    note np = new_pool_ok [OF Suc.prems(2) n] and ch = changes_new_pool [OF n]
    have "flat_in (st_heap st2) (vpn_exits acs r) c" if "(r, c) \<in> set m" for r c
      using Suc.prems(3,4) that ch [of "{}"] flat_in_same [of "st_heap st" _ c "st_heap st2"]
      by (fastforce simp: vpn_pools_ok_def changes_def)
    moreover have "flat_in (st_heap st2) (vpn_exits acs (ac_region ?ac)) b" using np(4) by (simp add: flat_in_def pool_new_def)
    moreover have "c \<noteq> b" if "(r, c) \<in> set m" for r c using Suc.prems(4) that np(3) by auto
    ultimately have "vpn_pools_ok acs m1 (st_heap st2)"
      using Suc.prems(3) by (auto simp: e(3) vpn_pools_ok_def btree_insert_fresh(2) [OF None])
    then show ?thesis using np ch Suc.prems(4,5) by (auto simp: e btree_insert_fresh(2) [OF None])
  qed (use one Suc.prems in \<open>auto simp: changes_def dest: map_of_SomeD\<close>)
  then have "d \<le> a" by auto
  then have "changes {d ..} st1 ?st" by (auto simp: changes_def push_at_def)
  then have st: "vpn_pools_ok acs m1 (st_heap ?st) \<and> (\<forall>(r, a) \<in> set m1. d \<le> a \<and> a < st_next ?st) \<and> alloc_ok ?st \<and>
      changes {d ..} st ?st"
    using st1 vpn_pools_ok_push [OF _ _ vpn_exits_at [OF i(1)]] push_at_ok(1) changes_trans by auto
  then have "d \<le> st_next ?st" using Suc.prems(5) by (auto simp: changes_def)
  moreover have "k = length acs - Suc i" "Suc i \<le> length acs" using Suc.hyps(2) i(1) by simp_all
  ultimately have "vpn_pools_ok acs m' (st_heap st') \<and> (\<forall>(r, a) \<in> set m'. d \<le> a \<and> a < st_next st') \<and> alloc_ok st' \<and>
      changes {d ..} ?st st'"
    using Suc.hyps(1) [of "Suc i" m1 ?st] rest st by blast
  moreover from this st have "changes {d ..} st st'" using changes_trans by blast
  ultimately show ?case by blast
qed

section \<open>The start of the program\<close>

lemma routed_changes:
  assumes "routed m X px st" "changes {} st st'" "alloc_ok st'"
  shows "routed m X px st'"
proof -
  have I: "inner px \<subseteq> inner px \<union> {st_next st ..}" by simp
  have "merged_ok m X st' (inner px) rg \<and> (\<forall>v \<in> set (rg_variants rg). variant_ok m X st' (inner px) (rg_username rg) v)"
    if "rg \<in> set (px_regions px)" for rg
  proof -
    have "rg_merged rg < st_next st" using assms(1) that by (auto simp: routed_def inner_def)
    then show ?thesis
      using merged_ok_changes [of m X st "inner px" rg, OF _ assms(2) _ I] variant_ok_changes [OF _ assms(2) _ I] that assms(1)
      by (simp add: routed_def)
  qed
  moreover have "px_default_pool px < st_next st" using assms(1) by (simp add: routed_def inner_def)
  then have "flat_in (st_heap st') (\<Union>r. X r) (px_default_pool px)"
    using assms(1,2) flat_in_same [of "st_heap st" _ "px_default_pool px" "st_heap st'"] by (simp add: routed_def changes_def)
  moreover have "inner px \<subseteq> {..<st_next st'}" "\<forall>(r, b) \<in> set m. b < st_next st' \<and> b \<notin> inner px"
    using assms(1,2) by (auto simp: routed_def changes_def)
  ultimately show ?thesis using assms(1,3) by (simp add: routed_def)
qed

lemma routed_push_default:
  assumes "routed m X px st" "x \<in> X r" "st' = st\<lparr>st_heap := push_at (px_default_pool px) x (st_heap st)\<rparr>"
  shows "routed m X px st'"
proof -
  let ?d = "px_default_pool px"
  have ch: "changes {?d} st st'" by (auto simp: assms(3) changes_def push_at_def)
  have I: "inner px \<subseteq> inner px \<union> {st_next st ..}" and D: "{?d} \<subseteq> inner px" by (auto simp: inner_def)
  have "merged_ok m X st' (inner px) rg \<and> (\<forall>v \<in> set (rg_variants rg). variant_ok m X st' (inner px) (rg_username rg) v)"
    if "rg \<in> set (px_regions px)" for rg
  proof -
    have "rg_merged rg \<in> rg_merged ` set (px_regions px)" using that by simp
    then have "rg_merged rg < st_next st" "rg_merged rg \<notin> {?d}" using assms(1) by (auto simp: routed_def inner_def)
    then show ?thesis
      using merged_ok_changes [of m X st "inner px" rg, OF _ ch D I] variant_ok_changes [OF _ ch D I] that assms(1)
      by (simp add: routed_def)
  qed
  moreover have "flat_in (st_heap st') (\<Union>r. X r) ?d"
    using assms(1,2) by (auto simp: assms(3) routed_def intro: flat_in_push)
  moreover have "alloc_ok st'" using assms(1) push_at_ok(1) [of st ?d x] by (simp add: assms(3) routed_def)
  ultimately show ?thesis using assms(1) by (simp add: routed_def assms(3))
qed

lemma provider_add_routed:
  assumes "routed m X px st" "ssh_proxy i region \<in> X region" "provider_add i region px st = (px', st')"
  shows "routes_on m X px st px' st'"
proof -
  obtain a st1 st2 where s: "new_pool [ssh_proxy i region] st = (a, st1)" "register Ssh region a px st1 = (px', st2)"
    "st' = st2\<lparr>st_heap := push_at (px_default_pool px') (ssh_proxy i region) (st_heap st2)\<rparr>"
    using assms(3) by (auto simp: provider_add_def split: prod.splits)
  have "alloc_ok st" using assms(1) by (simp add: routed_def)
  note np = new_pool_ok [OF this s(1)] and ch = changes_new_pool [OF s(1)]
  have one: "routes_on m X px st px st1" using routed_changes [OF assms(1) ch np(1)] ch by (simp add: routes_on_def)
  have fresh: "a \<notin> inner px" "a \<notin> snd ` set m" using assms(1) np(3) by (auto simp: routed_def)
  have "flat_in (st_heap st1) (X region) a" using np(4) assms(2) by (simp add: flat_in_def pool_new_def)
  then have "leaf m X st1 region Ssh a" using fresh(2) np(3,5) by (auto simp: leaf_def intro: exI [of _ region])
  then have two: "routes_on m X px st1 px' st2"
    using register_routed [OF routed_changes [OF assms(1) ch np(1)] _ fresh(1) s(2)] by blast
  then have "routed m X px' st2" by (simp add: routes_on_def)
  from routed_push_default [OF this assms(2) s(3)] have "routes_on m X px' st2 px' st'"
    by (auto simp: routes_on_def s(3) changes_def push_at_def inner_def)
  then show ?thesis using routes_on_trans [OF routes_on_trans [OF one two]] by blast
qed

lemma add_started_routed:
  "\<lbrakk>routed m X px st; add_started i started px st = (px', st');
    \<forall>j < length started. ssh_proxy (i + j) (fst (started ! j)) \<in> X (fst (started ! j))\<rbrakk> \<Longrightarrow> routes_on m X px st px' st'"
proof (induction i started px st rule: add_started.induct)
  case (1 i px st)
  then show ?case using routes_on_refl by simp
next
  case (2 i region tu started px st)
  obtain px1 st1 where s: "provider_add i region px st = (px1, st1)" "add_started (Suc i) started px1 st1 = (px', st')"
    using 2(3) by (auto split: prod.splits)
  have "ssh_proxy i region \<in> X region" using 2(4) by (metis add.right_neutral fst_conv length_Cons nth_Cons_0 zero_less_Suc)
  from provider_add_routed [OF 2(2) this s(1)] have one: "routes_on m X px st px1 st1" .
  have "\<forall>j < length started. ssh_proxy (Suc i + j) (fst (started ! j)) \<in> X (fst (started ! j))"
    using 2(4) by (metis Suc_less_eq add_Suc_right add_Suc length_Cons nth_Cons_Suc)
  then have "routes_on m X px1 st1 px' st'" using 2(1) [OF s(1) [symmetric] refl _ s(2)] one by (simp add: routes_on_def)
  then show ?case by (rule routes_on_trans [OF one])
qed

text \<open>
  What holds of the program's pools at any time: the regions' routes, the pools of the VPN regions, and
  the two protocol routes, whose pools are empty.
\<close>

abbreviation app_ssh_exits :: "'x app \<Rightarrow> string \<Rightarrow> nat pool_proxy set" where
  "app_ssh_exits app \<equiv> ssh_exits (length (ap_vpn app)) (map fst (ap_ssh app))"

definition app_inv :: "'x app \<Rightarrow> nat store \<Rightarrow> bool" where
  "app_inv app st \<longleftrightarrow> routed (ap_pools app) (app_ssh_exits app) (ap_proxy app) st \<and>
     vpn_pools_ok (ap_vpn app) (ap_pools app) (st_heap st) \<and>
     (\<forall>p. \<exists>a. find (\<lambda>(known, _). known = p) (px_protocol_forwards (ap_proxy app)) = Some (p, protocol_transport p a) \<and>
        a \<notin> snd ` set (ap_pools app) \<and> flat_in (st_heap st) {} a)"

lemma protocol_routes_routed:
  assumes "routed m X px st" "protocol_routes px st = (px', st')"
  shows "routed m X px' st' \<and> changes {} st st'"
proof -
  obtain a st1 b st2 where s: "new_pool [] st = (a, st1)" "new_pool [] st1 = (b, st2)" by fastforce
  have e: "st' = st2" "px_regions px' = px_regions px" "px_default_pool px' = px_default_pool px"
    "px_default_forward px' = px_default_forward px"
    using assms(2) s by (auto simp: protocol_routes_def set_protocol_route_def)
  have al: "alloc_ok st" using assms(1) by (simp add: routed_def)
  have ch: "changes {} st st2" using changes_trans [OF changes_new_pool [OF s(1)] changes_new_pool [OF s(2)]] .
  have "alloc_ok st2" using new_pool_ok(1) [OF new_pool_ok(1) [OF al s(1)] s(2)] .
  then have "routed m X px st2" using routed_changes [OF assms(1) ch] by blast
  then show ?thesis using ch by (simp add: e routed_def inner_def)
qed

lemma vpn_pools_ok_changes:
  assumes "vpn_pools_ok acs m (st_heap st)" "changes D st st'" "\<forall>(r, a) \<in> set m. a < st_next st \<and> a \<notin> D"
  shows "vpn_pools_ok acs m (st_heap st')"
proof -
  have "flat_in (st_heap st') (vpn_exits acs r) a" if "(r, a) \<in> set m" for r a
    using assms that flat_in_same [of "st_heap st" _ a "st_heap st'"] by (fastforce simp: vpn_pools_ok_def changes_def)
  then show ?thesis using assms(1) by (auto simp: vpn_pools_ok_def)
qed

lemma vpn_attach_routed:
  assumes "provider_new \<lparr>st_heap = Map.empty, st_next = 0\<rparr> = (px, st)" "vpn_attach acs px st = (m, px', st')"
  shows "routed m X px' st' \<and> vpn_pools_ok acs m (st_heap st')"
proof -
  obtain st1 where s: "attach_pools 0 acs [] st = (m, st1)" "attach_regions m px st1 = (px', st')"
    using assms(2) by (auto simp: vpn_attach_def split: prod.splits)
  have p: "px = proxy_new 0 (Some (default_transport 0))" "st_next st = 1" "st_heap st 0 = Some (pool_new [])" "alloc_ok st"
    using assms(1) by (auto simp: provider_new_def new_pool_def alloc_ok_def split: if_splits)
  have "vpn_pools_ok acs [] (st_heap st)" by (simp add: vpn_pools_ok_def)
  from attach_pools_vpn [of 0 acs "[]" st m st1 1, OF _ p(4) this] s(1) p(2)
  have a: "vpn_pools_ok acs m (st_heap st1)" "\<forall>(r, a) \<in> set m. 1 \<le> a \<and> a < st_next st1" "alloc_ok st1" "changes {1..} st st1"
    by auto
  have "flat_in (st_heap st1) {} 0" using a(4) p(2,3) by (simp add: flat_in_def changes_def pool_new_def)
  then have r1: "routed m X px st1"
    using a p(2) flat_in_mono [of "st_heap st1" "{}" 0] by (auto simp: routed_def p(1) proxy_new_def inner_def changes_def)
  have r: "routes_on m X px st1 px' st'" by (rule attach_regions_routed [OF r1 order.refl s(2)])
  have "vpn_pools_ok acs m (st_heap st')"
    by (rule vpn_pools_ok_changes [OF a(1), of "inner px"]) (use r r1 in \<open>auto simp: routes_on_def routed_def\<close>)
  then show ?thesis using r by (simp add: routes_on_def)
qed

lemma build_inv:
  assumes "app = build files all bind exits"
  shows "app_inv app (ap_store app)"
proof -
  let ?vpn = "accounts_load vpn_config_of files"
  let ?started = "start_regions (\<lambda>r n. start_region all bind exits r n []) (group_by_region all)"
  let ?X = "ssh_exits (length ?vpn) (map fst ?started)"
  obtain px0 st0 where s0: "provider_new \<lparr>st_heap = Map.empty, st_next = 0\<rparr> = (px0, st0)" by fastforce
  obtain m px2 st2 where s2: "vpn_attach ?vpn px0 st0 = (m, px2, st2)" using prod_cases3 by blast
  obtain px3 st3 where s3: "add_started (length ?vpn) ?started px2 st2 = (px3, st3)" by fastforce
  obtain px' st' where s4: "protocol_routes px3 st3 = (px', st')" by fastforce
  have app: "app = \<lparr>ap_proxy = px', ap_store = st', ap_vpn = ?vpn, ap_pools = m, ap_ssh = ?started\<rparr>"
    using assms s0 s2 s3 s4 by (simp add: build_def provider_start_def provider_config_of_def)
  have r2: "routed m ?X px2 st2" and v2: "vpn_pools_ok ?vpn m (st_heap st2)" using vpn_attach_routed [OF s0 s2] by blast+
  have r3: "routes_on m ?X px2 st2 px3 st3" by (rule add_started_routed [OF r2 s3]) (auto simp: ssh_exits_def)
  then have "routed m ?X px3 st3" by (simp add: routes_on_def)
  from protocol_routes_routed [OF this s4] have r4: "routed m ?X px' st'" and ch: "changes {} st3 st'" by blast+
  have v3: "vpn_pools_ok ?vpn m (st_heap st3)"
    by (rule vpn_pools_ok_changes [OF v2, of "inner px2"]) (use r3 r2 in \<open>auto simp: routes_on_def routed_def\<close>)
  have v4: "vpn_pools_ok ?vpn m (st_heap st')"
    by (rule vpn_pools_ok_changes [OF v3 ch]) (use r3 in \<open>auto simp: routes_on_def routed_def\<close>)
  obtain px st px'' st'' where b: "app_ok px st" "ap_store app = st''" "ap_proxy app = px''" "protocol_routes px st = (px'', st'')"
    "\<forall>(r, a) \<in> set (ap_pools app). a < st_next st"
    by (rule build_ok [OF assms])
  have "\<exists>a. find (\<lambda>(known, _). known = p) (px_protocol_forwards px') = Some (p, protocol_transport p a) \<and>
      a \<notin> snd ` set m \<and> flat_in (st_heap st') {} a" for p
  proof -
    obtain a where "st_next st \<le> a" "st_heap st'' a = Some (pool_new [])"
      "find (\<lambda>(known, _). known = p) (px_protocol_forwards px'') = Some (p, protocol_transport p a)"
      using protocol_routes_ok [OF b(1,4), of p] by blast
    then show ?thesis using b(2,3,5) by (auto simp: app flat_in_def pool_new_def intro!: exI [of _ a])
  qed
  then show ?thesis using r4 v4 by (simp add: app_inv_def app)
qed

section \<open>The pools while the program runs\<close>

lemma shape_at: "map_option shape_of (h' a) = map_option shape_of (h a) \<Longrightarrow> h a = Some p \<Longrightarrow>
  \<exists>p'. h' a = Some p' \<and> pool_proxies p' = pool_proxies p \<and> pool_children p' = pool_children p"
  by (auto simp: shape_of_def)

lemma flat_in_shape_at: "map_option shape_of (h' a) = map_option shape_of (h a) \<Longrightarrow> flat_in h X a \<Longrightarrow> flat_in h' X a"
  unfolding flat_in_def using shape_at by metis

lemma app_inv_heap:
  assumes "app_inv app st" "\<forall>a. a \<notin> snd ` set (ap_pools app) \<longrightarrow> map_option shape_of (h a) = map_option shape_of (st_heap st a)"
    and "dom h = dom (st_heap st)" "vpn_pools_ok (ap_vpn app) (ap_pools app) h"
  shows "app_inv app (st\<lparr>st_heap := h\<rparr>)"
proof -
  let ?m = "ap_pools app" and ?X = "app_ssh_exits app" and ?px = "ap_proxy app" and ?st = "st\<lparr>st_heap := h\<rparr>"
  have r: "routed ?m ?X ?px st" using assms(1) by (simp add: app_inv_def)
  have lf: "leaf ?m ?X ?st u p a" if "leaf ?m ?X st u p a" for u p a
    using that assms(2) flat_in_shape_at [of h a "st_heap st"] by (fastforce simp: leaf_def split: protocol.splits)
  have same: "map_option shape_of (h a) = map_option shape_of (st_heap st a)" if "a \<in> inner ?px" for a
  proof -
    have "a \<notin> snd ` set ?m" using r that by (auto simp: routed_def)
    then show ?thesis using assms(2) by blast
  qed
  have d: "px_default_pool ?px \<in> inner ?px" by (simp add: inner_def)
  have "merged_ok ?m ?X ?st (inner ?px) rg \<and> (\<forall>v \<in> set (rg_variants rg). variant_ok ?m ?X ?st (inner ?px) (rg_username rg) v)"
    if rg: "rg \<in> set (px_regions ?px)" for rg
  proof -
    have mi: "rg_merged rg \<in> inner ?px" using rg by (simp add: inner_def)
    have ok: "merged_ok ?m ?X st (inner ?px) rg" "\<forall>v \<in> set (rg_variants rg). variant_ok ?m ?X st (inner ?px) (rg_username rg) v"
      using r rg by (auto simp: routed_def)
    then obtain self where self: "st_heap st (rg_merged rg) = Some self" "pool_proxies self = []"
      "\<forall>c \<in> set (pool_children self). c \<notin> inner ?px \<and> (\<exists>p. leaf ?m ?X st (rg_username rg) p c)"
      by (auto simp: merged_ok_def)
    from shape_at [of h "rg_merged rg" "st_heap st", OF same [OF mi] self(1)] obtain p' where "h (rg_merged rg) = Some p'" "pool_proxies p' = []"
      "pool_children p' = pool_children self" using self(2) by auto
    then have "merged_ok ?m ?X ?st (inner ?px) rg" using ok(1) self(3) lf by (fastforce simp: merged_ok_def)
    moreover have "\<forall>v \<in> set (rg_variants rg). variant_ok ?m ?X ?st (inner ?px) (rg_username rg) v"
      using ok(2) lf by (simp add: variant_ok_def)
    ultimately show ?thesis by blast
  qed
  moreover have "alloc_ok ?st" using r assms(3) by (simp add: routed_def alloc_ok_def)
  moreover have "flat_in h (\<Union>r. ?X r) (px_default_pool ?px)"
    using r flat_in_shape_at [of h "px_default_pool ?px" "st_heap st", OF same [OF d]] by (simp add: routed_def)
  ultimately have "routed ?m ?X ?px ?st" using r by (simp add: routed_def)
  moreover have "flat_in h {} a" if "a \<notin> snd ` set ?m" "flat_in (st_heap st) {} a" for a
    using that assms(2) flat_in_shape_at by blast
  ultimately show ?thesis using assms(1,4) by (simp add: app_inv_def) blast
qed

lemma app_inv_shape:
  assumes "app_inv app st" "same_shape (st_heap st) h"
  shows "app_inv app (st\<lparr>st_heap := h\<rparr>)"
proof (rule app_inv_heap [OF assms(1)])
  show "dom h = dom (st_heap st)" using same_shape_None [OF assms(2)] by (simp add: dom_def)
  show "vpn_pools_ok (ap_vpn app) (ap_pools app) h"
    using assms flat_in_shape [OF assms(2)] by (fastforce simp: app_inv_def vpn_pools_ok_def)
qed (use assms(2) in \<open>simp add: same_shape_def\<close>)

text \<open>A round of the supervisor, whatever state the accounts are in.\<close>

lemma supervise_account_ok:
  assumes "vpn_pools_ok acs m h" "i < length acs" "same_account (acs ! i) ac"
  shows "vpn_pools_ok acs m (supervise_account (map_of m) i ac h) \<and> dom (supervise_account (map_of m) i ac h) = dom h"
proof (cases "map_of m (ac_region ac)")
  case (Some a)
  then have a: "(ac_region ac, a) \<in> set m" by (rule map_of_SomeD)
  have "proxy_for i ac = proxy_for i (acs ! i)" using assms(3) by (simp add: proxy_for_def vpn_key_def same_account_def)
  then have "proxy_for i ac \<in> vpn_exits acs (ac_region ac)"
    using vpn_exits_at [OF assms(2)] assms(3) by (simp add: same_account_def)
  from vpn_pools_ok_push [OF assms(1) a this] have "vpn_pools_ok acs m (push_at a (proxy_for i ac) h)" .
  moreover have "vpn_pools_ok acs m (remove_at a k h)" for k
    using assms(1) flat_in_remove by (fastforce simp: vpn_pools_ok_def)
  moreover have "dom (push_at a x h) = dom h" "dom (remove_at a k h) = dom h" for x k
    by (auto simp: push_at_def remove_at_def split: if_splits)
  ultimately show ?thesis using assms(1) Some by (auto simp: supervise_account_def split: option.splits)
qed (use assms(1) in \<open>simp add: supervise_account_def\<close>)

lemma supervise_round_ok:
  assumes "vpn_pools_ok acs m h" "\<forall>j < length acs'. i + j < length acs \<and> same_account (acs ! (i + j)) (acs' ! j)"
  shows "vpn_pools_ok acs m (supervise_round (map_of m) i acs' h) \<and> dom (supervise_round (map_of m) i acs' h) = dom h"
  using assms
proof (induction acs' arbitrary: i h)
  case (Cons ac acs')
  have "i < length acs" "same_account (acs ! i) ac" using Cons.prems(2) by force+
  from supervise_account_ok [OF Cons.prems(1) this] have one: "vpn_pools_ok acs m (supervise_account (map_of m) i ac h)"
    "dom (supervise_account (map_of m) i ac h) = dom h" by auto
  have "\<forall>j < length acs'. Suc i + j < length acs \<and> same_account (acs ! (Suc i + j)) (acs' ! j)"
    using Cons.prems(2) by (metis Suc_less_eq add_Suc add_Suc_right length_Cons nth_Cons_Suc)
  from Cons.IH [OF one(1) this] one(2) show ?case by simp
qed simp

lemma app_inv_supervise:
  assumes "app_inv app st" "list_all2 same_account (ap_vpn app) acs"
  shows "app_inv app (st\<lparr>st_heap := supervise_round (map_of (ap_pools app)) 0 acs (st_heap st)\<rparr>)"
proof -
  have "vpn_pools_ok (ap_vpn app) (ap_pools app) (st_heap st)" using assms(1) by (simp add: app_inv_def)
  from supervise_round_ok [OF this, of acs 0] assms(2)
  have "vpn_pools_ok (ap_vpn app) (ap_pools app) (supervise_round (map_of (ap_pools app)) 0 acs (st_heap st))"
    "dom (supervise_round (map_of (ap_pools app)) 0 acs (st_heap st)) = dom (st_heap st)"
    by (auto simp: list_all2_conv_all_nth)
  moreover have "supervise_round (map_of (ap_pools app)) 0 acs (st_heap st) a = st_heap st a" if "a \<notin> snd ` set (ap_pools app)" for a
    using that by (intro supervise_round_untouched) (force simp: ran_def dest: map_of_SomeD)
  ultimately show ?thesis by (intro app_inv_heap [OF assms(1)]) auto
qed

end
