(* ===== verification/Program.thy ===== *)
theory Program
  imports App_Routes
begin

text \<open>
  The running program (\<open>src/main.rs\<close>, the server of \<open>src/proxy/server.rs\<close>): the handlers with the
  forwarder of \<open>src/forward.rs\<close> behind them, the requests of a connection, the accept loop, and the
  program's state under requests and rounds of the supervisor. hyper is the list of requests it reads
  from a connection; the listener is the list of what \<open>accept\<close> returns.
\<close>

section \<open>The handlers and the forwarder\<close>

text \<open>
  The handlers' state is the pools and the forwarder's state; both work on the same pools. A forwarder
  of the program is a transport of \<open>src/upstream.rs\<close>.
\<close>

definition program_forward ::
  "(nat, 'p, 'w, 'h, 'u, 'l, 'j, 'c) gateway \<Rightarrow> transport \<Rightarrow> 'h request \<Rightarrow> target \<Rightarrow>
   (nat, (nat, 'w, 'h, 'l, 'c) forward_state) state \<Rightarrow>
   ((server_error + 'h response) \<times> (nat, (nat, 'w, 'h, 'l, 'c) forward_state) state) option" where
  "program_forward Y tr rq target state =
     (let (st, fs) = state in
      case forward_send Y tr rq target (fs\<lparr>fs_up := (fs_up fs)\<lparr>uw_heap := st_heap st\<rparr>\<rparr>) of
        None \<Rightarrow> None
      | Some (r, fs) \<Rightarrow> Some (r, st\<lparr>st_heap := uw_heap (fs_up fs)\<rparr>, fs))"

definition program_lru ::
  "(nat, 'p, 'w, 'h, 'u, 'l, 'j, 'c) gateway \<Rightarrow> (nat, 'w, 'h, 'l, 'c) forward_state lru" where
  "program_lru Y =
     \<lparr>lru_put = (\<lambda>k e fs. fs\<lparr>fs_exits := lru_put (gt_lru Y) k e (fs_exits fs)\<rparr>),
      lru_peek = (\<lambda>k fs. lru_peek (gt_lru Y) k (fs_exits fs)), lru_lower = lru_lower (gt_lru Y)\<rparr>"

definition web_of ::
  "(nat, 'p, 'w, 'h, 'u, 'l, 'j, 'c) gateway \<Rightarrow>
   (nat, transport, 'conn, (nat, 'w, 'h, 'l, 'c) forward_state, 'h) web \<Rightarrow>
   (nat, transport, 'conn, (nat, 'w, 'h, 'l, 'c) forward_state, 'h) web" where
  "web_of Y W = W\<lparr>wb_forward := program_forward Y, wb_lru := program_lru Y\<rparr>"

section \<open>Connections and the accept loop\<close>

text \<open>
  \<open>serve_connection\<close>: the requests of one connection are handled in turn; a connection that was joined to
  a tunnel carries no more requests, and behind a request that never gets an answer none is read.
\<close>

fun serve_connection ::
  "('t, 'f, 'conn, 'l, 'h) web \<Rightarrow> 'f proxy \<Rightarrow> 'h request list \<Rightarrow> ('t, 'l) state \<Rightarrow>
   ('conn, 'h) connect_result list \<times> ('t, 'l) state" where
  "serve_connection W px [] state = ([], state)"
| "serve_connection W px (rq # rqs) state =
     (case handle W px rq state of
        None \<Rightarrow> ([], state)
      | Some (Joined conn, state) \<Rightarrow> ([Joined conn], state)
      | Some (Respond response, state) \<Rightarrow>
          let (results, state) = serve_connection W px rqs state in (Respond response # results, state))"

text \<open>\<open>Server::serve\<close>: a task for every connection; the first error of \<open>accept\<close> ends the server.\<close>

fun server_serve :: "('e + 'conn) list \<Rightarrow> 'conn list \<times> 'e option" where
  "server_serve [] = ([], None)"
| "server_serve (Inl e # accepts) = ([], Some e)"
| "server_serve (Inr conn # accepts) = (let (spawned, e) = server_serve accepts in (conn # spawned, e))"

definition DEFAULT_PORT :: u16 where [consts_defs]: "DEFAULT_PORT = 8080"

text \<open>
  \<open>main\<close>: build the program, then listen and serve. The result is what was built, the connections that were
  served, and the error the process ends with.
\<close>

definition program_main ::
  "(string \<times> account_file) list \<Rightarrow> ssh_account list \<Rightarrow> (string \<Rightarrow> string + u16) \<Rightarrow> 'x \<Rightarrow>
   (string \<Rightarrow> u16 \<Rightarrow> string + (string + 'conn) list) \<Rightarrow> 'x app \<times> 'conn list \<times> string option" where
  "program_main files all bind exits listen =
     (let app = build files all bind exits in
      case listen ''0.0.0.0'' DEFAULT_PORT of
        Inl e \<Rightarrow> (app, [], Some e)
      | Inr accepts \<Rightarrow> let (spawned, e) = server_serve accepts in (app, spawned, e))"

section \<open>The program at work\<close>

text \<open>
  Requests, of whatever connection, and rounds of the supervisor, which find the accounts in any state.
\<close>

inductive program_step ::
  "(nat, 'p, 'w, 'h, 'u, 'l, 'j, 'c) gateway \<Rightarrow> (nat, transport, 'conn, (nat, 'w, 'h, 'l, 'c) forward_state, 'h) web \<Rightarrow> 'x app \<Rightarrow>
   (nat, (nat, 'w, 'h, 'l, 'c) forward_state) state \<Rightarrow> (nat, (nat, 'w, 'h, 'l, 'c) forward_state) state \<Rightarrow> bool"
  for Y W app where
  request: "handle (web_of Y W) (ap_proxy app) rq s = Some (r, s') \<Longrightarrow> program_step Y W app s s'"
| supervise: "list_all2 same_account (ap_vpn app) acs \<Longrightarrow>
    program_step Y W app (st, fs) (st\<lparr>st_heap := supervise_round (map_of (ap_pools app)) 0 acs (st_heap st)\<rparr>, fs)"

text \<open>The region and the protocol a request names.\<close>

definition named_route :: "('t, 'f, 'conn, 'l, 'h) web \<Rightarrow> 'h request \<Rightarrow> (string \<times> protocol option) option" where
  "named_route W rq =
     (if rq_method rq = ''CONNECT'' \<or> rq_authority rq \<noteq> None then Some (username_of W rq, None)
      else map_option (\<lambda>(route, _). (route_region route, r_protocol route)) (parse_path (rq_path rq) (rq_query rq)))"

text \<open>
  The exits a client may expect behind a route: those of the protocol in the region; without a protocol
  those of the region, or every SSH exit when the program knows no such region.
\<close>

definition app_exits :: "'x app \<Rightarrow> protocol \<Rightarrow> string \<Rightarrow> nat pool_proxy set" where
  "app_exits app p r =
     (case p of
        Vpn \<Rightarrow> {proxy_for i (ap_vpn app ! i) | i. i < length (ap_vpn app) \<and> eq_ignore_ascii_case (ac_region (ap_vpn app ! i)) r}
      | Ssh \<Rightarrow> {ssh_proxy (length (ap_vpn app) + j) (fst (ap_ssh app ! j)) | j.
          j < length (ap_ssh app) \<and> eq_ignore_ascii_case (fst (ap_ssh app ! j)) r})"

definition route_exits :: "'x app \<Rightarrow> string \<Rightarrow> protocol option \<Rightarrow> nat pool_proxy set" where
  "route_exits app r protocol =
     (case protocol of
        Some p \<Rightarrow> app_exits app p r
      | None \<Rightarrow>
          if region_of r (ap_proxy app) = None
          then {ssh_proxy (length (ap_vpn app) + j) (fst (ap_ssh app ! j)) | j. j < length (ap_ssh app)}
          else app_exits app Ssh r \<union> app_exits app Vpn r)"

section \<open>What stands behind a route\<close>

lemma leaf_within:
  assumes "app_inv app st" "leaf (ap_pools app) (app_ssh_exits app) st u p a" "eq_ignore_ascii_case u r"
  shows "within (st_heap st) (app_exits app p r) a"
proof -
  obtain q where q: "eq_ignore_ascii_case q u"
    "case p of Vpn \<Rightarrow> (q, a) \<in> set (ap_pools app) | Ssh \<Rightarrow> flat_in (st_heap st) (app_ssh_exits app q) a"
    using assms(2) by (cases p) (auto simp: leaf_def)
  have e: "eq_ignore_ascii_case q r" using eq_ignore_ascii_case_trans q(1) assms(3) by blast
  have "flat_in (st_heap st) (app_exits app p r) a"
  proof (cases p)
    case Vpn
    then have "flat_in (st_heap st) (vpn_exits (ap_vpn app) q) a" using q(2) assms(1) by (auto simp: app_inv_def vpn_pools_ok_def)
    moreover have "vpn_exits (ap_vpn app) q \<subseteq> app_exits app p r" using e Vpn by (auto simp: vpn_exits_def app_exits_def)
    ultimately show ?thesis by (rule flat_in_mono)
  next
    case Ssh
    then have "flat_in (st_heap st) (app_ssh_exits app q) a" using q(2) by simp
    moreover have "app_ssh_exits app q \<subseteq> app_exits app p r" using e Ssh by (auto simp: ssh_exits_def app_exits_def)
    ultimately show ?thesis by (rule flat_in_mono)
  qed
  then show ?thesis by (rule flat_in_within)
qed

lemma region_of_name: "region_of r px = Some rg \<Longrightarrow> rg \<in> set (px_regions px) \<and> eq_ignore_ascii_case (rg_username rg) r"
  by (auto simp: region_of_def find_Some_iff split: if_splits)

lemma default_within:
  assumes "app_inv app st"
  shows "within (st_heap st) {ssh_proxy (length (ap_vpn app) + j) (fst (ap_ssh app ! j)) | j. j < length (ap_ssh app)}
    (px_default_pool (ap_proxy app))"
proof -
  have "flat_in (st_heap st) (\<Union>r. app_ssh_exits app r) (px_default_pool (ap_proxy app))"
    using assms by (simp add: app_inv_def routed_def)
  moreover have "(\<Union>r. app_ssh_exits app r) \<subseteq> {ssh_proxy (length (ap_vpn app) + j) (fst (ap_ssh app ! j)) | j. j < length (ap_ssh app)}"
    by (auto simp: ssh_exits_def)
  ultimately show ?thesis by (rule flat_in_within [OF flat_in_mono])
qed

text \<open>The pools behind a region's merged pool are its leaves.\<close>

lemma merged_within:
  assumes "app_inv app st" "region_of r (ap_proxy app) = Some rg"
  shows "within (st_heap st) (app_exits app Ssh r \<union> app_exits app Vpn r) (rg_merged rg)"
proof (rule withinI)
  fix self
  assume self: "st_heap st (rg_merged rg) = Some self"
  have rg: "rg \<in> set (px_regions (ap_proxy app))" "eq_ignore_ascii_case (rg_username rg) r" using region_of_name [OF assms(2)] by auto
  then have "merged_ok (ap_pools app) (app_ssh_exits app) st (inner (ap_proxy app)) rg"
    using assms(1) by (simp add: app_inv_def routed_def)
  then have m: "pool_proxies self = []"
    "\<forall>c \<in> set (pool_children self). \<exists>p. leaf (ap_pools app) (app_ssh_exits app) st (rg_username rg) p c"
    using self unfolding merged_ok_def by (metis option.inject)+
  have "within (st_heap st) (app_exits app Ssh r \<union> app_exits app Vpn r) c" if "c \<in> set (pool_children self)" for c
  proof -
    from bspec [OF m(2) that] obtain p where lf: "leaf (ap_pools app) (app_ssh_exits app) st (rg_username rg) p c" ..
    from leaf_within [OF assms(1) lf rg(2)] show ?thesis by (rule within_mono) (cases p; auto)
  qed
  then show "set (pool_proxies self) \<subseteq> app_exits app Ssh r \<union> app_exits app Vpn r \<and>
      (\<forall>c \<in> set (pool_children self). within (st_heap st) (app_exits app Ssh r \<union> app_exits app Vpn r) c)"
    using m(1) by simp
qed

lemma pool_for_within:
  assumes "app_inv app st" "pool_for r None (ap_proxy app) st = (pool, st')"
  shows "st' = st \<and> within (st_heap st) (route_exits app r None) pool"
  using assms(2) default_within [OF assms(1)] merged_within [OF assms(1)]
  by (auto simp: pool_for_def region_pool_def route_exits_def split: option.splits)

lemma variant_within:
  assumes "app_inv app st" "region_of r (ap_proxy app) = Some rg" "v \<in> set (rg_variants rg)" "va_forward v = Some tr"
  shows "within (st_heap st) (app_exits app (va_protocol v) r) (tr_pool tr)"
proof -
  have rg: "rg \<in> set (px_regions (ap_proxy app))" "eq_ignore_ascii_case (rg_username rg) r" using region_of_name [OF assms(2)] by auto
  then have "variant_ok (ap_pools app) (app_ssh_exits app) st (inner (ap_proxy app)) (rg_username rg) v"
    using assms(1,3) by (auto simp: app_inv_def routed_def)
  then show ?thesis using leaf_within [OF assms(1) _ rg(2)] assms(4) by (auto simp: variant_ok_def region_transport_def)
qed

lemma find_variant_mem: "find_variant p rg = Some v \<Longrightarrow> v \<in> set (rg_variants rg) \<and> va_protocol v = p"
  by (auto simp: find_variant_def find_Some_iff)

lemma forward_for_within:
  assumes "app_inv app st" "forward_for r protocol (ap_proxy app) = Some tr"
  shows "within (st_heap st) (route_exits app r protocol) (tr_pool tr)"
proof (cases "Option.bind (region_of r (ap_proxy app)) (region_forward protocol)")
  case (Some f)
  then obtain rg where rg: "region_of r (ap_proxy app) = Some rg" "region_forward protocol rg = Some tr"
    using assms(2) by (auto simp: forward_for_def bind_eq_Some_conv)
  then obtain v where v: "v \<in> set (rg_variants rg)" "va_forward v = Some tr" "\<forall>p. protocol = Some p \<longrightarrow> va_protocol v = p"
    using find_variant_mem by (fastforce simp: region_forward_def bind_eq_Some_conv split: option.splits list.splits)
  have w: "within (st_heap st) (app_exits app (va_protocol v) r) (tr_pool tr)" by (rule variant_within [OF assms(1) rg(1) v(1,2)])
  show ?thesis
  proof (cases protocol)
    case None
    have "app_exits app (va_protocol v) r \<subseteq> route_exits app r protocol"
      using rg(1) None by (cases "va_protocol v") (auto simp: route_exits_def)
    then show ?thesis by (rule within_mono [OF w])
  qed (use w v(3) in \<open>simp add: route_exits_def\<close>)
next
  case None
  show ?thesis
  proof (cases protocol)
    case (Some p)
    obtain a where a: "find (\<lambda>(known, _). known = p) (px_protocol_forwards (ap_proxy app)) = Some (p, protocol_transport p a)"
      "flat_in (st_heap st) {} a"
      using assms(1) unfolding app_inv_def by blast
    have "tr = protocol_transport p a" using assms(2) None Some a(1) by (simp add: forward_for_def)
    then have "within (st_heap st) {} (tr_pool tr)" using flat_in_within [OF a(2)] by (simp add: protocol_transport_def)
    then show ?thesis by (rule within_mono) simp
  next
    case n: None
    have unknown: "region_of r (ap_proxy app) = None"
    proof (rule ccontr)
      assume "region_of r (ap_proxy app) \<noteq> None"
      then obtain rg where rg: "region_of r (ap_proxy app) = Some rg" by blast
      then have "rg \<in> set (px_regions (ap_proxy app))" using region_of_name by blast
      then have "(\<forall>v \<in> set (rg_variants rg). va_forward v \<noteq> None) \<and> rg_variants rg \<noteq> []"
        using assms(1) by (auto simp: app_inv_def routed_def variant_ok_def merged_ok_def)
      then show False using None rg n find_variant_mem
        by (fastforce simp: region_forward_def split: option.splits list.splits)
    qed
    have "tr = default_transport (px_default_pool (ap_proxy app))"
      using assms None n by (simp add: forward_for_def app_inv_def routed_def)
    then show ?thesis using default_within [OF assms(1)] n unknown by (simp add: route_exits_def default_transport_def)
  qed
qed

section \<open>What a request does to the program\<close>

lemma set_egress_heap: "set_egress_headers Y found h fs = (h', fs') \<Longrightarrow> uw_heap (fs_up fs') = uw_heap (fs_up fs)"
  by (auto simp: set_egress_headers_def lookup_isp_def Let_def split: option.splits if_splits prod.splits)

lemma forward_send_sends:
  assumes "forward_send Y tr rq target fs = Some (res, fs')"
  shows "\<exists>log. uw_sent (fs_up fs') = uw_sent (fs_up fs) @ log \<and> fst ` set log \<subseteq> tr_keys tr (uw_heap (fs_up fs)) \<and>
    same_shape (uw_heap (fs_up fs)) (uw_heap (fs_up fs'))"
proof (cases "gt_uri Y (target_uri target)")
  case None
  then show ?thesis using assms by (simp add: forward_send_def)
next
  case (Some uri)
  obtain r uw where t: "transport_request (gt_agent Y) tr (outgoing_of Y rq target uri) (fs_up fs) = Some (r, uw)"
    using assms Some by (auto simp: forward_send_def split: option.splits)
  note a = t [unfolded transport_request_def]
  have sub: "rotates K tried ks \<Longrightarrow> set ks \<subseteq> K" for K tried ks by (induction ks arbitrary: tried) auto
  from attempts_sent [OF a] obtain log where log: "uw_sent uw = uw_sent (fs_up fs) @ log"
    "fst ` set log \<subseteq> tr_keys tr (uw_heap (fs_up fs))"
    using sub [of _ "[]" "map fst _"] by (fastforce simp: sent_ok_def)
  have "uw_sent (fs_up fs') = uw_sent uw \<and> uw_heap (fs_up fs') = uw_heap uw"
  proof (cases r)
    case (Inl e)
    then show ?thesis using assms Some t by (auto simp: forward_send_def)
  next
    case (Inr x)
    obtain h fs2 where s: "set_egress_headers Y (exit_get (gt_lru Y) (t_host target)
          (exit_record (gt_lru Y) (t_host target) (gt_exit_for Y (uw_now uw) (c_tunnel (fst x)) (t_host target)) (fs_exits fs)))
        (strip_hop_headers (gt_headers Y) (rs_headers (snd x)))
        (fs\<lparr>fs_up := uw, fs_exits :=
          exit_record (gt_lru Y) (t_host target) (gt_exit_for Y (uw_now uw) (c_tunnel (fst x)) (t_host target)) (fs_exits fs)\<rparr>) = (h, fs2)"
      by fastforce
    then have "fs' = fs2" using assms Some t Inr by (cases x) (auto simp: forward_send_def Let_def)
    then show ?thesis using set_egress_keeps [OF s] set_egress_heap [OF s] by simp
  qed
  then show ?thesis using log attempts_shape [OF a] by auto
qed

text \<open>
  The effect of handling a request on the program: only rotation counters of the pools change, and what
  leaves the program goes through the exits \<open>X\<close>.
\<close>

definition sends_within ::
  "nat pool_proxy set \<Rightarrow> (nat, (nat, 'w, 'h, 'l, 'c) forward_state) state \<Rightarrow> (nat, (nat, 'w, 'h, 'l, 'c) forward_state) state \<Rightarrow> bool" where
  "sends_within X s s' \<longleftrightarrow>
     (\<exists>new. uw_sent (fs_up (snd s')) = uw_sent (fs_up (snd s)) @ new \<and> fst ` set new \<subseteq> pp_key ` X) \<and>
     (\<exists>h. fst s' = fst s\<lparr>st_heap := h\<rparr> \<and> same_shape (st_heap (fst s)) h)"

lemma sends_nothing [simp]: "sends_within X s s"
  by (auto simp: sends_within_def intro: exI [of _ "st_heap (fst s)"])

lemma program_forward_sends:
  assumes "program_forward Y tr rq target (st, fs) = Some (r, s')" "within (st_heap st) X (tr_pool tr)"
  shows "sends_within X (st, fs) s'"
proof -
  let ?fs = "fs\<lparr>fs_up := (fs_up fs)\<lparr>uw_heap := st_heap st\<rparr>\<rparr>"
  obtain fs' where f: "forward_send Y tr rq target ?fs = Some (r, fs')" "s' = (st\<lparr>st_heap := uw_heap (fs_up fs')\<rparr>, fs')"
    using assms(1) by (auto simp: program_forward_def split: option.splits)
  from forward_send_sends [OF f(1)] obtain log where "uw_sent (fs_up fs') = uw_sent (fs_up fs) @ log"
    "fst ` set log \<subseteq> tr_keys tr (st_heap st)" "same_shape (st_heap st) (uw_heap (fs_up fs'))" by auto
  then show ?thesis using within_keys [OF assms(2)] by (auto simp: sends_within_def f(2))
qed

lemma web_of_simps [simp]:
  "wb_forward (web_of Y W) = program_forward Y" "wb_lru (web_of Y W) = program_lru Y" "wb_headers (web_of Y W) = wb_headers W"
  "wb_b64 (web_of Y W) = wb_b64 W" "wb_dial (web_of Y W) = wb_dial W" "wb_rounds (web_of Y W) = wb_rounds W"
  "wb_is_ready (web_of Y W) = wb_is_ready W" "wb_depth (web_of Y W) = wb_depth W" "wb_exit_for (web_of Y W) = wb_exit_for W"
  "wb_target_pool (web_of Y W) = wb_target_pool W" "wb_active_tunnels (web_of Y W) = wb_active_tunnels W"
  by (simp_all add: web_of_def)

lemma username_web_of [simp]: "username_of (web_of Y W) rq = username_of W rq" "connect_authority (web_of Y W) rq = connect_authority W rq"
  by (simp_all add: username_of_def connect_authority_def split: option.split)

lemma handle_connect_sends:
  assumes "app_inv app st" "handle_connect (web_of Y W) (ap_proxy app) rq (st, fs) = Some (r, s')"
  shows "sends_within {} (st, fs) s' \<and>
    (\<forall>conn. r = Joined conn \<longrightarrow> (\<exists>x \<in> route_exits app (username_of W rq) None. \<exists>host port. wb_dial W (pp_tunnel x) host port = Inr conn))"
proof (cases "connect_authority W rq")
  case None
  then show ?thesis using assms(2) by (auto simp: handle_connect_def)
next
  case (Some authority)
  obtain host port where hp: "split_authority authority ''https'' = (host, port)" by fastforce
  obtain pool where p: "pool_for (username_of W rq) None (ap_proxy app) st = (pool, st)"
    and w: "within (st_heap st) (route_exits app (username_of W rq) None) pool"
    using pool_for_within [OF assms(1)] by (metis prod.exhaust)
  obtain found h where k: "pick (wb_rounds W) (wb_is_ready W) (wb_depth W) (st_heap st) pool = Some (found, h)"
    using assms(2) Some hp p by (auto simp: handle_connect_def split: option.splits)
  note sel = select_within [OF k [unfolded pick_def] w]
  have moved: "sends_within {} (st, fs) (st\<lparr>st_heap := h\<rparr>, fs')" if "uw_sent (fs_up fs') = uw_sent (fs_up fs)" for fs'
    using sel that by (auto simp: sends_within_def)
  show ?thesis
  proof (cases found)
    case None
    then show ?thesis using assms(2) Some hp p k moved by (auto simp: handle_connect_def)
  next
    case c: (Some c)
    then obtain x where x: "x \<in> route_exits app (username_of W rq) None" "c_tunnel c = pp_tunnel x"
      using sel by (auto simp: to_candidate_def)
    have "uw_sent (fs_up (exit_record (program_lru Y) host e fs)) = uw_sent (fs_up fs)" for e
      by (simp add: exit_record_def program_lru_def)
    then show ?thesis using assms(2) Some hp p k c x moved
      by (auto simp: handle_connect_def split: sum.splits)
  qed
qed

lemma handle_sends:
  assumes "app_inv app st" "handle (web_of Y W) (ap_proxy app) rq (st, fs) = Some (r, s')"
  shows "sends_within (case named_route W rq of None \<Rightarrow> {} | Some (region, protocol) \<Rightarrow> route_exits app region protocol) (st, fs) s' \<and>
    (\<forall>conn. r = Joined conn \<longrightarrow> rq_method rq = ''CONNECT'' \<and>
       (\<exists>x \<in> route_exits app (username_of W rq) None. \<exists>host port. wb_dial W (pp_tunnel x) host port = Inr conn))"
proof (cases "rq_method rq = ''CONNECT''")
  case True
  then have "handle_connect (web_of Y W) (ap_proxy app) rq (st, fs) = Some (r, s')" using assms(2) by (simp add: handle_def)
  from handle_connect_sends [OF assms(1) this] True show ?thesis
    by (auto simp: named_route_def sends_within_def)
next
  case False
  have fwd: "sends_within (route_exits app region protocol) (st, fs) s1"
    if "forward_for region protocol (ap_proxy app) = Some tr" "program_forward Y tr rq target (st, fs) = Some (q, s1)"
    for region protocol tr target q s1
    using program_forward_sends [OF that(2) forward_for_within [OF assms(1) that(1)]] .
  show ?thesis
  proof (cases "rq_authority rq")
    case (Some authority)
    obtain q where q: "absolute (web_of Y W) (ap_proxy app) rq (st, fs) = Some (q, s')" "\<forall>conn. r \<noteq> Joined conn"
      using assms(2) False Some by (auto simp: handle_def split: option.splits sum.splits)
    then have "sends_within (route_exits app (username_of W rq) None) (st, fs) s'"
      using fwd by (auto simp: absolute_def Let_def split: if_splits option.splits)
    then show ?thesis using q(2) Some by (simp add: named_route_def)
  next
    case None
    obtain q where q: "rewrite (web_of Y W) (ap_proxy app) rq (st, fs) = Some (q, s')" "\<forall>conn. r \<noteq> Joined conn"
      using assms(2) False None by (auto simp: handle_def split: option.splits sum.splits)
    then show ?thesis
      using False None by (auto simp: rewrite_def named_route_def split: option.splits intro: fwd)
  qed
qed

lemma program_step_inv:
  assumes "program_step Y W app s s'" "app_inv app (fst s)"
  shows "app_inv app (fst s')"
  using assms(1)
proof cases
  case (request rq r)
  then have "handle (web_of Y W) (ap_proxy app) rq (fst s, snd s) = Some (r, s')" by simp
  from handle_sends [OF assms(2) this] obtain h where "fst s' = fst s\<lparr>st_heap := h\<rparr>" "same_shape (st_heap (fst s)) h"
    by (auto simp: sends_within_def)
  then show ?thesis using app_inv_shape [OF assms(2)] by simp
next
  case (supervise acs st fs)
  then show ?thesis using app_inv_supervise assms(2) by simp
qed

lemma program_inv:
  assumes "app = build files all bind exits" "(program_step Y W app)\<^sup>*\<^sup>* (ap_store app, fs0) s"
  shows "app_inv app (fst s)"
  using assms(2)
proof (induction rule: rtranclp_induct)
  case base
  then show ?case using build_inv [OF assms(1)] by simp
qed (rule program_step_inv)

text \<open>
  C1: a request goes where it asked to go. In the program that is built, after any requests and any rounds of
  the supervisor, with the accounts in whatever state: a request that names a protocol and a region
  leaves the program only through exits of that protocol in that region (its name compared without case),
  one that names a region the program has only through exits of the region, and any other only through
  SSH exits; a CONNECT is joined only to a connection dialled through such an exit.
\<close>

theorem requests_stay_in_region:
  assumes "app = build files all bind exits" "(program_step Y W app)\<^sup>*\<^sup>* (ap_store app, fs0) (st, fs)"
    and "handle (web_of Y W) (ap_proxy app) rq (st, fs) = Some (r, st', fs')"
  shows "(\<exists>new. uw_sent (fs_up fs') = uw_sent (fs_up fs) @ new \<and>
      (case named_route W rq of
         None \<Rightarrow> new = []
       | Some (region, protocol) \<Rightarrow> fst ` set new \<subseteq> pp_key ` route_exits app region protocol)) \<and>
    (\<forall>conn. r = Joined conn \<longrightarrow>
      (\<exists>x \<in> route_exits app (username_of W rq) None. \<exists>host port. wb_dial W (pp_tunnel x) host port = Inr conn))"
proof -
  have "app_inv app st" using program_inv [OF assms(1,2)] by simp
  from handle_sends [OF this assms(3)] show ?thesis
    by (auto simp: sends_within_def split: option.splits)
qed

text \<open>A client that dials through the program with one SSH account.\<close>

definition program_web ::
  "(nat, transport, string, (nat, string, (string \<times> string) list, string \<Rightarrow> exit option, string \<Rightarrow> string option) forward_state,
    (string \<times> string) list) web" where
  "program_web =
     \<lparr>wb_is_ready = (\<lambda>round t. True), wb_dial = (\<lambda>t host port. Inr host),
      wb_exit_for = (\<lambda>t host. \<lparr>ex_ip = [], ex_region = [], ex_protocol = []\<rparr>), wb_target_pool = (\<lambda>t. t),
      wb_active_tunnels = (\<lambda>t. t), wb_lru = program_lru demo_gateway, wb_headers = list_headers, wb_b64 = (\<lambda>s. None),
      wb_forward = program_forward demo_gateway, wb_rounds = 1, wb_depth = 2\<rparr>"

definition program_connect :: "(string \<times> string) list request" where
  "program_connect =
     \<lparr>rq_method = ''CONNECT'', rq_scheme = None, rq_authority = Some ''a.io'', rq_path = [], rq_query = None,
      rq_headers = [], rq_body = []\<rparr>"

lemma demo_app_default:
  "px_default_pool (ap_proxy demo_app) = 0 \<and> st_heap (ap_store demo_app) 0 = Some (pool_new [ssh_proxy 0 ''sg''])"
  by (simp add: demo_app_def build_def provider_new_def new_pool_def proxy_new_def vpn_attach_def provider_start_def
      group_by_region_def push_entry_def start_region_def demo_ssh_account_def provider_add_def register_def region_new_def region_add_def
      add_region_def protocol_routes_def set_protocol_route_def push_at_def push_def pool_new_def add_child_def Let_def)

theorem requests_stay_in_region_witness:
  "\<exists>s'. handle (web_of demo_gateway program_web) (ap_proxy demo_app) program_connect (ap_store demo_app, demo_forward_state) =
      Some (Joined ''a.io'', s') \<and>
    (\<exists>x \<in> route_exits demo_app [] None. \<exists>host port. wb_dial program_web (pp_tunnel x) host port = Inr ''a.io'')"
proof -
  have sa: "split_authority ''a.io'' ''https'' = (''a.io'', 443)"
    by (simp add: split_authority_def rsplit_once_def split_once_def trim_matches_def is_bracket_def default_port_def)
  have u: "username_of program_web program_connect = []"
    by (simp add: username_of_def auth_username_def program_web_def program_connect_def list_headers_def)
  have "pool_for [] None (ap_proxy demo_app) (ap_store demo_app) = (0, ap_store demo_app)"
    using demo_app_default by (simp add: pool_for_def region_of_def)
  moreover have "\<exists>c h'. pick 1 (\<lambda>round t. True) 2 (st_heap (ap_store demo_app)) 0 = Some (Some c, h')"
    using demo_app_default by (simp add: pick_def numeral_2_eq_2 pool_new_def pool_local_def to_candidate_def Let_def)
  ultimately obtain st' fs' where *: "handle (web_of demo_gateway program_web) (ap_proxy demo_app) program_connect (ap_store demo_app, demo_forward_state) =
      Some (Joined ''a.io'', st', fs')"
    using u by (auto simp: handle_def handle_connect_def connect_authority_def sa program_web_def program_connect_def)
  from requests_stay_in_region [OF demo_app_def rtranclp.rtrancl_refl *] u
  have "\<exists>x \<in> route_exits demo_app [] None. \<exists>host port. wb_dial program_web (pp_tunnel x) host port = Inr ''a.io''" by simp
  with * show ?thesis by blast
qed

section \<open>Connections\<close>

text \<open>
  The server ends with the first error of \<open>accept\<close>; the connections accepted before it are served, none
  behind it.
\<close>

lemma server_serve_error: "server_serve (map Inr conns @ Inl e # later) = (conns, Some e)"
  by (induction conns) simp_all

lemma server_serve_ends: "snd (server_serve accepts) = Some e \<longleftrightarrow> (\<exists>conns later. accepts = map Inr conns @ Inl e # later)"
proof
  show "\<exists>conns later. accepts = map Inr conns @ Inl e # later" if "snd (server_serve accepts) = Some e"
    using that
  proof (induction accepts rule: server_serve.induct)
    case (2 e' accepts)
    then show ?case by (auto intro: exI [of _ "[]"])
  next
    case (3 conn accepts)
    then obtain conns later where "accepts = map Inr conns @ Inl e # later" by (auto split: prod.splits)
    then show ?case by (auto intro!: exI [of _ "conn # conns"])
  qed simp
qed (auto simp: server_serve_error)

text \<open>
  The process ends exactly if it cannot listen or an accept fails, and then with that error: a single
  failing accept (too many open files, a connection that was reset before it was accepted) stops the proxy.
\<close>

theorem program_ends_at_first_error:
  "snd (snd (program_main files all bind exits listen)) = Some e \<longleftrightarrow>
     listen ''0.0.0.0'' DEFAULT_PORT = Inl e \<or>
     (\<exists>conns later. listen ''0.0.0.0'' DEFAULT_PORT = Inr (map Inr conns @ Inl e # later))"
  by (auto simp: program_main_def Let_def case_prod_beta server_serve_ends split: sum.splits)

text \<open>
  The answers of a connection: as many as requests were handled, in their order, and after any number of
  requests the program's pools are as \<open>requests_stay_in_region\<close> needs them.
\<close>

lemma serve_connection_steps:
  "(program_step Y W app)\<^sup>*\<^sup>* s (snd (serve_connection (web_of Y W) (ap_proxy app) rqs s))"
proof (induction rqs arbitrary: s)
  case (Cons rq rqs)
  show ?case
  proof (cases "handle (web_of Y W) (ap_proxy app) rq s")
    case (Some x)
    obtain r s1 where x: "x = (r, s1)" by (cases x)
    then have step: "program_step Y W app s s1" using Some program_step.request by blast
    show ?thesis
      using Some x step Cons.IH [of s1] by (cases r) (auto simp: case_prod_beta intro: converse_rtranclp_into_rtranclp)
  qed simp
qed simp

end
