(* ===== verification/Spec2Isabelle.thy ===== *)
theory Spec2Isabelle
  imports Ovpn_Channel Vpn_Link Program
begin

text \<open>
  A verification development for unroxy, a forward proxy that sends each request of its clients through
  one of many exits: SSH servers (plain or obfuscated) and OpenVPN servers. The sources are the Rust files
  under \<open>src/\<close>; file names below are relative to it.

  \<^bold>\<open>The program.\<close> \<open>main.rs\<close> builds the proxy (\<open>config.rs\<close>) and serves HTTP (\<open>proxy/server.rs\<close>). A client names
  a target, and optionally a region and a protocol, by a CONNECT with a user name, by an absolute URI, or by
  the path of the request. Routing tables lead from region and protocol to a pool of exits
  (\<open>proxy/pool.rs\<close>). CONNECT dials through an exit of the pool and joins the two connections; other
  requests go to a forwarder (\<open>forward.rs\<close>, \<open>upstream.rs\<close>), which tries exits in turn and reports in headers
  which one it used (\<open>proxy/exit.rs\<close>, \<open>geo.rs\<close>, \<open>emulation.rs\<close>). SSH exits (\<open>ssh/\<close>) are one tunnel per region
  with a pool of sessions that a manager task keeps filled, each over OSSH or plain TCP; OpenVPN exits (\<open>vpn/\<close>,
  \<open>openvpn/\<close>) are one tunnel per account with a user-space TCP stack. Both offer a SOCKS5 bridge on
  localhost to the HTTP client library. Tasks run beside each other: the SSH managers, the refresh of
  tunnels, the warm-up of VPN accounts, the reaper of idle ones, and the supervisor that moves accounts in
  and out of the pools.

  \<^bold>\<open>How the code is modelled.\<close> A struct is a record, an enum a datatype, an integer a word of its width where it
  can wrap; strings are lists of bytes as characters. A function that can fail returns a sum with the error on
  the left, a panic is the value \<open>Panicked\<close> (type \<open>exec\<close>) or \<open>Panics\<close>, not returning is \<open>Hangs\<close> or \<open>None\<close>. State is
  passed explicitly. Shared pools live in a heap of addresses, so that aliasing of \<open>Arc<ProxyPool>\<close> is visible.
  Time is a number of milliseconds that only waiting advances. Tasks that interleave are step relations.
  Code of other packages (TLS, AEAD and CBC ciphers, HMAC, SHA-1, the SSH protocol, the TCP/IP stack, HTTP,
  TOML, JSON, LRU caches, the sockets) is a parameter, and what is relied on is a named predicate
  (\<open>crypto_laws\<close>, \<open>socket_laws\<close>, \<open>btls_laws\<close>, \<open>header_laws\<close>, \<open>exit_cache_laws\<close>, ...) which the witnesses
  show can hold.

  \<^bold>\<open>The theories\<close>, in the order of the parts of the program.

  Shared: \<open>Prelude\<close> (byte types, panicking slices, big-endian numbers, collections of facts), \<open>Rust_Str\<close> (the string
  functions of the standard library), \<open>Utf8\<close>, \<open>Ip_Addr\<close> (parsing and printing of addresses), \<open>Btree\<close> (ordered
  maps; locales \<open>ordered_map\<close>, \<open>list_map\<close>), \<open>Embedded\<close> (files compiled into the binary), \<open>Async_Io\<close> (polls; the
  locale \<open>byte_source\<close> says what reading from a stream promises, and is interpreted for the client stream of the
  TCP stack, the guard of a VPN connection, the OSSH stream and the SSH transport).

  HTTP front end: \<open>Http_Route\<close> (paths, authorities, credentials), \<open>Pool\<close> (\<open>proxy/pool.rs\<close>: candidates, rotation,
  selection), \<open>Proxy_Server\<close> (regions and variants, the proxy's tables, the handlers, the index page, header
  hygiene, the exit cache).

  Forwarding: \<open>Geo\<close> (\<open>geo.rs\<close>, \<open>emulation.rs\<close>), \<open>Upstream\<close> (\<open>upstream.rs\<close>, \<open>forward.rs\<close>; locale \<open>exit_source\<close> for what
  the transport needs of a pool).

  OpenVPN: \<open>Ovpn_Config\<close> (\<open>config.rs\<close>, \<open>error.rs\<close>, \<open>framing.rs\<close>), \<open>Ovpn_Packet\<close> and \<open>Ovpn_Push\<close> (the codecs of
  \<open>control.rs\<close>), \<open>Ovpn_Crypto\<close> (\<open>crypto/keys.rs\<close>, \<open>crypto/aes.rs\<close>), \<open>Replay\<close> (\<open>crypto/replay.rs\<close>; locale for a replay
  window), \<open>Ovpn_Tls\<close> (\<open>tls.rs\<close>), \<open>Ovpn_Net\<close> (the socket with arrival times), \<open>Ovpn_Control\<close> (the operations of
  \<open>Control\<close>), \<open>Ovpn_Reliable\<close> (reordering), \<open>Ovpn_Channel\<close> (the data channel), \<open>Ovpn_Stack\<close> (\<open>stack.rs\<close>),
  \<open>Ovpn_Tunnel\<close> (\<open>tunnel.rs\<close>).

  VPN accounts: \<open>Vpn_Profile\<close> (\<open>vpn/account.rs\<close>), \<open>Vpn_Account\<close> (\<open>vpn/provider.rs\<close> and the supervisor of
  \<open>vpn/mod.rs\<close>, the tasks as \<open>vpn_step\<close>; locale \<open>tunnel_trait\<close>), \<open>Vpn_Link\<close> (guards, the reaper's rounds, and the
  accounts over the OpenVPN client).

  SSH: \<open>Ssh_Account\<close> (\<open>ssh/account.rs\<close>), \<open>Ossh\<close> and \<open>Ossh_Stream\<close> (\<open>ssh/ossh.rs\<close>), \<open>Ssh_Session\<close>
  (\<open>ssh/session.rs\<close>), \<open>Socks\<close> (both SOCKS servers), \<open>Ssh_Tunnel\<close> (\<open>ssh/mod.rs\<close>, the manager as \<open>mgr_step\<close>).

  The whole: \<open>App\<close> (\<open>proxy/provider.rs\<close>, \<open>Vpn::attach\<close>, \<open>config.rs\<close>), \<open>App_Routes\<close> (which exits stand behind which
  route), \<open>Program\<close> (the handlers over the forwarder, connections, the accept loop, \<open>main.rs\<close>; requests and the
  supervisor as \<open>program_step\<close>).

  \<^bold>\<open>What is shown.\<close>
  \<^item> The program as a whole: a request leaves only through exits of the protocol and region it names
    (\<open>requests_stay_in_region\<close>); every account and region that starts can be reached (\<open>build_serves_every_region\<close>).
  \<^item> Routing: what paths parse to, and that targets are well formed; outcomes of CONNECT; a pool lists each exit
    exactly once, rotates, and picks a ready exit when there is one.
  \<^item> Forwarding: the number, order and exits of attempts, a bound on the time, which headers and bodies
    leave the program, and what the egress header reports.
  \<^item> OpenVPN: the replay window refines the set of all ids seen; control packets are reassembled in any order;
    round trips of packets, push replies and ciphers; keys of the right size from disjoint slots; no
    plaintext is delivered twice, and nonces are fresh until the counter wraps; whom TLS trusts; the stack
    never loses a socket, moves bytes in order, and its streams refine a queue of bytes.
  \<^item> VPN accounts: readiness, live tunnels and connection counters agree in every reachable state; the reaper
    closes exactly what was idle; the supervisor keeps the pools equal to the ready accounts.
  \<^item> SSH: the obfuscated stream is transparent in both directions whatever the sizes of reads and writes; a
    dial uses an open session and records its exit; sessions and handshakes stay within their limits;
    accounts are found whenever one is due; the SOCKS servers dial what the client encoded, and agree.
  \<^item> Failures of the code that the theorems make precise: a pick that never returns, protocol routes without exits,
    accounts that never come back, a packet that panics the parser, servers that end at the first failing
    accept.

  \<^bold>\<open>Bounds and fuel.\<close> Recursion over pools takes a depth; \<open>filtered_complete\<close> shows that the rank of an acyclic pool
  graph is enough, and the program's graph has depth two. \<open>select\<close> takes a number of rounds and gives \<open>None\<close>
  beyond it, which \<open>pick_finds_ready\<close> and \<open>pick_waits_forever\<close> are about. The read loop of the TLS engine is bounded by
  \<open>ssl_reads\<close>, and hangs beyond it. All other loops have termination proofs: those over the network by the data
  still to arrive and the time left, \<open>p_hash\<close> by the bytes still missing, the reading of OSSH packets by
  the bytes in the buffer.

  \<^bold>\<open>Not modelled.\<close> Logging and formatting of debug output; the copying of bytes between two joined connections
  (library calls on two streams, each of which is modelled); aborting the tasks of a tunnel that is dropped;
  reading the clock; \<open>memcheck.rs\<close> and \<open>testserver.rs\<close>, which exist only in test builds; the tests. Weak memory
  effects of relaxed atomics are not modelled: a step of a task is atomic.
\<close>

end
